(* ===== verification/Slip_Prelude.thy ===== *)
theory Slip_Prelude
  imports Main "HOL-Library.Word"
begin

unbundle bit_operations_syntax

text \<open>
  Shared vocabulary of the development: the machine types of the C++ sources
  (\<open>uint8_t\<close>, \<open>uint32_t\<close>, \<open>size_t\<close> on an LP64 target), byte-addressed memory with
  raw pointers, the word lemmas the index arithmetic of every component needs, and
  the two generic interfaces that the stateful components implement: a step function
  that keeps an invariant, and a step function that simulates an abstract one.
\<close>

section \<open>Machine types\<close>

type_synonym byte = "8 word"
type_synonym uint32 = "32 word"
type_synonym size_t = "64 word"

text \<open>
  Memory is a byte per address and a pointer is an address; the null pointer is
  address 0. Pointer comparisons of the sources (\<open>in < inend\<close>, \<open>out + 2 >= outend\<close>)
  are comparisons of addresses. Addresses do not wrap.
\<close>

type_synonym addr = nat
type_synonym mem = "addr \<Rightarrow> byte"

definition nullptr :: addr where
  "nullptr = 0"

definition SIZE_MAX :: size_t where
  "SIZE_MAX = - 1"

named_theorems slip_consts \<open>the protocol constants, unfolded to numerals\<close>
named_theorems slip_eval \<open>definitions to unfold when a model is run on a concrete input\<close>
named_theorems size_arith \<open>reading size_t arithmetic as natural-number arithmetic\<close>


section \<open>Index arithmetic on size_t\<close>

lemma unat_inc [size_arith]:
  fixes i n :: "'a::len word"
  assumes "i < n"
  shows "unat (i + 1) = Suc (unat i)"
proof -
  have "Suc (unat i) \<le> unat n"
    using assms by (simp add: word_less_nat_alt Suc_le_eq)
  also have "unat n < 2 ^ LENGTH('a)"
    by (rule unsigned_less)
  finally show ?thesis
    by (simp add: unat_word_ariths)
qed

lemma unat_dec [size_arith]:
  fixes n :: "'a::len word"
  assumes "n \<noteq> 0"
  shows "unat (n - 1) = unat n - 1"
  using assms by (simp add: unat_minus_one)

lemma unat_of_nat_size [size_arith]:
  "n < 2 ^ 64 \<Longrightarrow> unat (of_nat n :: size_t) = n"
  by (simp add: unat_of_nat)

lemma unat_size_less [simp]: "unat (n :: size_t) < 2 ^ 64"
  using unsigned_less [of n] by simp

lemma SIZE_MAX_eq [slip_eval]: "SIZE_MAX = 18446744073709551615"
  by (simp add: SIZE_MAX_def)

lemma unat_SIZE_MAX [size_arith]: "unat SIZE_MAX = 2 ^ 64 - 1"
  by (simp add: SIZE_MAX_eq)

lemma size_less_SIZE_MAX: "n \<noteq> SIZE_MAX \<Longrightarrow> unat n < 2 ^ 64 - 1"
  using unat_size_less [of n] unat_SIZE_MAX word_unat_eq_iff [of n SIZE_MAX]
  by simp

lemma measure_dec_size:
  fixes i n :: "'a::len word"
  assumes "i < n"
  shows "unat (n - (i + 1)) < unat (n - i)"
proof -
  have "unat (n - i) \<noteq> 0"
    using assms by (simp add: unat_eq_zero)
  moreover have "n - (i + 1) = (n - i) - 1"
    by simp
  ultimately show ?thesis
    by (metis diff_less less_one not_gr_zero unat_0 unat_dec)
qed


text \<open>
  The size of the next chunk in the loops that cut a buffer into chunks: a positive chunk
  size makes progress and the subtraction does not wrap.
\<close>

lemma chunk_word:
  assumes "j < length data" "length data < 2 ^ 64" "0 < k"
  defines "t \<equiv> min (unat k) (length data - j)"
  shows "(of_nat j :: size_t) < of_nat (length data)"
    and "unat (min k (of_nat (length data) - of_nat j :: size_t)) = t"
    and "0 < t"
proof -
  have u: "unat (of_nat j :: size_t) = j" "unat (of_nat (length data) :: size_t) = length data"
    using assms by (simp_all add: unat_of_nat_size)
  then show less: "(of_nat j :: size_t) < of_nat (length data)"
    using assms(1) by (simp add: word_less_nat_alt)
  have "unat (of_nat (length data) - of_nat j :: size_t) = length data - j"
    using u unat_sub [of "of_nat j :: size_t" "of_nat (length data)"] less by (simp add: less_imp_le)
  then show "unat (min k (of_nat (length data) - of_nat j :: size_t)) = t"
    by (simp add: t_def min_def word_le_nat_alt)
  show "0 < t"
    using assms(1,3) by (simp add: t_def word_less_nat_alt)
qed

lemma min_chunk_of_nat:
  assumes "j < length data" "length data < 2 ^ 64" "0 < k"
  shows "min k (of_nat (length data) - of_nat j :: size_t) = of_nat (min (unat k) (length data - j))"
  using chunk_word(2) [OF assms] assms(2) by (simp add: word_unat_eq_iff unat_of_nat_size)

text \<open>Induction along the chunks of a buffer, from the offset of a chunk to the next.\<close>

lemma chunk_induct [consumes 3, case_names finish chunk]:
  assumes "length data < 2 ^ 64" "0 < k" "j \<le> length data"
    and finish: "P (length data)"
    and chunk: "\<And>j t. j < length data \<Longrightarrow> t = min (unat k) (length data - j) \<Longrightarrow> 0 < t \<Longrightarrow> j + t \<le> length data \<Longrightarrow>
      (of_nat j :: size_t) < of_nat (length data) \<Longrightarrow> unat (of_nat j :: size_t) = j \<Longrightarrow>
      min k (of_nat (length data) - of_nat j :: size_t) = of_nat t \<Longrightarrow> unat (of_nat t :: size_t) = t \<Longrightarrow>
      P (j + t) \<Longrightarrow> P j"
  shows "P j"
  using assms(3)
proof (induction "length data - j" arbitrary: j rule: less_induct)
  case less
  show ?case
  proof (cases "j = length data")
    case True
    with finish show ?thesis by simp
  next
    case False
    with less.prems have j: "j < length data" by simp
    define t where "t = min (unat k) (length data - j)"
    note w = chunk_word [OF j assms(1,2), folded t_def] min_chunk_of_nat [OF j assms(1,2), folded t_def]
    have "P (j + t)"
      using less.hyps [of "j + t"] w(3) j by (simp add: t_def)
    moreover have "unat (of_nat t :: size_t) = t" "unat (of_nat j :: size_t) = j" "j + t \<le> length data"
      using j assms(1) by (auto simp: t_def unat_of_nat_size)
    ultimately show ?thesis
      using w j by (intro chunk [of j t]) (simp_all add: t_def)
  qed
qed

section \<open>Memory ranges\<close>

definition mem_range :: "mem \<Rightarrow> addr \<Rightarrow> nat \<Rightarrow> byte list" where
  "mem_range m p n = map m [p..<p + n]"

fun mem_write :: "mem \<Rightarrow> addr \<Rightarrow> byte list \<Rightarrow> mem" where
  "mem_write m p [] = m"
| "mem_write m p (b # bs) = mem_write (m(p := b)) (Suc p) bs"

lemma length_mem_range [simp]: "length (mem_range m p n) = n"
  by (simp add: mem_range_def)

lemma mem_range_0 [simp]: "mem_range m p 0 = []"
  by (simp add: mem_range_def)

lemma mem_range_Suc [slip_eval]: "mem_range m p (Suc n) = m p # mem_range m (Suc p) n"
proof -
  have "[p..<p + Suc n] = p # [Suc p..<Suc p + n]"
    by (simp add: upt_conv_Cons)
  then show ?thesis by (simp add: mem_range_def)
qed

lemma mem_range_numeral [slip_eval]:
  "mem_range m p (numeral k) = m p # mem_range m (Suc p) (pred_numeral k)"
  by (simp add: numeral_eq_Suc mem_range_Suc)

lemma nth_mem_range [simp]: "i < n \<Longrightarrow> mem_range m p n ! i = m (p + i)"
  by (simp add: mem_range_def)

lemma mem_range_cong:
  "(\<And>a. p \<le> a \<Longrightarrow> a < p + n \<Longrightarrow> m a = m' a) \<Longrightarrow> mem_range m p n = mem_range m' p n"
  by (simp add: mem_range_def)

lemma mem_range_add: "mem_range m p (i + j) = mem_range m p i @ mem_range m (p + i) j"
  by (induction i arbitrary: p) (simp_all add: mem_range_Suc)

lemma mem_range_upd_outside [simp]:
  "a < p \<or> p + n \<le> a \<Longrightarrow> mem_range (m(a := b)) p n = mem_range m p n"
  by (rule mem_range_cong) auto

lemma mem_range_conv_Cons:
  "p < e \<Longrightarrow> mem_range m p (e - p) = m p # mem_range m (Suc p) (e - Suc p)"
  by (metis Suc_diff_Suc mem_range_Suc)

lemma mem_write_outside:
  "a < p \<or> p + length bs \<le> a \<Longrightarrow> mem_write m p bs a = m a"
  by (induction bs arbitrary: m p) auto

lemma mem_write_append: "mem_write m p (xs @ ys) = mem_write (mem_write m p xs) (p + length xs) ys"
  by (induction xs arbitrary: m p) simp_all

lemma mem_range_mem_write [simp]: "mem_range (mem_write m p bs) p (length bs) = bs"
proof (induction bs arbitrary: m p)
  case Nil
  then show ?case by simp
next
  case (Cons b bs)
  then show ?case by (simp add: mem_range_Suc mem_write_outside)
qed

lemma mem_range_mem_write_length: "length bs = n \<Longrightarrow> mem_range (mem_write m p bs) p n = bs"
  using mem_range_mem_write by blast

lemma take_mem_range: "i \<le> n \<Longrightarrow> take i (mem_range m p n) = mem_range m p i"
  using mem_range_add [of m p i "n - i"] by simp

lemma mem_range_write_outside:
  "p + n \<le> q \<or> q + length bs \<le> p \<Longrightarrow> mem_range (mem_write m q bs) p n = mem_range m p n"
  by (rule mem_range_cong) (auto intro: mem_write_outside)


definition disjoint_ranges :: "addr \<Rightarrow> nat \<Rightarrow> addr \<Rightarrow> nat \<Rightarrow> bool" where
  "disjoint_ranges p n q k \<longleftrightarrow> p + n \<le> q \<or> q + k \<le> p"

section \<open>Interfaces of stateful components\<close>

text \<open>
  A component that consumes inputs one at a time offers an invariant that every step
  keeps. The consequences for whole runs are proved here once and obtained for each
  component by interpretation.
\<close>

locale preserving =
  fixes inv :: "'s \<Rightarrow> bool"
    and step :: "'s \<Rightarrow> 'i \<Rightarrow> 's"
  assumes step_inv: "inv s \<Longrightarrow> inv (step s x)"
begin

lemma run_inv: "inv s \<Longrightarrow> inv (foldl step s xs)"
  by (induction xs arbitrary: s) (simp_all add: step_inv)

end

text \<open>
  A step function that implements an abstract one through an abstraction function, in the
  states that satisfy the invariant: runs are simulated step by step.
\<close>

locale simulating = preserving inv step
  for inv :: "'s \<Rightarrow> bool" and step :: "'s \<Rightarrow> 'i \<Rightarrow> 's" +
  fixes abs :: "'s \<Rightarrow> 'a"
    and astep :: "'a \<Rightarrow> 'i \<Rightarrow> 'a"
  assumes step_sim: "inv s \<Longrightarrow> abs (step s x) = astep (abs s) x"
begin

lemma run_sim: "inv s \<Longrightarrow> abs (foldl step s xs) = foldl astep (abs s) xs"
  by (induction xs arbitrary: s) (simp_all add: step_sim step_inv)

end

end
