(* ===== verification/Slip_Error.thy ===== *)
theory Slip_Error
  imports Slip_Prelude
begin

text \<open>
  The error reporting layer: \<open>include/SLIPStream/Error.hpp\<close> and \<open>src/Error.cpp\<close>.
  \<open>ErrorCode\<close> is the enumeration with the numeric values of the source, \<open>ErrorInfo\<close>
  and \<open>Result\<close> are records with one definition per C++ constructor, and the two
  conversion functions work on the underlying \<open>uint8_t\<close> value, since a value of an
  enumeration with a fixed underlying type need not be one of its enumerators.
\<close>

section \<open>Error codes\<close>

datatype ErrorCode =
    Success
  | EncodeBufferTooSmall
  | EncodeInternalError
  | DecodeBufferTooSmall
  | DecodeNoEndMarker
  | DecodeInvalidEscapeSequence
  | DecodeTruncatedEscape
  | DecodeInternalError
  | RXBufferOverflow
  | UnknownError

fun error_code_value :: "ErrorCode \<Rightarrow> byte" where
  "error_code_value Success = 0"
| "error_code_value EncodeBufferTooSmall = 10"
| "error_code_value EncodeInternalError = 11"
| "error_code_value DecodeBufferTooSmall = 20"
| "error_code_value DecodeNoEndMarker = 21"
| "error_code_value DecodeInvalidEscapeSequence = 22"
| "error_code_value DecodeTruncatedEscape = 23"
| "error_code_value DecodeInternalError = 24"
| "error_code_value RXBufferOverflow = 30"
| "error_code_value UnknownError = 99"

lemma error_code_value_inj: "error_code_value c = error_code_value d \<longleftrightarrow> c = d"
  by (cases c; cases d) simp_all

text \<open>Enumerators compare by their underlying value, as \<open>enum class\<close> does.\<close>

instantiation ErrorCode :: linorder
begin

definition less_eq_ErrorCode :: "ErrorCode \<Rightarrow> ErrorCode \<Rightarrow> bool" where
  "c \<le> d \<longleftrightarrow> error_code_value c \<le> error_code_value d"

definition less_ErrorCode :: "ErrorCode \<Rightarrow> ErrorCode \<Rightarrow> bool" where
  "c < d \<longleftrightarrow> error_code_value c < error_code_value d"

instance
  by standard
    (auto simp: less_eq_ErrorCode_def less_ErrorCode_def error_code_value_inj
          dest: antisym)

end

section \<open>Error information and results\<close>

record ErrorInfo =
  code :: ErrorCode
  position :: size_t
  message :: string

definition mk_ErrorInfo :: "ErrorCode \<Rightarrow> size_t \<Rightarrow> string \<Rightarrow> ErrorInfo" where
  "mk_ErrorInfo c pos msg = \<lparr>code = c, position = pos, message = msg\<rparr>"

text \<open>The default constructor, and the one-argument call with its default arguments.\<close>

definition default_ErrorInfo :: ErrorInfo where
  "default_ErrorInfo = \<lparr>code = Success, position = 0, message = ''Success''\<rparr>"

definition ErrorInfo_of_code :: "ErrorCode \<Rightarrow> ErrorInfo" where
  "ErrorInfo_of_code c = mk_ErrorInfo c 0 ''''"

definition ErrorInfo_is_success :: "ErrorInfo \<Rightarrow> bool" where
  "ErrorInfo_is_success e \<longleftrightarrow> code e = Success"

definition ErrorInfo_is_error :: "ErrorInfo \<Rightarrow> bool" where
  "ErrorInfo_is_error e \<longleftrightarrow> code e \<noteq> Success"

text \<open>
  \<open>Result<T>\<close>. The value stored on an error is \<open>T()\<close>, which the specialisation for
  \<open>size_t\<close> writes as 0; the model covers both through the numeric zero.
\<close>

record 'a Result =
  val :: 'a
  error :: ErrorInfo

definition Result_ok :: "'a \<Rightarrow> 'a Result" where
  "Result_ok v = \<lparr>val = v, error = ErrorInfo_of_code Success\<rparr>"

definition Result_err :: "ErrorCode \<Rightarrow> size_t \<Rightarrow> string \<Rightarrow> 'a::zero Result" where
  "Result_err c pos msg = \<lparr>val = 0, error = mk_ErrorInfo c pos msg\<rparr>"

definition Result_is_success :: "'a Result \<Rightarrow> bool" where
  "Result_is_success r \<longleftrightarrow> ErrorInfo_is_success (error r)"

definition Result_is_error :: "'a Result \<Rightarrow> bool" where
  "Result_is_error r \<longleftrightarrow> ErrorInfo_is_error (error r)"

lemmas error_defs =
  mk_ErrorInfo_def ErrorInfo_of_code_def default_ErrorInfo_def
  ErrorInfo_is_success_def ErrorInfo_is_error_def
  Result_ok_def Result_err_def Result_is_success_def Result_is_error_def

declare error_defs [slip_eval]

section \<open>Conversion to text\<close>










end
