(* ===== verification/Slip_Spec.thy ===== *)
theory Slip_Spec
  imports Slip_Error
begin

text \<open>
  The special bytes of \<open>include/SLIPStream/SLIP.hpp\<close> and the reference semantics of the
  framing (RFC 1055 with a trailing END only), on byte lists: escaping, the frame of a
  payload, decoding up to the first END with the reason of a failure, and the
  stream automaton that cuts a byte stream into messages. The components are proved
  equal to these definitions.
\<close>

section \<open>Special bytes\<close>

definition END :: byte where [slip_consts]: "END = 0xC0"
definition ESC :: byte where [slip_consts]: "ESC = 0xDB"
definition ESCEND :: byte where [slip_consts]: "ESCEND = 0xDC"
definition ESCESC :: byte where [slip_consts]: "ESCESC = 0xDD"

lemma special_distinct [simp]:
  "END \<noteq> ESC" "ESC \<noteq> END" "END \<noteq> ESCEND" "ESCEND \<noteq> END" "END \<noteq> ESCESC" "ESCESC \<noteq> END"
  "ESC \<noteq> ESCEND" "ESCEND \<noteq> ESC" "ESC \<noteq> ESCESC" "ESCESC \<noteq> ESC" "ESCEND \<noteq> ESCESC" "ESCESC \<noteq> ESCEND"
  by (simp_all add: slip_consts)

section \<open>Encoding\<close>

definition slip_escape :: "byte \<Rightarrow> byte list" where
  "slip_escape b = (if b = END then [ESC, ESCEND] else if b = ESC then [ESC, ESCESC] else [b])"

definition slip_body :: "byte list \<Rightarrow> byte list" where
  "slip_body xs = concat (map slip_escape xs)"

definition slip_encode :: "byte list \<Rightarrow> byte list" where
  "slip_encode xs = slip_body xs @ [END]"

lemma slip_body_Nil [simp]: "slip_body [] = []"
  by (simp add: slip_body_def)

lemma slip_body_Cons [simp]: "slip_body (x # xs) = slip_escape x @ slip_body xs"
  by (simp add: slip_body_def)

lemma slip_body_append [simp]: "slip_body (xs @ ys) = slip_body xs @ slip_body ys"
  by (simp add: slip_body_def)

lemma length_slip_escape: "length (slip_escape b) = (if b = END \<or> b = ESC then 2 else 1)"
  by (simp add: slip_escape_def)

lemma length_slip_body_ge: "length xs \<le> length (slip_body xs)"
  by (induction xs) (simp_all add: length_slip_escape)

lemma length_slip_body_le: "length (slip_body xs) \<le> 2 * length xs"
  by (induction xs) (simp_all add: length_slip_escape)

lemma length_slip_encode [simp]: "length (slip_encode xs) = Suc (length (slip_body xs))"
  by (simp add: slip_encode_def)

lemma END_not_in_escape: "END \<notin> set (slip_escape b)"
  by (simp add: slip_escape_def)

lemma END_not_in_body: "END \<notin> set (slip_body xs)"
  by (induction xs) (simp_all add: END_not_in_escape)

section \<open>Decoding up to the first END\<close>

text \<open>
  Scanning a buffer yields the bytes decoded before the scan stops and the reason it
  stops: \<open>Success\<close> at an END, otherwise the error of the offending position.
\<close>

fun slip_scan :: "byte list \<Rightarrow> byte list \<times> ErrorCode" where
  "slip_scan [] = ([], DecodeNoEndMarker)"
| "slip_scan (c # cs) =
     (if c = END then ([], Success)
      else if c = ESC then
        (case cs of
           [] \<Rightarrow> ([], DecodeTruncatedEscape)
         | n # ns \<Rightarrow>
             if n = ESCEND then apfst (Cons END) (slip_scan ns)
             else if n = ESCESC then apfst (Cons ESC) (slip_scan ns)
             else ([], DecodeInvalidEscapeSequence))
      else apfst (Cons c) (slip_scan cs))"

definition slip_decode :: "byte list \<Rightarrow> ErrorCode + byte list" where
  "slip_decode ys = (case slip_scan ys of (xs, st) \<Rightarrow> if st = Success then Inr xs else Inl st)"

lemma slip_scan_body: "slip_scan (slip_body xs @ ys) = apfst ((@) xs) (slip_scan ys)"
  by (induction xs) (simp_all add: slip_escape_def apfst_def map_prod_def split_def)

lemma slip_decode_body: "slip_decode (slip_body xs @ END # rest) = Inr xs"
  by (simp add: slip_decode_def slip_scan_body)

lemma slip_decode_body_unterminated: "slip_decode (slip_body xs) = Inl DecodeNoEndMarker"
  using slip_scan_body [of xs "[]"] by (simp add: slip_decode_def)

text \<open>
  Scanning is also the inverse on the other side: the bytes read before the scan stops
  are the escaped form of the bytes decoded. So every payload has one frame.
\<close>

lemma slip_scan_frame:
  "slip_scan ys = (xs, Success) \<Longrightarrow> \<exists>rest. ys = slip_encode xs @ rest"
proof (induction ys arbitrary: xs rule: slip_scan.induct)
  case 1
  then show ?case by simp
next
  case (2 c cs)
  consider "c = END" | "c = ESC" | "c \<noteq> END" "c \<noteq> ESC" by blast
  then show ?case
  proof cases
    case 1
    with 2 show ?thesis by (auto simp: slip_encode_def)
  next
    case c: 2
    with "2.prems" obtain n ns where cs: "cs = n # ns" "n = ESCEND \<or> n = ESCESC"
      by (auto split: list.splits if_splits)
    with c 2 show ?thesis
      by (cases "slip_scan ns") (fastforce simp: slip_encode_def slip_escape_def)
  next
    case 3
    with 2 show ?thesis
      by (cases "slip_scan cs") (fastforce simp: slip_encode_def slip_escape_def)
  qed
qed

lemma slip_decode_Inr_frame:
  "slip_decode ys = Inr xs \<Longrightarrow> \<exists>rest. ys = slip_encode xs @ rest"
  by (rule slip_scan_frame) (simp add: slip_decode_def split: prod.splits if_splits)

lemma length_slip_scan:
  "length (fst (slip_scan ys)) + (if snd (slip_scan ys) = DecodeNoEndMarker then 0 else 1) \<le> length ys"
proof (induction ys rule: slip_scan.induct)
  case 1
  then show ?case by simp
next
  case (2 c cs)
  show ?case
  proof (cases cs)
    case Nil
    then show ?thesis by simp
  next
    case (Cons n ns)
    with 2 show ?thesis by (auto simp del: slip_scan.simps simp: slip_scan.simps(2) [of c "n # ns"])
  qed
qed

lemma slip_scan_status:
  "snd (slip_scan ys) \<in>
     {Success, DecodeNoEndMarker, DecodeTruncatedEscape, DecodeInvalidEscapeSequence}"
proof (induction ys rule: slip_scan.induct)
  case 1
  then show ?case by simp
next
  case (2 c cs)
  then show ?case by (cases cs) auto
qed

section \<open>The codec interface\<close>

text \<open>
  What the rest of the development uses of the framing: a frame decodes to its payload
  whatever follows it, and decoding succeeds only on frames. Self-delimiting frames,
  injectivity and the decoding of a stream of frames follow.
\<close>

locale codec =
  fixes enc :: "'p \<Rightarrow> 'b list"
    and dec :: "'b list \<Rightarrow> 'e + 'p"
  assumes dec_enc: "dec (enc x @ rest) = Inr x"
    and dec_Inr: "dec ys = Inr x \<Longrightarrow> \<exists>rest. ys = enc x @ rest"
begin

lemma enc_inject: "enc x @ r = enc y @ s \<Longrightarrow> x = y \<and> r = s"
  using dec_enc [of x r] dec_enc [of y s] by simp

lemma enc_eq_iff: "enc x = enc y \<longleftrightarrow> x = y"
  using enc_inject [of x "[]" y "[]"] by auto

lemma dec_Inr_iff: "dec ys = Inr x \<longleftrightarrow> (\<exists>rest. ys = enc x @ rest)"
  using dec_enc dec_Inr by blast

lemma concat_enc_inject:
  assumes "\<And>x. enc x \<noteq> []" and "concat (map enc xs) = concat (map enc ys)"
  shows "xs = ys"
  using assms(2)
proof (induction xs arbitrary: ys)
  case Nil
  then show ?case using assms(1) by (cases ys) auto
next
  case (Cons x xs)
  then obtain y ys' where ys: "ys = y # ys'"
    using assms(1) by (cases ys) auto
  with Cons.prems have "x = y \<and> concat (map enc xs) = concat (map enc ys')"
    using enc_inject by simp
  with Cons.IH ys show ?case by simp
qed

end

interpretation slip: codec slip_encode slip_decode
proof unfold_locales
  show "slip_decode (slip_encode xs @ rest) = Inr xs" for xs rest
    by (simp add: slip_encode_def slip_decode_body)
qed (rule slip_decode_Inr_frame)

section \<open>The stream automaton\<close>

text \<open>
  A receiver that cuts a stream into messages: the payload bytes of the current frame,
  whether an ESC is pending, and the messages completed so far. A byte after ESC that
  is neither ESCEND nor ESCESC drops what was collected.
\<close>

record rx =
  rx_esc :: bool
  rx_acc :: "byte list"
  rx_out :: "byte list list"

definition rx_step :: "rx \<Rightarrow> byte \<Rightarrow> rx" where
  "rx_step r c =
     (if rx_esc r then
        (if c = ESCEND then r\<lparr>rx_esc := False, rx_acc := rx_acc r @ [END]\<rparr>
         else if c = ESCESC then r\<lparr>rx_esc := False, rx_acc := rx_acc r @ [ESC]\<rparr>
         else r\<lparr>rx_esc := False, rx_acc := []\<rparr>)
      else if c = END then r\<lparr>rx_acc := [], rx_out := rx_out r @ [rx_acc r]\<rparr>
      else if c = ESC then r\<lparr>rx_esc := True\<rparr>
      else r\<lparr>rx_acc := rx_acc r @ [c]\<rparr>)"

section \<open>The automaton with a bounded buffer\<close>

text \<open>
  A receiver with room for \<open>cap\<close> bytes gives up the bytes collected so far (and a pending
  escape) when fewer than two places are left at the arrival of a byte. Either the
  arriving byte is processed afterwards (\<open>rx_step_cap\<close>) or it is lost as well
  (\<open>rx_step_drop\<close>).
\<close>

definition rx_full :: "nat \<Rightarrow> rx \<Rightarrow> bool" where
  "rx_full cap r \<longleftrightarrow> cap < length (rx_acc r) + 2"

definition rx_clear :: "rx \<Rightarrow> rx" where
  "rx_clear r = r\<lparr>rx_esc := False, rx_acc := []\<rparr>"

definition rx_step_cap :: "nat \<Rightarrow> rx \<Rightarrow> byte \<Rightarrow> rx" where
  "rx_step_cap cap r c = rx_step (if rx_full cap r then rx_clear r else r) c"

definition rx_step_drop :: "nat \<Rightarrow> rx \<Rightarrow> byte \<Rightarrow> rx" where
  "rx_step_drop cap r c = (if rx_full cap r then rx_clear r else rx_step r c)"

definition rx_idle :: "rx \<Rightarrow> bool" where
  "rx_idle r \<longleftrightarrow> \<not> rx_esc r \<and> rx_acc r = []"

lemma rx_step_END_idle: "rx_idle (rx_step r END)"
  by (simp add: rx_idle_def rx_step_def)

text \<open>
  What the bounded buffer holds after the escaped form of a payload: with room for
  \<open>w = cap - 1\<close> bytes, whenever they are used up the next payload byte starts afresh.
\<close>

definition rx_kept :: "nat \<Rightarrow> byte list \<Rightarrow> byte list" where
  "rx_kept w xs = drop ((length xs - 1) div w * w) xs"

lemma length_rx_kept:
  assumes "0 < w" shows "length (rx_kept w xs) \<le> w"
proof (cases xs)
  case Nil
  then show ?thesis by (simp add: rx_kept_def)
next
  case (Cons y ys)
  have "length ys div w * w + length ys mod w = length ys" and "length ys mod w < w"
    using assms by simp_all
  then have "Suc (length ys) - length ys div w * w \<le> w" by linarith
  with Cons show ?thesis by (simp add: rx_kept_def)
qed

lemma rx_kept_snoc:
  assumes "0 < w"
  shows "rx_kept w (xs @ [x]) = (if length (rx_kept w xs) < w then rx_kept w xs @ [x] else [x])"
proof (cases "xs = []")
  case True
  with assms show ?thesis by (simp add: rx_kept_def)
next
  case False
  define n where "n = length xs - 1"
  with False have xs: "length xs = Suc n" by simp
  have split: "n div w * w + n mod w = n" and "n mod w < w"
    using assms by simp_all
  have "Suc n - n div w * w = Suc (n mod w)"
    using split by linarith
  then have kept: "length (rx_kept w xs) = Suc (n mod w)"
    by (simp add: rx_kept_def xs)
  show ?thesis
  proof (cases "Suc (n mod w) < w")
    case True
    then have "Suc n mod w = Suc (n mod w)"
      by (simp add: mod_Suc)
    then have "Suc n div w = n div w"
      using True by (simp add: div_Suc)
    moreover have "n div w * w \<le> length xs"
      using split xs by linarith
    ultimately show ?thesis
      using True kept by (simp add: rx_kept_def xs)
  next
    case f: False
    with \<open>n mod w < w\<close> have "Suc (n mod w) = w" by simp
    then have "Suc n mod w = 0" by (simp add: mod_Suc)
    then have "Suc n div w * w = Suc n"
      using div_mult_mod_eq [of "Suc n" w] by simp
    with f kept show ?thesis by (simp add: rx_kept_def xs)
  qed
qed

lemma rx_cap_run_escape:
  assumes "\<not> rx_esc r" "2 \<le> cap"
  shows "foldl (rx_step_cap cap) r (slip_escape b) =
    r\<lparr>rx_acc := (if rx_full cap r then [b] else rx_acc r @ [b])\<rparr>"
  using assms by (cases r) (auto simp: slip_escape_def rx_step_cap_def rx_full_def rx_clear_def rx_step_def)

lemma rx_cap_run_body:
  assumes "rx_idle r" "2 \<le> cap"
  shows "foldl (rx_step_cap cap) r (slip_body xs) = r\<lparr>rx_acc := rx_kept (cap - 1) xs\<rparr>"
proof (induction xs rule: rev_induct)
  case Nil
  with assms show ?case by (cases r) (simp add: rx_kept_def rx_idle_def)
next
  case (snoc x xs)
  have "length (rx_kept (cap - 1) xs) < cap - 1 \<longleftrightarrow> \<not> rx_full cap (r\<lparr>rx_acc := rx_kept (cap - 1) xs\<rparr>)"
    using assms(2) by (auto simp: rx_full_def)
  with snoc assms show ?case
    by (simp add: rx_cap_run_escape rx_kept_snoc rx_idle_def)
qed

lemma rx_kept_final:
  assumes "0 < w"
  shows "(if length (rx_kept w xs) < w then rx_kept w xs else []) = drop (length xs div w * w) xs"
  using rx_kept_snoc [OF assms, of xs 0]
  by (simp add: rx_kept_def split: if_splits)

lemma rx_cap_run_frame:
  assumes "rx_idle r" "2 \<le> cap"
  shows "foldl (rx_step_cap cap) r (slip_encode xs) =
    r\<lparr>rx_out := rx_out r @ [drop (length xs div (cap - 1) * (cap - 1)) xs]\<rparr>"
proof -
  define w where "w = cap - 1"
  have full: "rx_full cap (r\<lparr>rx_acc := rx_kept w xs\<rparr>) \<longleftrightarrow> \<not> length (rx_kept w xs) < w"
    using assms(2) by (auto simp: rx_full_def w_def)
  have "foldl (rx_step_cap cap) r (slip_encode xs) =
    r\<lparr>rx_out := rx_out r @ [if length (rx_kept w xs) < w then rx_kept w xs else []]\<rparr>"
    using assms(1) full rx_cap_run_body [OF assms, of xs, folded w_def]
    by (cases r) (simp add: slip_encode_def rx_step_cap_def rx_step_def rx_clear_def rx_idle_def)
  then show ?thesis
    using rx_kept_final [of w xs] assms(2) by (simp add: w_def)
qed

lemma rx_cap_run_frames:
  assumes "rx_idle r" "\<And>f. f \<in> set fs \<Longrightarrow> length f + 2 \<le> cap"
  shows "foldl (rx_step_cap cap) r (concat (map slip_encode fs)) = r\<lparr>rx_out := rx_out r @ fs\<rparr>"
  using assms
proof (induction fs arbitrary: r)
  case Nil
  then show ?case by simp
next
  case (Cons f fs)
  have f: "length f + 2 \<le> cap" using Cons.prems by simp
  then have "length f div (cap - 1) = 0" "2 \<le> cap" by auto
  then have "foldl (rx_step_cap cap) r (slip_encode f) = r\<lparr>rx_out := rx_out r @ [f]\<rparr>"
    using Cons.prems by (simp add: rx_cap_run_frame)
  moreover have "rx_idle (r\<lparr>rx_out := rx_out r @ [f]\<rparr>)"
    using Cons.prems(1) by (simp add: rx_idle_def)
  ultimately show ?case
    using Cons.IH [of "r\<lparr>rx_out := rx_out r @ [f]\<rparr>"] Cons.prems(2) by (cases r) simp
qed

end
