(* ===== verification/Slip_Buffer.thy ===== *)
theory Slip_Buffer
  imports Slip_Spec
begin

text \<open>
  The buffer API of \<open>src/Buffer.cpp\<close>: \<open>encoded_length\<close>, \<open>encode_packet\<close>,
  \<open>decoded_length\<close>, \<open>decode_packet\<close> and their \<open>_ex\<close> variants, as pointer loops over
  one memory, so that overlapping input and output buffers are covered. Each loop is
  a recursive function on the moving pointers; a function that writes returns the
  memory it leaves behind on every path, errors included.
\<close>

section \<open>Encoding: definitions\<close>

definition ENCODE_ERROR :: size_t where
  [slip_eval]: "ENCODE_ERROR = SIZE_MAX"

definition DECODE_ERROR :: size_t where
  [slip_eval]: "DECODE_ERROR = SIZE_MAX"

function encoded_length_loop :: "mem \<Rightarrow> addr \<Rightarrow> addr \<Rightarrow> size_t \<Rightarrow> size_t" where
  "encoded_length_loop m inp inend outlen =
     (if inp < inend then
        encoded_length_loop m (inp + 1) inend
          (if m inp = END \<or> m inp = ESC then outlen + 2 else outlen + 1)
      else outlen)"
  by pat_completeness auto
termination
  by (relation "measure (\<lambda>(m, inp, inend, outlen). inend - inp)") auto

definition encoded_length :: "mem \<Rightarrow> addr \<Rightarrow> size_t \<Rightarrow> size_t" where
  "encoded_length m inp inlen = encoded_length_loop m inp (inp + unat inlen) 0 + 1"

definition encoded_length_ex :: "mem \<Rightarrow> addr \<Rightarrow> size_t \<Rightarrow> size_t Result" where
  "encoded_length_ex m inp inlen =
     Result_ok (encoded_length_loop m inp (inp + unat inlen) 0 + 1)"

text \<open>
  The loop of \<open>encode_packet\<close>: \<open>None\<close> is the early return of \<open>ENCODE_ERROR\<close>,
  \<open>Some out\<close> the output pointer after the last input byte.
\<close>

function encode_packet_loop :: "mem \<Rightarrow> addr \<Rightarrow> addr \<Rightarrow> addr \<Rightarrow> addr \<Rightarrow> mem \<times> addr option" where
  "encode_packet_loop m inp inend out outend =
     (if inp < inend then
        (if m inp = END then
           (if out + 2 \<ge> outend then (m, None)
            else encode_packet_loop (m(out := ESC, out + 1 := ESCEND)) (inp + 1) inend (out + 2) outend)
         else if m inp = ESC then
           (if out + 2 \<ge> outend then (m, None)
            else encode_packet_loop (m(out := ESC, out + 1 := ESCESC)) (inp + 1) inend (out + 2) outend)
         else
           (if out + 1 \<ge> outend then (m, None)
            else encode_packet_loop (m(out := m inp)) (inp + 1) inend (out + 1) outend))
      else (m, Some out))"
  by pat_completeness auto
termination
  by (relation "measure (\<lambda>(m, inp, inend, out, outend). inend - inp)") auto

definition encode_packet :: "mem \<Rightarrow> addr \<Rightarrow> size_t \<Rightarrow> addr \<Rightarrow> size_t \<Rightarrow> mem \<times> size_t" where
  "encode_packet m inp inlen out outlen =
     (if outlen < inlen then (m, ENCODE_ERROR)
      else
        let outend = out + unat outlen; inend = inp + unat inlen
        in case encode_packet_loop m inp inend out outend of
             (m', None) \<Rightarrow> (m', ENCODE_ERROR)
           | (m', Some out') \<Rightarrow>
               if out' + 1 > outend then (m', ENCODE_ERROR)
               else (m'(out' := END), of_nat (out' + 1 - out)))"

function encode_packet_ex_loop ::
    "mem \<Rightarrow> addr \<Rightarrow> addr \<Rightarrow> addr \<Rightarrow> addr \<Rightarrow> size_t \<Rightarrow> mem \<times> (size_t Result + addr \<times> size_t)" where
  "encode_packet_ex_loop m inp inend out outend pos =
     (if inp < inend then
        (if m inp = END then
           (if out + 2 \<ge> outend then
              (m, Inl (Result_err EncodeBufferTooSmall pos ''Output buffer too small for escaped END''))
            else encode_packet_ex_loop (m(out := ESC, out + 1 := ESCEND)) (inp + 1) inend
                   (out + 2) outend (pos + 1))
         else if m inp = ESC then
           (if out + 2 \<ge> outend then
              (m, Inl (Result_err EncodeBufferTooSmall pos ''Output buffer too small for escaped ESC''))
            else encode_packet_ex_loop (m(out := ESC, out + 1 := ESCESC)) (inp + 1) inend
                   (out + 2) outend (pos + 1))
         else
           (if out + 1 \<ge> outend then
              (m, Inl (Result_err EncodeBufferTooSmall pos ''Output buffer too small for data byte''))
            else encode_packet_ex_loop (m(out := m inp)) (inp + 1) inend
                   (out + 1) outend (pos + 1)))
      else (m, Inr (out, pos)))"
  by pat_completeness auto
termination
  by (relation "measure (\<lambda>(m, inp, inend, out, outend, pos). inend - inp)") auto

definition encode_packet_ex ::
    "mem \<Rightarrow> addr \<Rightarrow> size_t \<Rightarrow> addr \<Rightarrow> size_t \<Rightarrow> mem \<times> size_t Result" where
  "encode_packet_ex m inp inlen out outlen =
     (if outlen < inlen then
        (m, Result_err EncodeBufferTooSmall 0 ''Output buffer too small'')
      else
        let outend = out + unat outlen; inend = inp + unat inlen
        in case encode_packet_ex_loop m inp inend out outend 0 of
             (m', Inl r) \<Rightarrow> (m', r)
           | (m', Inr (out', pos)) \<Rightarrow>
               if out' + 1 > outend then
                 (m', Result_err EncodeBufferTooSmall pos ''Output buffer too small for END byte'')
               else (m'(out' := END), Result_ok (of_nat (out' + 1 - out))))"

section \<open>Decoding: definitions\<close>

text \<open>
  The scan of \<open>decoded_length\<close>: \<open>None\<close> is the early return of \<open>DECODE_ERROR\<close>, otherwise
  the pair of \<open>saw_end\<close> and \<open>outlen\<close> when the loop is left.
\<close>

function decoded_length_loop :: "mem \<Rightarrow> addr \<Rightarrow> addr \<Rightarrow> size_t \<Rightarrow> (bool \<times> size_t) option" where
  "decoded_length_loop m p pend outlen =
     (if p < pend then
        (if m p = END then Some (True, outlen)
         else if m p = ESC then
           (if p + 1 \<ge> pend then None
            else if m (p + 1) = ESCEND \<or> m (p + 1) = ESCESC then
              decoded_length_loop m (p + 2) pend (outlen + 1)
            else None)
         else decoded_length_loop m (p + 1) pend (outlen + 1))
      else Some (False, outlen))"
  by pat_completeness auto
termination
  by (relation "measure (\<lambda>(m, p, pend, outlen). pend - p)") auto

definition decoded_length :: "mem \<Rightarrow> addr \<Rightarrow> size_t \<Rightarrow> size_t" where
  "decoded_length m inp inlen =
     (case decoded_length_loop m inp (inp + unat inlen) 0 of
        None \<Rightarrow> DECODE_ERROR
      | Some (saw_end, outlen) \<Rightarrow> if \<not> saw_end then DECODE_ERROR else outlen)"

function decoded_length_ex_loop ::
    "mem \<Rightarrow> addr \<Rightarrow> addr \<Rightarrow> size_t \<Rightarrow> size_t \<Rightarrow> size_t Result + bool \<times> size_t \<times> size_t" where
  "decoded_length_ex_loop m p pend outlen pos =
     (if p < pend then
        (if m p = END then Inr (True, outlen, pos)
         else if m p = ESC then
           (if p + 1 \<ge> pend then
              Inl (Result_err DecodeTruncatedEscape pos ''Truncated escape sequence at end of input'')
            else if m (p + 1) = ESCEND \<or> m (p + 1) = ESCESC then
              decoded_length_ex_loop m (p + 2) pend (outlen + 1) (pos + 1)
            else
              Inl (Result_err DecodeInvalidEscapeSequence pos
                ''Invalid escape sequence: ESC not followed by ESCEND or ESCESC''))
         else decoded_length_ex_loop m (p + 1) pend (outlen + 1) (pos + 1))
      else Inr (False, outlen, pos))"
  by pat_completeness auto
termination
  by (relation "measure (\<lambda>(m, p, pend, outlen, pos). pend - p)") auto

definition decoded_length_ex :: "mem \<Rightarrow> addr \<Rightarrow> size_t \<Rightarrow> size_t Result" where
  "decoded_length_ex m inp inlen =
     (case decoded_length_ex_loop m inp (inp + unat inlen) 0 0 of
        Inl r \<Rightarrow> r
      | Inr (saw_end, outlen, pos) \<Rightarrow>
          if \<not> saw_end then
            Result_err DecodeNoEndMarker pos ''No END marker (0xC0) found in input data''
          else Result_ok outlen)"

text \<open>
  The loop of \<open>decode_packet\<close> reads through \<open>p\<close> and writes through \<open>w\<close>; it is left with
  \<open>saw_end\<close> and the write pointer, or by an early return (\<open>None\<close>).
\<close>

function decode_packet_loop ::
    "mem \<Rightarrow> addr \<Rightarrow> addr \<Rightarrow> addr \<Rightarrow> addr \<Rightarrow> mem \<times> (bool \<times> addr) option" where
  "decode_packet_loop m p pend w wend =
     (if p < pend then
        (if m p = END then (m, Some (True, w))
         else if m p = ESC then
           (if p + 1 \<ge> pend then (m, None)
            else if m (p + 1) = ESCEND then
              (if w \<ge> wend then (m, None)
               else decode_packet_loop (m(w := END)) (p + 2) pend (w + 1) wend)
            else if m (p + 1) = ESCESC then
              (if w \<ge> wend then (m, None)
               else decode_packet_loop (m(w := ESC)) (p + 2) pend (w + 1) wend)
            else (m, None))
         else
           (if w \<ge> wend then (m, None)
            else decode_packet_loop (m(w := m p)) (p + 1) pend (w + 1) wend))
      else (m, Some (False, w)))"
  by pat_completeness auto
termination
  by (relation "measure (\<lambda>(m, p, pend, w, wend). pend - p)") auto

definition decode_packet :: "mem \<Rightarrow> addr \<Rightarrow> size_t \<Rightarrow> addr \<Rightarrow> size_t \<Rightarrow> mem \<times> size_t" where
  "decode_packet m inp inlen out outlen =
     (case decode_packet_loop m inp (inp + unat inlen) out (out + unat outlen) of
        (m', None) \<Rightarrow> (m', DECODE_ERROR)
      | (m', Some (saw_end, w)) \<Rightarrow>
          if \<not> saw_end then (m', DECODE_ERROR) else (m', of_nat (w - out)))"

function decode_packet_ex_loop ::
    "mem \<Rightarrow> addr \<Rightarrow> addr \<Rightarrow> addr \<Rightarrow> addr \<Rightarrow> size_t \<Rightarrow>
     mem \<times> (size_t Result + bool \<times> addr \<times> size_t)" where
  "decode_packet_ex_loop m p pend w wend pos =
     (if p < pend then
        (if m p = END then (m, Inr (True, w, pos))
         else if m p = ESC then
           (if p + 1 \<ge> pend then
              (m, Inl (Result_err DecodeTruncatedEscape pos ''Truncated escape sequence at end of input''))
            else if m (p + 1) = ESCEND then
              (if w \<ge> wend then
                 (m, Inl (Result_err DecodeBufferTooSmall pos ''Output buffer too small for decoded data''))
               else decode_packet_ex_loop (m(w := END)) (p + 2) pend (w + 1) wend (pos + 1))
            else if m (p + 1) = ESCESC then
              (if w \<ge> wend then
                 (m, Inl (Result_err DecodeBufferTooSmall pos ''Output buffer too small for decoded data''))
               else decode_packet_ex_loop (m(w := ESC)) (p + 2) pend (w + 1) wend (pos + 1))
            else
              (m, Inl (Result_err DecodeInvalidEscapeSequence pos
                 ''Invalid escape sequence: ESC not followed by ESCEND or ESCESC'')))
         else
           (if w \<ge> wend then
              (m, Inl (Result_err DecodeBufferTooSmall pos ''Output buffer too small for data byte''))
            else decode_packet_ex_loop (m(w := m p)) (p + 1) pend (w + 1) wend (pos + 1)))
      else (m, Inr (False, w, pos)))"
  by pat_completeness auto
termination
  by (relation "measure (\<lambda>(m, p, pend, w, wend, pos). pend - p)") auto

definition decode_packet_ex ::
    "mem \<Rightarrow> addr \<Rightarrow> size_t \<Rightarrow> addr \<Rightarrow> size_t \<Rightarrow> mem \<times> size_t Result" where
  "decode_packet_ex m inp inlen out outlen =
     (case decode_packet_ex_loop m inp (inp + unat inlen) out (out + unat outlen) 0 of
        (m', Inl r) \<Rightarrow> (m', r)
      | (m', Inr (saw_end, w, pos)) \<Rightarrow>
          if \<not> saw_end then
            (m', Result_err DecodeNoEndMarker pos ''No END terminator found in input data'')
          else (m', Result_ok (of_nat (w - out))))"

declare encoded_length_loop.simps [simp del] encode_packet_loop.simps [simp del]
  encode_packet_ex_loop.simps [simp del] decoded_length_loop.simps [simp del]
  decoded_length_ex_loop.simps [simp del] decode_packet_loop.simps [simp del]
  decode_packet_ex_loop.simps [simp del]

lemmas buffer_defs =
  encoded_length_def encoded_length_ex_def encode_packet_def encode_packet_ex_def
  decoded_length_def decoded_length_ex_def decode_packet_def decode_packet_ex_def

lemmas buffer_loops =
  encoded_length_loop.simps encode_packet_loop.simps encode_packet_ex_loop.simps
  decoded_length_loop.simps decoded_length_ex_loop.simps decode_packet_loop.simps
  decode_packet_ex_loop.simps

section \<open>Encoding: correctness\<close>

lemma encoded_length_loop_eq:
  "encoded_length_loop m p (p + n) k = k + of_nat (length (slip_body (mem_range m p n)))"
proof (induction n arbitrary: p k)
  case 0
  then show ?case by (simp add: encoded_length_loop.simps)
next
  case (Suc n)
  then show ?case
    using Suc.IH [of "Suc p"]
    by (simp add: encoded_length_loop.simps [of m p] mem_range_Suc length_slip_escape)
qed

lemma encoded_length_eq:
  "encoded_length m inp inlen = of_nat (length (slip_encode (mem_range m inp (unat inlen))))"
  by (simp add: encoded_length_def encoded_length_loop_eq)

text \<open>Both branches of the escaping and the plain copy write the escaped byte at \<open>out\<close>.\<close>

lemma encode_packet_loop_0: "encode_packet_loop m p p out outend = (m, Some out)"
  by (simp add: encode_packet_loop.simps)

lemma encode_packet_loop_Suc:
  "encode_packet_loop m p (Suc (p + n)) out outend =
     (if outend \<le> out + length (slip_escape (m p)) then (m, None)
      else encode_packet_loop (mem_write m out (slip_escape (m p))) (Suc p) (Suc (p + n))
             (out + length (slip_escape (m p))) outend)"
  by (simp add: encode_packet_loop.simps [of m p] slip_escape_def)

lemma encode_packet_loop_frame:
  "a < out \<or> outend \<le> a \<Longrightarrow> fst (encode_packet_loop m p (p + n) out outend) a = m a"
proof (induction n arbitrary: m p out)
  case 0
  then show ?case by (simp add: encode_packet_loop_0)
next
  case (Suc n)
  let ?e = "slip_escape (m p)"
  show ?case
  proof (cases "outend \<le> out + length ?e")
    case True
    then show ?thesis by (simp add: encode_packet_loop_Suc)
  next
    case False
    with Suc.prems have "a < out + length ?e \<or> outend \<le> a" by auto
    moreover have "mem_write m out ?e a = m a"
      using False Suc.prems by (intro mem_write_outside) auto
    ultimately show ?thesis
      using Suc.IH [of "out + length ?e" "mem_write m out ?e" "Suc p"] False
      by (simp add: encode_packet_loop_Suc)
  qed
qed

lemma encode_packet_loop_ok:
  assumes "p + n \<le> out \<or> outend \<le> p"
    and "n = 0 \<or> out + length (slip_body (mem_range m p n)) < outend"
  shows "encode_packet_loop m p (p + n) out outend =
    (mem_write m out (slip_body (mem_range m p n)),
     Some (out + length (slip_body (mem_range m p n))))"
  using assms
proof (induction n arbitrary: m p out)
  case 0
  then show ?case by (simp add: encode_packet_loop_0)
next
  case (Suc n)
  let ?e = "slip_escape (m p)"
  let ?m = "mem_write m out ?e"
  from Suc.prems have len: "out + length ?e + length (slip_body (mem_range m (Suc p) n)) < outend"
    by (simp add: mem_range_Suc)
  with Suc.prems(1) have rest: "mem_range ?m (Suc p) n = mem_range m (Suc p) n"
    by (intro mem_range_write_outside) auto
  have "encode_packet_loop ?m (Suc p) (Suc p + n) (out + length ?e) outend =
    (mem_write ?m (out + length ?e) (slip_body (mem_range m (Suc p) n)),
     Some (out + length ?e + length (slip_body (mem_range m (Suc p) n))))"
    using Suc.IH [of "Suc p" "out + length ?e" ?m] Suc.prems(1) len by (simp only: rest) auto
  with len show ?case
    by (simp add: encode_packet_loop_Suc mem_range_Suc mem_write_append add.assoc)
qed

lemma encode_packet_loop_fail:
  assumes "p + n \<le> out \<or> outend \<le> p"
    and "n \<noteq> 0" and "outend \<le> out + length (slip_body (mem_range m p n))"
  shows "snd (encode_packet_loop m p (p + n) out outend) = None"
  using assms
proof (induction n arbitrary: m p out)
  case 0
  then show ?case by simp
next
  case (Suc n)
  let ?e = "slip_escape (m p)"
  let ?m = "mem_write m out ?e"
  show ?case
  proof (cases "outend \<le> out + length ?e")
    case True
    then show ?thesis by (simp add: encode_packet_loop_Suc)
  next
    case False
    with Suc.prems(1) have rest: "mem_range ?m (Suc p) n = mem_range m (Suc p) n"
      by (intro mem_range_write_outside) auto
    from False Suc.prems(3) have "n \<noteq> 0"
      by (cases n) (auto simp: mem_range_Suc)
    with False Suc.IH [of "Suc p" "out + length ?e" ?m] Suc.prems show ?thesis
      by (auto simp: encode_packet_loop_Suc rest mem_range_Suc add.assoc)
  qed
qed


lemma encode_packet_fits:
  assumes "disjoint_ranges inp (unat inlen) out (unat outlen)"
    and "length (slip_encode (mem_range m inp (unat inlen))) \<le> unat outlen"
  shows "encode_packet m inp inlen out outlen =
    (mem_write m out (slip_encode (mem_range m inp (unat inlen))), encoded_length m inp inlen)"
proof -
  let ?d = "mem_range m inp (unat inlen)"
  have "unat inlen \<le> unat outlen"
    using assms(2) length_slip_body_ge [of ?d] by simp
  then have "\<not> outlen < inlen"
    by (simp add: word_less_nat_alt)
  moreover have "encode_packet_loop m inp (inp + unat inlen) out (out + unat outlen) =
      (mem_write m out (slip_body ?d), Some (out + length (slip_body ?d)))"
    using assms by (intro encode_packet_loop_ok) (auto simp: disjoint_ranges_def)
  ultimately show ?thesis
    using assms(2)
    by (simp add: encode_packet_def encoded_length_eq slip_encode_def mem_write_append Let_def)
qed

lemma encode_packet_bytes:
  assumes "disjoint_ranges inp (unat inlen) out (unat outlen)"
    and "length (slip_encode (mem_range m inp (unat inlen))) \<le> unat outlen"
    and "encode_packet m inp inlen out outlen = (m1, n)"
  shows "mem_range m1 out (unat n) = slip_encode (mem_range m inp (unat inlen))"
proof -
  let ?f = "slip_encode (mem_range m inp (unat inlen))"
  have "m1 = mem_write m out ?f" "n = of_nat (length ?f)"
    using encode_packet_fits [OF assms(1,2)] assms(3) by (simp_all add: encoded_length_eq)
  moreover have "length ?f < 2 ^ 64"
    using assms(2) unat_size_less [of outlen] by linarith
  ultimately show ?thesis
    by (simp only: unat_of_nat_size mem_range_mem_write)
qed

lemma encode_packet_too_small:
  assumes "disjoint_ranges inp (unat inlen) out (unat outlen)"
    and "unat outlen < length (slip_encode (mem_range m inp (unat inlen)))"
  shows "snd (encode_packet m inp inlen out outlen) = ENCODE_ERROR"
proof (cases "outlen < inlen")
  case True
  then show ?thesis by (simp add: encode_packet_def)
next
  case False
  show ?thesis
  proof (cases "unat inlen = 0")
    case True
    with assms(2) have "unat outlen = 0" by simp
    with True False show ?thesis
      by (simp add: encode_packet_def encode_packet_loop_0)
  next
    case nz: False
    have "snd (encode_packet_loop m inp (inp + unat inlen) out (out + unat outlen)) = None"
      using assms nz by (intro encode_packet_loop_fail) (auto simp: disjoint_ranges_def)
    with False show ?thesis
      by (auto simp: encode_packet_def Let_def split: prod.splits)
  qed
qed

lemma encode_packet_loop_mono:
  "snd (encode_packet_loop m p (p + n) out outend) = Some out' \<Longrightarrow> out \<le> out'"
proof (induction n arbitrary: m p out)
  case 0
  then show ?case by (simp add: encode_packet_loop_0)
next
  case (Suc n)
  then show ?case
    using Suc.IH [of _ "Suc p"] by (force simp: encode_packet_loop_Suc split: if_splits)
qed

lemma encode_packet_frame:
  assumes "a < out \<or> out + unat outlen \<le> a"
  shows "fst (encode_packet m inp inlen out outlen) a = m a"
  using encode_packet_loop_frame [OF assms, of m inp "unat inlen"] assms
    encode_packet_loop_mono [of m inp "unat inlen" out "out + unat outlen"]
  by (fastforce simp: encode_packet_def Let_def split: prod.splits option.splits)

section \<open>Encoding: the extended variant\<close>

definition forget_encode :: "mem \<times> (size_t Result + addr \<times> size_t) \<Rightarrow> mem \<times> addr option" where
  "forget_encode r = (case r of (m, Inl _) \<Rightarrow> (m, None) | (m, Inr (out, _)) \<Rightarrow> (m, Some out))"

lemma encode_packet_ex_loop_forget:
  "forget_encode (encode_packet_ex_loop m p pend out outend pos) =
     encode_packet_loop m p pend out outend"
proof (induction "pend - p" arbitrary: m p out pos rule: less_induct)
  case less
  show ?case
  proof (cases "p < pend")
    case True
    then have "forget_encode (encode_packet_ex_loop m' (p + 1) pend out' outend pos') =
        encode_packet_loop m' (p + 1) pend out' outend" for m' out' pos'
      by (intro less.hyps) simp
    with True show ?thesis
      unfolding encode_packet_ex_loop.simps [of m p] encode_packet_loop.simps [of m p]
      by (simp add: forget_encode_def)
  next
    case False
    then show ?thesis
      by (simp add: encode_packet_ex_loop.simps encode_packet_loop.simps forget_encode_def)
  qed
qed

lemma encode_packet_ex_loop_err:
  assumes "p + n \<le> out \<or> outend \<le> p"
    and "encode_packet_ex_loop m p (p + n) out outend pos = (m', Inl r)"
  shows "\<exists>k msg. k < n \<and> r = Result_err EncodeBufferTooSmall (pos + of_nat k) msg \<and>
    (k = 0 \<or> out + length (slip_body (take k (mem_range m p n))) < outend) \<and>
    outend \<le> out + length (slip_body (take (Suc k) (mem_range m p n))) \<and>
    m' = mem_write m out (slip_body (take k (mem_range m p n)))"
  using assms
proof (induction n arbitrary: m p out pos)
  case 0
  then show ?case by (simp add: encode_packet_ex_loop.simps)
next
  case (Suc n)
  let ?e = "slip_escape (m p)"
  let ?m = "mem_write m out ?e"
  have step: "encode_packet_ex_loop m p (p + Suc n) out outend pos =
      encode_packet_ex_loop ?m (Suc p) (Suc p + n) (out + length ?e) outend (pos + 1)"
    if "\<not> outend \<le> out + length ?e"
    using that by (simp add: encode_packet_ex_loop.simps [of m p] slip_escape_def split: if_splits)
  show ?case
  proof (cases "outend \<le> out + length ?e")
    case True
    with Suc.prems(2) have "m' = m" "\<exists>msg. r = Result_err EncodeBufferTooSmall pos msg"
      by (auto simp: encode_packet_ex_loop.simps [of m p] slip_escape_def split: if_splits)
    with True show ?thesis
      by (intro exI [of _ "0::nat"]) (auto simp: mem_range_Suc)
  next
    case False
    then have rest: "mem_range ?m (Suc p) n = mem_range m (Suc p) n"
      using Suc.prems(1) by (intro mem_range_write_outside) auto
    obtain k msg where k: "k < n" "r = Result_err EncodeBufferTooSmall (pos + 1 + of_nat k) msg"
      "k = 0 \<or> out + length ?e + length (slip_body (take k (mem_range m (Suc p) n))) < outend"
      "outend \<le> out + length ?e + length (slip_body (take (Suc k) (mem_range m (Suc p) n)))"
      "m' = mem_write ?m (out + length ?e) (slip_body (take k (mem_range m (Suc p) n)))"
      using Suc.IH [of "Suc p" "out + length ?e" ?m "pos + 1"] Suc.prems step [OF False]
      unfolding rest by auto
    with False show ?thesis
      by (intro exI [of _ "Suc k"] exI [of _ msg]) (auto simp: mem_range_Suc mem_write_append add.assoc)
  qed
qed

lemma encode_packet_ex_loop_errs:
  "snd (encode_packet_ex_loop m p pend out outend pos) = Inl r \<Longrightarrow> code (error r) = EncodeBufferTooSmall"
proof (induction "pend - p" arbitrary: m p out pos rule: less_induct)
  case less
  have IH: "snd (encode_packet_ex_loop m' (p + 1) pend out' outend pos') = Inl r \<Longrightarrow>
      code (error r) = EncodeBufferTooSmall" if "p < pend" for m' out' pos'
    using that by (intro less.hyps) auto
  show ?case
    using less.prems IH
    by (auto simp: encode_packet_ex_loop.simps [of m p] error_defs split: if_splits)
qed

lemma encode_packet_ex_fits:
  assumes "disjoint_ranges inp (unat inlen) out (unat outlen)"
    and "length (slip_encode (mem_range m inp (unat inlen))) \<le> unat outlen"
  shows "encode_packet_ex m inp inlen out outlen =
    (mem_write m out (slip_encode (mem_range m inp (unat inlen))), Result_ok (encoded_length m inp inlen))"
proof -
  let ?d = "mem_range m inp (unat inlen)"
  let ?r = "encode_packet_ex_loop m inp (inp + unat inlen) out (out + unat outlen) 0"
  have "unat inlen \<le> unat outlen"
    using assms(2) length_slip_body_ge [of ?d] by simp
  then have le: "\<not> outlen < inlen" by (simp add: word_less_nat_alt)
  have "forget_encode ?r = (mem_write m out (slip_body ?d), Some (out + length (slip_body ?d)))"
    using assms by (subst encode_packet_ex_loop_forget, intro encode_packet_loop_ok) (auto simp: disjoint_ranges_def)
  then obtain pos where "?r = (mem_write m out (slip_body ?d), Inr (out + length (slip_body ?d), pos))"
    by (auto simp: forget_encode_def split: prod.splits sum.splits)
  with le assms(2) show ?thesis
    by (simp add: encode_packet_ex_def encoded_length_eq slip_encode_def mem_write_append Let_def)
qed

text \<open>What a failed encoding has written: the bytes ahead of the first one that does not fit.\<close>

lemma encode_packet_ex_too_small:
  assumes "disjoint_ranges inp (unat inlen) out (unat outlen)"
    and "0 < inlen" and "inlen \<le> outlen"
    and "unat outlen < length (slip_encode (mem_range m inp (unat inlen)))"
  defines "d \<equiv> mem_range m inp (unat inlen)"
  shows "\<exists>k msg. k < unat inlen \<and> encode_packet_ex m inp inlen out outlen =
      (mem_write m out (slip_body (take k d)), Result_err EncodeBufferTooSmall (of_nat k) msg) \<and>
    length (slip_encode (take k d)) \<le> unat outlen \<and> unat outlen < length (slip_encode (take (Suc k) d))"
proof -
  let ?r = "encode_packet_ex_loop m inp (inp + unat inlen) out (out + unat outlen) 0"
  have dis: "inp + unat inlen \<le> out \<or> out + unat outlen \<le> inp"
    using assms(1) by (simp add: disjoint_ranges_def)
  have nz: "unat inlen \<noteq> 0" "0 < unat outlen"
    using assms(2,3) by (simp_all add: word_less_nat_alt word_le_nat_alt)
  have "snd (forget_encode ?r) = None"
    using dis nz assms(4) by (subst encode_packet_ex_loop_forget, intro encode_packet_loop_fail) auto
  then obtain m' r where r: "?r = (m', Inl r)"
    by (auto simp: forget_encode_def split: prod.splits sum.splits)
  then obtain k msg where "k < unat inlen" "r = Result_err EncodeBufferTooSmall (of_nat k) msg"
      "k = 0 \<or> out + length (slip_body (take k d)) < out + unat outlen"
      "out + unat outlen \<le> out + length (slip_body (take (Suc k) d))" "m' = mem_write m out (slip_body (take k d))"
    using encode_packet_ex_loop_err [OF dis r] by (auto simp: d_def)
  with r assms(3) nz show ?thesis
    by (intro exI [of _ k] exI [of _ msg]) (auto simp: encode_packet_ex_def Let_def)
qed

section \<open>Decoding: correctness\<close>

text \<open>
  What decoding into \<open>k\<close> bytes at \<open>w\<close> leaves behind, as a function of the scan of the
  input: the memory, the error code (\<open>Success\<close> at an END), the reported position, and
  the write pointer when the loop runs to its end.
\<close>

definition decode_spec ::
    "mem \<Rightarrow> addr \<Rightarrow> nat \<Rightarrow> size_t \<Rightarrow> byte list \<times> ErrorCode \<Rightarrow> mem \<times> ErrorCode \<times> size_t \<times> addr option" where
  "decode_spec m w k pos r =
     (case r of (xs, st) \<Rightarrow>
        if k < length xs then
          (mem_write m w (take k xs), DecodeBufferTooSmall, pos + of_nat k, None)
        else
          (mem_write m w xs, st, pos + of_nat (length xs),
           if st = Success \<or> st = DecodeNoEndMarker then Some (w + length xs) else None))"

definition decode_view ::
    "mem \<times> (size_t Result + bool \<times> addr \<times> size_t) \<Rightarrow> mem \<times> ErrorCode \<times> size_t \<times> addr option" where
  "decode_view r =
     (case r of
        (m, Inl res) \<Rightarrow> (m, code (error res), position (error res), None)
      | (m, Inr (saw_end, w, pos)) \<Rightarrow>
          (m, if saw_end then Success else DecodeNoEndMarker, pos, Some w))"

lemma decode_spec_Cons:
  "decode_spec m w k pos (apfst (Cons b) r) =
     (if k = 0 then (m, DecodeBufferTooSmall, pos, None)
      else decode_spec (m(w := b)) (w + 1) (k - 1) (pos + 1) r)"
  by (cases k; cases r) (simp_all add: decode_spec_def)

lemma decode_spec_Nil:
  "decode_spec m w k pos ([], st) =
     (m, st, pos, if st = Success \<or> st = DecodeNoEndMarker then Some w else None)"
  by (simp add: decode_spec_def)

lemma decode_view_Inl: "decode_view (m, Inl (Result_err c pos msg)) = (m, c, pos, None)"
  by (simp add: decode_view_def error_defs)

text \<open>The scan of a non-empty memory range, read one token at a time.\<close>

lemma slip_scan_mem:
  assumes "p < pend"
  shows "slip_scan (mem_range m p (pend - p)) =
    (if m p = END then ([], Success)
     else if m p = ESC then
       (if p + 1 \<ge> pend then ([], DecodeTruncatedEscape)
        else if m (p + 1) = ESCEND then
          apfst (Cons END) (slip_scan (mem_range m (p + 2) (pend - (p + 2))))
        else if m (p + 1) = ESCESC then
          apfst (Cons ESC) (slip_scan (mem_range m (p + 2) (pend - (p + 2))))
        else ([], DecodeInvalidEscapeSequence))
     else apfst (Cons (m p)) (slip_scan (mem_range m (p + 1) (pend - (p + 1)))))"
  using mem_range_conv_Cons [OF assms, of m] mem_range_conv_Cons [of "Suc p" pend m]
  by (cases "Suc p < pend") auto

lemma decode_packet_ex_loop_view:
  assumes "w \<le> p \<or> pend \<le> w"
  shows "decode_view (decode_packet_ex_loop m p pend w (w + k) pos) =
    decode_spec m w k pos (slip_scan (mem_range m p (pend - p)))"
  using assms
proof (induction "pend - p" arbitrary: m p w k pos rule: less_induct)
  case less
  show ?case
  proof (cases "p < pend")
    case False
    then show ?thesis
      by (simp add: decode_packet_ex_loop.simps decode_view_def decode_spec_def)
  next
    case True
    note scan = slip_scan_mem [OF True]
    have IH: "decode_view (decode_packet_ex_loop (m(w := b)) p' pend (w + 1) (w + k) (pos + 1)) =
        decode_spec (m(w := b)) (w + 1) (k - 1) (pos + 1) (slip_scan (mem_range m p' (pend - p')))"
      if "p < p'" "0 < k" for b p'
    proof -
      have "mem_range (m(w := b)) p' (pend - p') = mem_range m p' (pend - p')"
        using that less.prems by (cases "p' \<le> pend") auto
      moreover have "w + 1 + (k - 1) = w + k" using that by simp
      ultimately show ?thesis
        using less.hyps [of p' "w + 1" "m(w := b)" "k - 1" "pos + 1"] that True less.prems by auto
    qed
    note loop = decode_packet_ex_loop.simps [of m p pend w "w + k" pos]
    consider "m p = END" | "m p = ESC" | "m p \<noteq> END" "m p \<noteq> ESC" by blast
    then show ?thesis
    proof cases
      case 1
      with True show ?thesis by (simp add: loop scan decode_view_def decode_spec_Nil)
    next
      case 2
      with True show ?thesis
        using IH [of "p + 2"]
        by (simp add: loop scan decode_spec_Nil decode_spec_Cons decode_view_Inl)
    next
      case 3
      with True show ?thesis
        using IH [of "p + 1"]
        by (simp add: loop scan decode_spec_Nil decode_spec_Cons decode_view_Inl)
    qed
  qed
qed

lemma decode_packet_ex_loop_frame:
  "a < w \<or> wend \<le> a \<Longrightarrow> fst (decode_packet_ex_loop m p pend w wend pos) a = m a"
proof (induction "pend - p" arbitrary: m p w pos rule: less_induct)
  case less
  have "fst (decode_packet_ex_loop m' p' pend (w + 1) wend pos') a = m' a"
    if "p < p'" "p < pend" for m' p' pos'
    using that less.prems by (intro less.hyps) auto
  then show ?case
    using less.prems by (auto simp: decode_packet_ex_loop.simps [of m p])
qed

definition forget_decode ::
    "mem \<times> (size_t Result + bool \<times> addr \<times> size_t) \<Rightarrow> mem \<times> (bool \<times> addr) option" where
  "forget_decode r =
     (case r of (m, Inl _) \<Rightarrow> (m, None) | (m, Inr (s, w, _)) \<Rightarrow> (m, Some (s, w)))"

lemma decode_packet_ex_loop_forget:
  "forget_decode (decode_packet_ex_loop m p pend w wend pos) = decode_packet_loop m p pend w wend"
proof (induction "pend - p" arbitrary: m p w pos rule: less_induct)
  case less
  have "forget_decode (decode_packet_ex_loop m' p' pend w' wend pos') =
      decode_packet_loop m' p' pend w' wend" if "p < p'" "p < pend" for m' p' w' pos'
    using that by (intro less.hyps) auto
  then show ?case
    unfolding decode_packet_ex_loop.simps [of m p] decode_packet_loop.simps [of m p]
    by (simp add: forget_decode_def)
qed

lemma decode_packet_ex_loop_errs:
  "snd (decode_packet_ex_loop m p pend w wend pos) = Inl r \<Longrightarrow> code (error r) \<noteq> Success"
proof (induction "pend - p" arbitrary: m p w pos rule: less_induct)
  case less
  have IH: "snd (decode_packet_ex_loop m' p' pend w' wend pos') = Inl r \<Longrightarrow> code (error r) \<noteq> Success"
    if "p < p'" "p < pend" for m' p' w' pos'
    using that by (intro less.hyps) auto
  show ?case
    using less.prems IH [of "p + 1"] IH [of "p + 2"]
    by (auto simp: decode_packet_ex_loop.simps [of m p] error_defs split: if_splits)
qed

text \<open>The two length scans follow the scan of the input as well.\<close>

lemma decoded_length_loop_eq:
  "decoded_length_loop m p pend k =
     (case slip_scan (mem_range m p (pend - p)) of (xs, st) \<Rightarrow>
        if st = Success then Some (True, k + of_nat (length xs))
        else if st = DecodeNoEndMarker then Some (False, k + of_nat (length xs))
        else None)"
proof (induction "pend - p" arbitrary: p k rule: less_induct)
  case less
  have "decoded_length_loop m p' pend k' =
     (case slip_scan (mem_range m p' (pend - p')) of (xs, st) \<Rightarrow>
        if st = Success then Some (True, k' + of_nat (length xs))
        else if st = DecodeNoEndMarker then Some (False, k' + of_nat (length xs))
        else None)" if "p < p'" "p < pend" for p' k'
    using that by (intro less.hyps) auto
  then show ?case
    by (cases "p < pend")
      (simp_all add: decoded_length_loop.simps [of m p] slip_scan_mem split_def add.assoc)
qed

definition length_view :: "size_t Result + bool \<times> size_t \<times> size_t \<Rightarrow> ErrorCode \<times> size_t \<times> size_t option" where
  "length_view r =
     (case r of
        Inl res \<Rightarrow> (code (error res), position (error res), None)
      | Inr (saw_end, k, pos) \<Rightarrow> (if saw_end then Success else DecodeNoEndMarker, pos, Some k))"

lemma length_view_Inl: "length_view (Inl (Result_err c pos msg)) = (c, pos, None)"
  by (simp add: length_view_def error_defs)

lemma decoded_length_ex_loop_eq:
  "length_view (decoded_length_ex_loop m p pend k pos) =
     (case slip_scan (mem_range m p (pend - p)) of (xs, st) \<Rightarrow>
        (st, pos + of_nat (length xs),
         if st = Success \<or> st = DecodeNoEndMarker then Some (k + of_nat (length xs)) else None))"
proof (induction "pend - p" arbitrary: p k pos rule: less_induct)
  case less
  have IH: "length_view (decoded_length_ex_loop m p' pend k' pos') =
     (case slip_scan (mem_range m p' (pend - p')) of (xs, st) \<Rightarrow>
        (st, pos' + of_nat (length xs),
         if st = Success \<or> st = DecodeNoEndMarker then Some (k' + of_nat (length xs)) else None))"
    if "p < p'" "p < pend" for p' k' pos'
    using that by (intro less.hyps) auto
  show ?case
  proof (cases "p < pend")
    case True
    with IH [OF _ True] show ?thesis
      by (simp add: decoded_length_ex_loop.simps [of m p] slip_scan_mem split_def add.assoc
          length_view_Inl length_view_def [of "Inr _"])
  next
    case False
    then show ?thesis
      by (simp add: decoded_length_ex_loop.simps [of m p] length_view_def)
  qed
qed

section \<open>Decoding: the operations\<close>

text \<open>
  Decoding tolerates an output buffer that starts at or below the input, or behind it:
  the write pointer never overtakes the read pointer. Decoding in place is the case
  \<open>out = inp\<close>.
\<close>

definition decode_alias_ok :: "addr \<Rightarrow> size_t \<Rightarrow> addr \<Rightarrow> bool" where
  "decode_alias_ok inp inlen out \<longleftrightarrow> out \<le> inp \<or> inp + unat inlen \<le> out"

lemma slip_scan_mem_bound:
  assumes "slip_scan (mem_range m inp (unat (inlen :: size_t))) = (xs, st)" and "st \<noteq> DecodeNoEndMarker"
  shows "length xs < unat inlen"
  using length_slip_scan [of "mem_range m inp (unat inlen)"] assms by simp

lemma of_nat_not_SIZE_MAX:
  assumes "n < unat (k :: size_t)"
  shows "(of_nat n :: size_t) \<noteq> SIZE_MAX"
proof
  assume "(of_nat n :: size_t) = SIZE_MAX"
  then have "unat (of_nat n :: size_t) = 2 ^ 64 - 1" by (simp add: unat_SIZE_MAX)
  moreover have "n < 2 ^ 64 - 1" using assms unat_size_less [of k] by simp
  ultimately show False by (simp add: unat_of_nat_size)
qed

lemma decode_packet_ex_fields:
  assumes "decode_alias_ok inp inlen out"
    and "slip_scan (mem_range m inp (unat inlen)) = (xs, st)"
  shows "fst (decode_packet_ex m inp inlen out outlen) = mem_write m out (take (unat outlen) xs)"
    and "code (error (snd (decode_packet_ex m inp inlen out outlen))) =
      (if unat outlen < length xs then DecodeBufferTooSmall else st)"
    and "unat outlen < length xs \<or> st \<noteq> Success \<Longrightarrow>
      position (error (snd (decode_packet_ex m inp inlen out outlen))) =
      (if unat outlen < length xs then outlen else of_nat (length xs))"
    and "\<not> unat outlen < length xs \<Longrightarrow> st = Success \<Longrightarrow>
      decode_packet_ex m inp inlen out outlen = (mem_write m out xs, Result_ok (of_nat (length xs)))"
proof -
  let ?r = "decode_packet_ex_loop m inp (inp + unat inlen) out (out + unat outlen) 0"
  have "decode_view ?r = decode_spec m out (unat outlen) 0 (xs, st)"
    using decode_packet_ex_loop_view [of out inp "inp + unat inlen" m "unat outlen" 0] assms
    by (simp add: decode_alias_ok_def)
  note view = this [unfolded decode_view_def decode_spec_def]
  show "fst (decode_packet_ex m inp inlen out outlen) = mem_write m out (take (unat outlen) xs)"
    using view by (cases ?r) (auto simp: decode_packet_ex_def split: sum.splits if_splits)
  show "code (error (snd (decode_packet_ex m inp inlen out outlen))) =
      (if unat outlen < length xs then DecodeBufferTooSmall else st)"
    using view by (cases ?r) (auto simp: decode_packet_ex_def error_defs split: sum.splits if_splits)
  show "position (error (snd (decode_packet_ex m inp inlen out outlen))) =
      (if unat outlen < length xs then outlen else of_nat (length xs))" if "unat outlen < length xs \<or> st \<noteq> Success"
    using view that
    by (cases ?r) (auto simp: decode_packet_ex_def error_defs split: sum.splits if_splits)
  show "decode_packet_ex m inp inlen out outlen = (mem_write m out xs, Result_ok (of_nat (length xs)))"
    if "\<not> unat outlen < length xs" "st = Success"
    using view that
    by (cases ?r) (auto simp: decode_packet_ex_def error_defs split: sum.splits if_splits)
qed

lemma encode_packet_of_ex:
  "encode_packet m inp inlen out outlen =
     (case encode_packet_ex m inp inlen out outlen of
        (m', r) \<Rightarrow> (m', if Result_is_error r then ENCODE_ERROR else val r))"
  using encode_packet_ex_loop_errs [of m inp "inp + unat inlen" out "out + unat outlen" 0]
  by (auto simp: encode_packet_def encode_packet_ex_def error_defs forget_encode_def Let_def
      encode_packet_ex_loop_forget [of m inp "inp + unat inlen" out "out + unat outlen" 0, symmetric]
      split: prod.splits sum.splits)

lemma encode_packet_ex_frame:
  assumes "a < out \<or> out + unat outlen \<le> a"
  shows "fst (encode_packet_ex m inp inlen out outlen) a = m a"
  using encode_packet_frame [OF assms, of m inp inlen]
  by (simp add: encode_packet_of_ex split: prod.splits)

lemma decode_packet_of_ex:
  "decode_packet m inp inlen out outlen =
     (case decode_packet_ex m inp inlen out outlen of
        (m', r) \<Rightarrow> (m', if Result_is_error r then DECODE_ERROR else val r))"
  using decode_packet_ex_loop_errs [of m inp "inp + unat inlen" out "out + unat outlen" 0]
  by (auto simp: decode_packet_def decode_packet_ex_def error_defs forget_decode_def
      decode_packet_ex_loop_forget [of m inp "inp + unat inlen" out "out + unat outlen" 0, symmetric]
      split: prod.splits sum.splits)

lemma decode_packet_ok:
  assumes "decode_alias_ok inp inlen out"
    and "slip_decode (mem_range m inp (unat inlen)) = Inr xs" and "length xs \<le> unat outlen"
  shows "decode_packet m inp inlen out outlen = (mem_write m out xs, of_nat (length xs))"
proof -
  have "slip_scan (mem_range m inp (unat inlen)) = (xs, Success)"
    using assms(2) by (simp add: slip_decode_def split: prod.splits if_splits)
  with decode_packet_ex_fields(4) [OF assms(1) this, of outlen] assms(3) show ?thesis
    by (simp add: decode_packet_of_ex error_defs)
qed

lemma decode_packet_fail:
  assumes "decode_alias_ok inp inlen out"
    and "\<And>xs. slip_decode (mem_range m inp (unat inlen)) = Inr xs \<Longrightarrow> unat outlen < length xs"
  shows "snd (decode_packet m inp inlen out outlen) = DECODE_ERROR"
proof -
  obtain xs st where scan: "slip_scan (mem_range m inp (unat inlen)) = (xs, st)"
    by fastforce
  from assms(2) have "unat outlen < length xs \<or> st \<noteq> Success"
    by (auto simp: slip_decode_def scan)
  then have "code (error (snd (decode_packet_ex m inp inlen out outlen))) \<noteq> Success"
    using decode_packet_ex_fields(2) [OF assms(1) scan, of outlen] by auto
  then show ?thesis
    by (auto simp: decode_packet_of_ex error_defs split: prod.splits)
qed

lemma decode_packet_frame:
  assumes "a < out \<or> out + unat outlen \<le> a"
  shows "fst (decode_packet m inp inlen out outlen) a = m a"
    and "fst (decode_packet_ex m inp inlen out outlen) a = m a"
  using decode_packet_ex_loop_frame [OF assms, of m inp "inp + unat inlen" 0]
  by (auto simp: decode_packet_of_ex decode_packet_ex_def split: prod.splits sum.splits)

lemma decoded_length_eq:
  "decoded_length m inp inlen =
     (case slip_decode (mem_range m inp (unat inlen)) of Inl _ \<Rightarrow> DECODE_ERROR | Inr xs \<Rightarrow> of_nat (length xs))"
  by (simp add: decoded_length_def decoded_length_loop_eq slip_decode_def split: prod.splits)

lemma decoded_length_ex_fields:
  assumes "slip_scan (mem_range m inp (unat inlen)) = (xs, st)"
  shows "code (error (decoded_length_ex m inp inlen)) = st"
    and "if st = Success then val (decoded_length_ex m inp inlen) = of_nat (length xs)
         else position (error (decoded_length_ex m inp inlen)) = of_nat (length xs)"
proof -
  have "length_view (decoded_length_ex_loop m inp (inp + unat inlen) 0 0) =
      (st, of_nat (length xs), if st = Success \<or> st = DecodeNoEndMarker then Some (of_nat (length xs)) else None)"
    using decoded_length_ex_loop_eq [of m inp "inp + unat inlen" 0 0] assms by simp
  then show "code (error (decoded_length_ex m inp inlen)) = st"
    and "if st = Success then val (decoded_length_ex m inp inlen) = of_nat (length xs)
         else position (error (decoded_length_ex m inp inlen)) = of_nat (length xs)"
    by (auto simp: decoded_length_ex_def length_view_def error_defs split: sum.splits if_splits)
qed

section \<open>Properties of the buffer API\<close>

text \<open>A payload with both special bytes at address 100, used by the witnesses.\<close>

definition sample_mem :: mem where
  [slip_eval]: "sample_mem = (\<lambda>_. 0)(100 := 0x01, 101 := 0xC0, 102 := 0xDB)"

text \<open>The frame of that payload at address 200.\<close>

definition sample_frame_mem :: mem where
  [slip_eval]: "sample_frame_mem =
     (\<lambda>_. 0)(200 := 0x01, 201 := 0xDB, 202 := 0xDC, 203 := 0xDB, 204 := 0xDD, 205 := 0xC0)"

lemma sample_payload: "mem_range sample_mem 100 3 = [0x01, 0xC0, 0xDB]"
  by (simp add: slip_eval)

lemma sample_frame: "mem_range sample_frame_mem 200 6 = [0x01, 0xDB, 0xDC, 0xDB, 0xDD, 0xC0]"
  by (simp add: slip_eval)

lemma sample_encode: "slip_encode [0x01, 0xC0, 0xDB] = [0x01, 0xDB, 0xDC, 0xDB, 0xDD, 0xC0]"
  by (simp add: slip_encode_def slip_escape_def slip_consts)

lemma sample_decode: "slip_decode [0x01, 0xDB, 0xDC, 0xDB, 0xDD, 0xC0] = Inr [0x01, 0xC0, 0xDB]"
  using slip.dec_enc [of "[0x01, 0xC0, 0xDB]" "[]"] by (simp add: sample_encode)

lemmas sample_facts = sample_payload sample_frame sample_encode sample_decode

text \<open>
  C11: when the buffers are disjoint and the output buffer holds the frame,
  \<open>encode_packet\<close> writes exactly the SLIP frame of the input at \<open>out\<close>, changes nothing
  else in memory, and returns the number of bytes that \<open>encoded_length\<close> announces. It
  fails exactly when the output buffer is shorter than the frame, so
  a buffer of \<open>encoded_length\<close> bytes always suffices and none shorter does. For the last
  equivalence a length of SIZE_MAX is excluded: there a result of SIZE_MAX bytes is also
  the error value.
\<close>

theorem encode_packet_correct:
  assumes "disjoint_ranges inp (unat inlen) out (unat outlen)"
  shows "(length (slip_encode (mem_range m inp (unat inlen))) \<le> unat outlen \<longrightarrow>
      encode_packet m inp inlen out outlen =
        (mem_write m out (slip_encode (mem_range m inp (unat inlen))), encoded_length m inp inlen)) \<and>
    (outlen \<noteq> SIZE_MAX \<longrightarrow>
      (snd (encode_packet m inp inlen out outlen) = ENCODE_ERROR \<longleftrightarrow>
       unat outlen < length (slip_encode (mem_range m inp (unat inlen)))))"
proof (cases "unat outlen < length (slip_encode (mem_range m inp (unat inlen)))")
  case True
  with encode_packet_too_small [OF assms True] show ?thesis by simp
next
  case False
  have "(of_nat (length (slip_encode (mem_range m inp (unat inlen)))) :: size_t) \<noteq> SIZE_MAX" if "outlen \<noteq> SIZE_MAX"
    using False size_less_SIZE_MAX [OF that] by (intro of_nat_not_SIZE_MAX [of _ SIZE_MAX]) (simp add: unat_SIZE_MAX)
  with False encode_packet_fits [OF assms, of m] show ?thesis
    by (auto simp: encoded_length_eq ENCODE_ERROR_def simp del: length_slip_encode)
qed

theorem encode_packet_correct_witness:
  "encode_packet sample_mem 100 3 200 6 =
     (mem_write sample_mem 200 [0x01, 0xDB, 0xDC, 0xDB, 0xDD, 0xC0], 6) \<and>
   snd (encode_packet sample_mem 100 3 200 5) = ENCODE_ERROR"
  using encode_packet_correct [of 100 3 200 6 sample_mem] encode_packet_correct [of 100 3 200 5 sample_mem]
  by (simp add: disjoint_ranges_def sample_facts encoded_length_eq SIZE_MAX_eq)

text \<open>
  C26: \<open>encode_packet\<close> is \<open>encode_packet_ex\<close> with the error detail dropped: both leave
  the same memory, and the plain variant returns the value of the extended one, or
  ENCODE_ERROR where that reports an error. For disjoint buffers the behaviour of
  \<open>encode_packet_ex\<close> is complete: the frame and its length if it fits; otherwise
  EncodeBufferTooSmall, with the index of the first input byte that no longer fits as
  its position, and the escaped form of exactly the bytes in front of it written.
\<close>

theorem encode_packet_ex_correct:
  fixes m :: mem and inp out :: addr and inlen outlen :: size_t
  defines "d \<equiv> mem_range m inp (unat inlen)" and "res \<equiv> encode_packet_ex m inp inlen out outlen"
  shows "encode_packet m inp inlen out outlen =
      (case res of (m', r) \<Rightarrow> (m', if Result_is_error r then ENCODE_ERROR else val r)) \<and>
    (outlen < inlen \<longrightarrow> res = (m, Result_err EncodeBufferTooSmall 0 ''Output buffer too small'')) \<and>
    (inlen = 0 \<and> outlen = 0 \<longrightarrow>
      res = (m, Result_err EncodeBufferTooSmall 0 ''Output buffer too small for END byte'')) \<and>
    (disjoint_ranges inp (unat inlen) out (unat outlen) \<longrightarrow>
      (length (slip_encode d) \<le> unat outlen \<longrightarrow>
        res = (mem_write m out (slip_encode d), Result_ok (encoded_length m inp inlen))) \<and>
      (0 < inlen \<and> inlen \<le> outlen \<and> unat outlen < length (slip_encode d) \<longrightarrow>
        (\<exists>k msg. k < unat inlen \<and>
          res = (mem_write m out (slip_body (take k d)), Result_err EncodeBufferTooSmall (of_nat k) msg) \<and>
          length (slip_encode (take k d)) \<le> unat outlen \<and> unat outlen < length (slip_encode (take (Suc k) d)))))"
proof (intro conjI impI)
  show "encode_packet m inp inlen out outlen =
      (case res of (m', r) \<Rightarrow> (m', if Result_is_error r then ENCODE_ERROR else val r))"
    unfolding res_def by (rule encode_packet_of_ex)
next
  show "res = (m, Result_err EncodeBufferTooSmall 0 ''Output buffer too small'')" if "outlen < inlen"
    using that by (simp add: res_def encode_packet_ex_def)
next
  show "res = (m, Result_err EncodeBufferTooSmall 0 ''Output buffer too small for END byte'')"
    if "inlen = 0 \<and> outlen = 0"
    using that by (simp add: res_def encode_packet_ex_def encode_packet_ex_loop.simps)
next
  assume dis: "disjoint_ranges inp (unat inlen) out (unat outlen)"
  then show "res = (mem_write m out (slip_encode d), Result_ok (encoded_length m inp inlen))"
    if "length (slip_encode d) \<le> unat outlen"
    using that unfolding res_def d_def by (rule encode_packet_ex_fits)
  show "\<exists>k msg. k < unat inlen \<and>
      res = (mem_write m out (slip_body (take k d)), Result_err EncodeBufferTooSmall (of_nat k) msg) \<and>
      length (slip_encode (take k d)) \<le> unat outlen \<and> unat outlen < length (slip_encode (take (Suc k) d))"
    if "0 < inlen \<and> inlen \<le> outlen \<and> unat outlen < length (slip_encode d)"
    using that encode_packet_ex_too_small [OF dis, of m] unfolding res_def d_def by blast
qed

theorem encode_packet_ex_correct_witness:
  "\<exists>k msg. encode_packet_ex sample_mem 100 3 200 4 =
     (mem_write sample_mem 200 (slip_body (take k [0x01, 0xC0, 0xDB])), Result_err EncodeBufferTooSmall (of_nat k) msg)"
  using encode_packet_ex_correct [of sample_mem 100 3 200 4]
  by (auto simp: disjoint_ranges_def sample_facts word_less_nat_alt word_le_nat_alt simp del: length_slip_encode)

text \<open>
  C27: the announced lengths. \<open>encoded_length\<close> and \<open>encoded_length_ex\<close> return the length of
  the frame; for inputs below half the range of size_t it does not wrap and is
  more than the input and at most twice the input plus one.
  \<open>decoded_length\<close> is the length of the payload up to the first END, and DECODE_ERROR
  exactly when the input has no well-formed frame (the error value is never a length).
  \<open>decoded_length_ex\<close> returns that length, or the reason and the number of bytes decoded
  before it.
\<close>

theorem announced_lengths_correct:
  "encoded_length m inp inlen = of_nat (length (slip_encode (mem_range m inp (unat inlen)))) \<and>
   encoded_length_ex m inp inlen = Result_ok (encoded_length m inp inlen) \<and>
   (2 * unat inlen + 1 < 2 ^ 64 \<longrightarrow>
      unat (encoded_length m inp inlen) = length (slip_encode (mem_range m inp (unat inlen))) \<and>
      inlen < encoded_length m inp inlen \<and> unat (encoded_length m inp inlen) \<le> 2 * unat inlen + 1) \<and>
   decoded_length m inp inlen =
     (case slip_decode (mem_range m inp (unat inlen)) of
        Inl _ \<Rightarrow> DECODE_ERROR | Inr xs \<Rightarrow> of_nat (length xs)) \<and>
   (decoded_length m inp inlen = DECODE_ERROR \<longleftrightarrow>
      (\<exists>e. slip_decode (mem_range m inp (unat inlen)) = Inl e)) \<and>
   (case slip_scan (mem_range m inp (unat inlen)) of (xs, st) \<Rightarrow>
      code (error (decoded_length_ex m inp inlen)) = st \<and>
      (if st = Success then val (decoded_length_ex m inp inlen) = of_nat (length xs)
       else position (error (decoded_length_ex m inp inlen)) = of_nat (length xs)))"
proof -
  let ?d = "mem_range m inp (unat inlen)"
  have len: "unat inlen \<le> length (slip_body ?d)" "length (slip_body ?d) \<le> 2 * unat inlen"
    using length_slip_body_ge [of ?d] length_slip_body_le [of ?d] by simp_all
  have "unat (encoded_length m inp inlen) = length (slip_encode ?d)" if "2 * unat inlen + 1 < 2 ^ 64"
    unfolding encoded_length_eq using len that by (intro unat_of_nat_size) simp
  then have enc: "2 * unat inlen + 1 < 2 ^ 64 \<longrightarrow> unat (encoded_length m inp inlen) = length (slip_encode ?d) \<and>
      inlen < encoded_length m inp inlen \<and> unat (encoded_length m inp inlen) \<le> 2 * unat inlen + 1"
    using len by (auto simp: word_less_nat_alt)
  have ex: "encoded_length_ex m inp inlen = Result_ok (encoded_length m inp inlen)"
    by (simp add: encoded_length_ex_def encoded_length_def)
  obtain xs st where scan: "slip_scan ?d = (xs, st)"
    by fastforce
  have "st \<noteq> DecodeNoEndMarker \<Longrightarrow> (of_nat (length xs) :: size_t) \<noteq> SIZE_MAX"
    using slip_scan_mem_bound [OF scan] of_nat_not_SIZE_MAX by blast
  with decoded_length_ex_fields [OF scan]
  have dec: "decoded_length m inp inlen = (case slip_decode ?d of Inl _ \<Rightarrow> DECODE_ERROR | Inr xs \<Rightarrow> of_nat (length xs))"
    "decoded_length m inp inlen = DECODE_ERROR \<longleftrightarrow> (\<exists>e. slip_decode ?d = Inl e)"
    by (auto simp: decoded_length_eq slip_decode_def scan DECODE_ERROR_def)
  show ?thesis
    using enc ex dec decoded_length_ex_fields [OF scan] by (simp only: encoded_length_eq scan prod.case simp_thms)
qed

theorem announced_lengths_correct_witness: "unat (encoded_length sample_mem 100 3) = 6"
  using announced_lengths_correct [of sample_mem 100 3] by (simp add: sample_facts)

text \<open>
  C29: \<open>decode_packet\<close> on an input whose first frame carries \<open>xs\<close>, into a buffer of at
  least that many bytes, writes \<open>xs\<close> at \<open>out\<close>, nothing else, and returns its length. The
  output may overlap the input from below: decoding in place is correct. It returns
  DECODE_ERROR exactly when the input has no well-formed frame or its payload exceeds
  the output buffer.
\<close>

theorem decode_packet_correct:
  assumes "decode_alias_ok inp inlen out"
  shows "(\<forall>xs. slip_decode (mem_range m inp (unat inlen)) = Inr xs \<and> length xs \<le> unat outlen \<longrightarrow>
      decode_packet m inp inlen out outlen = (mem_write m out xs, of_nat (length xs))) \<and>
    (snd (decode_packet m inp inlen out outlen) = DECODE_ERROR \<longleftrightarrow>
      \<not> (\<exists>xs. slip_decode (mem_range m inp (unat inlen)) = Inr xs \<and> length xs \<le> unat outlen))"
proof (cases "\<exists>xs. slip_decode (mem_range m inp (unat inlen)) = Inr xs \<and> length xs \<le> unat outlen")
  case True
  then obtain xs where xs: "slip_decode (mem_range m inp (unat inlen)) = Inr xs" "length xs \<le> unat outlen"
    by blast
  then have "slip_scan (mem_range m inp (unat inlen)) = (xs, Success)"
    by (simp add: slip_decode_def split: prod.splits if_splits)
  then have "(of_nat (length xs) :: size_t) \<noteq> SIZE_MAX"
    using slip_scan_mem_bound of_nat_not_SIZE_MAX by blast
  with True xs decode_packet_ok [OF assms xs] show ?thesis
    by (simp add: DECODE_ERROR_def)
next
  case False
  then show ?thesis
    using decode_packet_fail [OF assms, of m outlen] by (auto simp: not_le)
qed

theorem decode_packet_correct_witness:
  "decode_packet sample_frame_mem 200 6 200 3 = (mem_write sample_frame_mem 200 [0x01, 0xC0, 0xDB], 3) \<and>
   snd (decode_packet sample_frame_mem 200 6 300 2) = DECODE_ERROR"
  using decode_packet_correct [of 200 6 200 sample_frame_mem 3] decode_packet_correct [of 200 6 300 sample_frame_mem 2]
  by (simp add: decode_alias_ok_def sample_facts)

text \<open>
  C14: memory safety of the buffer API. No address outside the output buffer is ever written
  by any of the four functions that write, \<open>encode_packet\<close>, \<open>encode_packet_ex\<close>,
  \<open>decode_packet\<close> and \<open>decode_packet_ex\<close>, whatever the input, its overlap with the output
  and the outcome.
\<close>

theorem buffer_memory_safe:
  assumes "a < out \<or> out + unat outlen \<le> a"
  shows "fst (encode_packet m inp inlen out outlen) a = m a \<and>
    fst (encode_packet_ex m inp inlen out outlen) a = m a \<and>
    fst (decode_packet m inp inlen out outlen) a = m a \<and>
    fst (decode_packet_ex m inp inlen out outlen) a = m a"
  using encode_packet_frame [OF assms] encode_packet_ex_frame [OF assms] decode_packet_frame [OF assms] by simp

theorem buffer_memory_safe_witness:
  "fst (encode_packet sample_mem 100 3 101 2) 100 = 0x01 \<and> fst (encode_packet_ex sample_mem 100 3 101 2) 100 = 0x01 \<and>
   fst (decode_packet sample_frame_mem 200 6 202 1) 203 = 0xDB"
  using buffer_memory_safe [of 100 101 2 sample_mem 100 3] buffer_memory_safe [of 203 202 1 sample_frame_mem 200 6]
  by (simp add: slip_eval)

text \<open>
  C12: the complete behaviour of \<open>decode_packet_ex\<close>, on every branch: it writes the
  decoded bytes that fit; the code is DecodeBufferTooSmall when they do not all fit and
  otherwise the reason the scan stops; the position is the number of bytes written; on
  success the value is the payload length. \<open>decode_packet\<close> agrees with it.
\<close>

theorem decode_packet_ex_correct:
  assumes "decode_alias_ok inp inlen out"
    and "slip_scan (mem_range m inp (unat inlen)) = (xs, st)"
    and "decode_packet_ex m inp inlen out outlen = (m', r)"
  shows "m' = mem_write m out (take (unat outlen) xs) \<and>
    code (error r) = (if unat outlen < length xs then DecodeBufferTooSmall else st) \<and>
    (if Result_is_error r
     then position (error r) = (if unat outlen < length xs then outlen else of_nat (length xs))
     else val r = of_nat (length xs)) \<and>
    decode_packet m inp inlen out outlen = (m', if Result_is_error r then DECODE_ERROR else val r)"
  using decode_packet_ex_fields [OF assms(1,2), of outlen] assms(3)
  by (auto simp: decode_packet_of_ex error_defs split: if_splits)

theorem decode_packet_ex_correct_witness:
  "code (error (snd (decode_packet_ex sample_frame_mem 200 4 300 8))) = DecodeTruncatedEscape \<and>
   position (error (snd (decode_packet_ex sample_frame_mem 200 4 300 8))) = 2"
proof -
  have "slip_scan (mem_range sample_frame_mem 200 (unat (4 :: size_t))) = ([0x01, 0xC0], DecodeTruncatedEscape)"
    by (simp add: slip_eval slip_consts)
  then show ?thesis
    using decode_packet_ex_correct [of 200 4 300 sample_frame_mem "[0x01, 0xC0]" DecodeTruncatedEscape 8]
    by (cases "decode_packet_ex sample_frame_mem 200 4 300 8")
      (simp add: decode_alias_ok_def Result_is_error_def ErrorInfo_is_error_def)
qed

text \<open>
  C8: round trip through memory. Whatever \<open>encode_packet\<close> writes, \<open>decode_packet\<close> reads
  back: with a frame buffer disjoint from the input and large enough, and a destination
  that holds the payload and does not start inside the frame, the destination holds the
  original bytes and the returned length is the original length. The destination may be
  the frame buffer itself or the original input.
\<close>

theorem encode_decode_roundtrip:
  assumes "disjoint_ranges inp (unat inlen) out (unat outlen)"
    and "length (slip_encode (mem_range m inp (unat inlen))) \<le> unat outlen"
    and "encode_packet m inp inlen out outlen = (m1, n)"
    and "decode_alias_ok out n dst" and "inlen \<le> dstlen"
    and "decode_packet m1 out n dst dstlen = (m2, k)"
  shows "k = inlen \<and> mem_range m2 dst (unat inlen) = mem_range m inp (unat inlen)"
proof -
  let ?d = "mem_range m inp (unat inlen)"
  have "slip_decode (mem_range m1 out (unat n)) = Inr ?d"
    using slip.dec_enc [of ?d "[]"] encode_packet_bytes [OF assms(1-3)] by simp
  with assms(4,5,6) show ?thesis
    using decode_packet_ok [of out n dst m1 ?d dstlen] mem_range_mem_write [of m1 dst ?d]
    by (auto simp: word_le_nat_alt)
qed

theorem encode_decode_roundtrip_witness:
  "\<exists>m1 m2. encode_packet sample_mem 100 3 200 6 = (m1, 6) \<and> decode_packet m1 200 6 200 3 = (m2, 3) \<and>
     mem_range m2 200 3 = [0x01, 0xC0, 0xDB]"
proof -
  obtain m1 where m1: "encode_packet sample_mem 100 3 200 6 = (m1, 6)"
    using encode_packet_fits [of 100 3 200 6 sample_mem]
    by (simp add: disjoint_ranges_def sample_facts encoded_length_eq)
  obtain m2 k where m2: "decode_packet m1 200 6 200 3 = (m2, k)"
    by fastforce
  show ?thesis
    using encode_decode_roundtrip [of 100 3 200 6 sample_mem m1 6 200 3 m2 k] m1 m2
    by (simp add: disjoint_ranges_def decode_alias_ok_def sample_facts)
qed

text \<open>
  The reported position counts decoded bytes, not input bytes: in the input
  ESC ESCEND ESC 0x07 the bad escape starts at offset 2, and both \<open>decoded_length_ex\<close>
  and \<open>decode_packet_ex\<close> report position 1.
\<close>

theorem decode_position_not_offset:
  fixes m :: mem
  defines "m \<equiv> (\<lambda>_. 0)(500 := ESC, 501 := ESCEND, 502 := ESC, 503 := 0x07)"
  shows "mem_range m 500 4 = [ESC, ESCEND, ESC, 0x07] \<and>
    code (error (snd (decode_packet_ex m 500 4 600 8))) = DecodeInvalidEscapeSequence \<and>
    position (error (snd (decode_packet_ex m 500 4 600 8))) = 1 \<and>
    code (error (decoded_length_ex m 500 4)) = DecodeInvalidEscapeSequence \<and>
    position (error (decoded_length_ex m 500 4)) = 1"
proof -
  have in4: "mem_range m 500 4 = [ESC, ESCEND, ESC, 0x07]"
    by (simp add: m_def slip_eval)
  then have "slip_scan (mem_range m 500 (unat (4 :: size_t))) = ([END], DecodeInvalidEscapeSequence)"
    by (simp add: slip_consts)
  with in4 show ?thesis
    using decode_packet_ex_fields(2,3) [of 500 4 600 m "[END]" DecodeInvalidEscapeSequence 8]
      decoded_length_ex_fields [of m 500 4 "[END]" DecodeInvalidEscapeSequence]
    by (simp add: decode_alias_ok_def)
qed

end
