(* ===== verification/Slip_CRC32.thy ===== *)
theory Slip_CRC32
  imports Slip_Prelude
begin

text \<open>
  The checksum component, \<open>src/CRC32.cpp\<close>: the lookup table and the table-driven update,
  the calculation over a memory range, and appending, extracting and verifying a
  checksum stored behind the data in little-endian order. The reference is the
  bit-serial MSB-first CRC for an arbitrary 32-bit generator polynomial. The table is
  shown to be the table of the generator 0x09823B6E, which is the Ethernet polynomial
  0x04C11DB7 shifted left by one, and the error detection that this generator gives is
  characterised.
\<close>

section \<open>Definitions\<close>

definition CRC32_POLYNOMIAL :: uint32 where
  "CRC32_POLYNOMIAL = 0x04C11DB7"

definition crc32_table :: "uint32 list" where
  "crc32_table =
    [0x00000000, 0x09823B6E, 0x130476DC, 0x1A864DB2, 0x2608EDB8, 0x2F8AD6D6, 0x350C9B64, 0x3C8EA00A,
     0x4C11DB70, 0x4593E01E, 0x5F15ADAC, 0x569796C2, 0x6A1936C8, 0x639B0DA6, 0x791D4014, 0x709F7B7A,
     0x9823B6E0, 0x91A18D8E, 0x8B27C03C, 0x82A5FB52, 0xBE2B5B58, 0xB7A96036, 0xAD2F2D84, 0xA4AD16EA,
     0xD4326D90, 0xDDB056FE, 0xC7361B4C, 0xCEB42022, 0xF23A8028, 0xFBB8BB46, 0xE13EF6F4, 0xE8BCCD9A,
     0x39C556AE, 0x30476DC0, 0x2AC12072, 0x23431B1C, 0x1FCDBB16, 0x164F8078, 0x0CC9CDCA, 0x054BF6A4,
     0x75D48DDE, 0x7C56B6B0, 0x66D0FB02, 0x6F52C06C, 0x53DC6066, 0x5A5E5B08, 0x40D816BA, 0x495A2DD4,
     0xA1E6E04E, 0xA864DB20, 0xB2E29692, 0xBB60ADFC, 0x87EE0DF6, 0x8E6C3698, 0x94EA7B2A, 0x9D684044,
     0xEDF73B3E, 0xE4750050, 0xFEF34DE2, 0xF771768C, 0xCBFFD686, 0xC27DEDE8, 0xD8FBA05A, 0xD1799B34,
     0x738AAD5C, 0x7A089632, 0x608EDB80, 0x690CE0EE, 0x558240E4, 0x5C007B8A, 0x46863638, 0x4F040D56,
     0x3F9B762C, 0x36194D42, 0x2C9F00F0, 0x251D3B9E, 0x19939B94, 0x1011A0FA, 0x0A97ED48, 0x0315D626,
     0xEBA91BBC, 0xE22B20D2, 0xF8AD6D60, 0xF12F560E, 0xCDA1F604, 0xC423CD6A, 0xDEA580D8, 0xD727BBB6,
     0xA7B8C0CC, 0xAE3AFBA2, 0xB4BCB610, 0xBD3E8D7E, 0x81B02D74, 0x8832161A, 0x92B45BA8, 0x9B3660C6,
     0x4A4FFBF2, 0x43CDC09C, 0x594B8D2E, 0x50C9B640, 0x6C47164A, 0x65C52D24, 0x7F436096, 0x76C15BF8,
     0x065E2082, 0x0FDC1BEC, 0x155A565E, 0x1CD86D30, 0x2056CD3A, 0x29D4F654, 0x3352BBE6, 0x3AD08088,
     0xD26C4D12, 0xDBEE767C, 0xC1683BCE, 0xC8EA00A0, 0xF464A0AA, 0xFDE69BC4, 0xE760D676, 0xEEE2ED18,
     0x9E7D9662, 0x97FFAD0C, 0x8D79E0BE, 0x84FBDBD0, 0xB8757BDA, 0xB1F740B4, 0xAB710D06, 0xA2F33668,
     0xE7155AB8, 0xEE9761D6, 0xF4112C64, 0xFD93170A, 0xC11DB700, 0xC89F8C6E, 0xD219C1DC, 0xDB9BFAB2,
     0xAB0481C8, 0xA286BAA6, 0xB800F714, 0xB182CC7A, 0x8D0C6C70, 0x848E571E, 0x9E081AAC, 0x978A21C2,
     0x7F36EC58, 0x76B4D736, 0x6C329A84, 0x65B0A1EA, 0x593E01E0, 0x50BC3A8E, 0x4A3A773C, 0x43B84C52,
     0x33273728, 0x3AA50C46, 0x202341F4, 0x29A17A9A, 0x152FDA90, 0x1CADE1FE, 0x062BAC4C, 0x0FA99722,
     0xDED00C16, 0xD7523778, 0xCDD47ACA, 0xC45641A4, 0xF8D8E1AE, 0xF15ADAC0, 0xEBDC9772, 0xE25EAC1C,
     0x92C1D766, 0x9B43EC08, 0x81C5A1BA, 0x88479AD4, 0xB4C93ADE, 0xBD4B01B0, 0xA7CD4C02, 0xAE4F776C,
     0x46F3BAF6, 0x4F718198, 0x55F7CC2A, 0x5C75F744, 0x60FB574E, 0x69796C20, 0x73FF2192, 0x7A7D1AFC,
     0x0AE26186, 0x03605AE8, 0x19E6175A, 0x10642C34, 0x2CEA8C3E, 0x2568B750, 0x3FEEFAE2, 0x366CC18C,
     0x949FF7E4, 0x9D1DCC8A, 0x879B8138, 0x8E19BA56, 0xB2971A5C, 0xBB152132, 0xA1936C80, 0xA81157EE,
     0xD88E2C94, 0xD10C17FA, 0xCB8A5A48, 0xC2086126, 0xFE86C12C, 0xF704FA42, 0xED82B7F0, 0xE4008C9E,
     0x0CBC4104, 0x053E7A6A, 0x1FB837D8, 0x163A0CB6, 0x2AB4ACBC, 0x233697D2, 0x39B0DA60, 0x3032E10E,
     0x40AD9A74, 0x492FA11A, 0x53A9ECA8, 0x5A2BD7C6, 0x66A577CC, 0x6F274CA2, 0x75A10110, 0x7C233A7E,
     0xAD5AA14A, 0xA4D89A24, 0xBE5ED796, 0xB7DCECF8, 0x8B524CF2, 0x82D0779C, 0x98563A2E, 0x91D40140,
     0xE14B7A3A, 0xE8C94154, 0xF24F0CE6, 0xFBCD3788, 0xC7439782, 0xCEC1ACEC, 0xD447E15E, 0xDDC5DA30,
     0x357917AA, 0x3CFB2CC4, 0x267D6176, 0x2FFF5A18, 0x1371FA12, 0x1AF3C17C, 0x00758CCE, 0x09F7B7A0,
     0x7968CCDA, 0x70EAF7B4, 0x6A6CBA06, 0x63EE8168, 0x5F602162, 0x56E21A0C, 0x4C6457BE, 0x45E66CD0]"

definition crc32_update :: "uint32 \<Rightarrow> byte \<Rightarrow> uint32" where
  "crc32_update crc b =
     (push_bit 8 crc XOR crc32_table ! unat ((drop_bit 24 crc XOR ucast b) AND 0xFF)) AND 0xFFFFFFFF"

function crc32_loop :: "mem \<Rightarrow> addr \<Rightarrow> size_t \<Rightarrow> size_t \<Rightarrow> uint32 \<Rightarrow> uint32" where
  "crc32_loop m data len i crc =
     (if i < len then crc32_loop m data len (i + 1) (crc32_update crc (m (data + unat i))) else crc)"
  by pat_completeness auto
termination
  by (relation "measure (\<lambda>(m, data, len, i, crc). unat (len - i))") (auto simp: measure_dec_size)

declare crc32_loop.simps [simp del]

definition calculate_crc32_with_initial :: "mem \<Rightarrow> addr \<Rightarrow> size_t \<Rightarrow> uint32 \<Rightarrow> uint32" where
  "calculate_crc32_with_initial m data len initial_crc = crc32_loop m data len 0 initial_crc"

definition calculate_crc32 :: "mem \<Rightarrow> addr \<Rightarrow> size_t \<Rightarrow> uint32" where
  "calculate_crc32 m data len = calculate_crc32_with_initial m data len 0xFFFFFFFF"

text \<open>The index expressions \<open>length + 1\<close>, \<open>length - 4\<close> are size_t arithmetic and wrap.\<close>

definition append_crc32 :: "mem \<Rightarrow> addr \<Rightarrow> size_t \<Rightarrow> mem \<times> size_t" where
  "append_crc32 m data len =
     (if data = nullptr then (m, len)
      else
        let crc = calculate_crc32 m data len
        in (m(data + unat len := ucast (crc AND 0xFF),
              data + unat (len + 1) := ucast (drop_bit 8 crc AND 0xFF),
              data + unat (len + 2) := ucast (drop_bit 16 crc AND 0xFF),
              data + unat (len + 3) := ucast (drop_bit 24 crc AND 0xFF)),
            len + 4))"

text \<open>
  \<open>crc_out\<close> is the variable behind the out-parameter: \<open>None\<close> for a null pointer,
  otherwise its content, returned updated.
\<close>

definition extract_crc32 :: "mem \<Rightarrow> addr \<Rightarrow> size_t \<Rightarrow> uint32 option \<Rightarrow> size_t \<times> uint32 option" where
  "extract_crc32 m data len crc_out =
     (if data = nullptr \<or> len < 4 \<or> crc_out = None then (0, crc_out)
      else
        (len - 4,
         Some (ucast (m (data + unat (len - 4))) OR
               push_bit 8 (ucast (m (data + unat (len - 3)))) OR
               push_bit 16 (ucast (m (data + unat (len - 2)))) OR
               push_bit 24 (ucast (m (data + unat (len - 1)))))))"

text \<open>
  \<open>stored_crc\<close> is declared without an initial value; the guard in front makes
  \<open>extract_crc32\<close> overwrite it, so the initial 0 of the model is never read.
\<close>

definition verify_crc32 :: "mem \<Rightarrow> addr \<Rightarrow> size_t \<Rightarrow> bool" where
  "verify_crc32 m data len =
     (if data = nullptr \<or> len < 4 then False
      else
        case extract_crc32 m data len (Some 0) of
          (data_length, stored_crc) \<Rightarrow>
            if data_length = 0 then False
            else Some (calculate_crc32 m data data_length) = stored_crc)"

section \<open>The bit-serial reference\<close>

definition crc_shift :: "uint32 \<Rightarrow> uint32 \<Rightarrow> uint32" where
  "crc_shift poly c = (if bit c 31 then push_bit 1 c XOR poly else push_bit 1 c)"

definition crc_byte :: "uint32 \<Rightarrow> uint32 \<Rightarrow> byte \<Rightarrow> uint32" where
  "crc_byte poly c b = (crc_shift poly ^^ 8) (c XOR push_bit 24 (ucast b))"

definition crc_bytes :: "uint32 \<Rightarrow> uint32 \<Rightarrow> byte list \<Rightarrow> uint32" where
  "crc_bytes poly c xs = foldl (crc_byte poly) c xs"

text \<open>The generator of the table in the source.\<close>

definition crc_generator :: uint32 where
  "crc_generator = 0x09823B6E"

section \<open>Linear maps\<close>

lemma xor_eq_0_iff_word: "(x :: 'a::len word) XOR y = 0 \<longleftrightarrow> x = y"
  by (auto simp: bit_eq_iff bit_simps)

text \<open>
  Everything the checksum does is linear over exclusive or. What this gives for the
  iterates of a map is stated once, for any such map.
\<close>

locale xor_linear =
  fixes f :: "'a::len word \<Rightarrow> 'a word"
  assumes lin: "f (x XOR y) = f x XOR f y"
begin

lemma zero [simp]: "f 0 = 0"
  using lin [of 0 0] by simp

lemma iter: "(f ^^ n) (x XOR y) = (f ^^ n) x XOR (f ^^ n) y"
  by (induction n) (simp_all add: lin)

lemma iter_zero [simp]: "(f ^^ n) 0 = 0"
  by (induction n) simp_all

lemma iter_eq_iff: "(f ^^ n) x = (f ^^ n) y \<longleftrightarrow> (f ^^ n) (x XOR y) = 0"
  by (simp add: iter xor_eq_0_iff_word)

end

lemma crc_shift_xor: "crc_shift poly (x XOR y) = crc_shift poly x XOR crc_shift poly y"
  by (simp add: crc_shift_def bit_xor_iff ac_simps)

interpretation shift: xor_linear "crc_shift poly" for poly
  by unfold_locales (rule crc_shift_xor)

lemma crc_shift_free:
  fixes x :: uint32
  assumes "n \<le> 32" and "\<And>i. 32 - n \<le> i \<Longrightarrow> \<not> bit x i"
  shows "(crc_shift poly ^^ n) x = push_bit n x"
  using assms
proof (induction n)
  case 0
  then show ?case by simp
next
  case (Suc n)
  then have "(crc_shift poly ^^ n) x = push_bit n x" by simp
  moreover have "\<not> bit (push_bit n x) 31"
    using Suc.prems by (simp add: bit_simps)
  then have "crc_shift poly (push_bit n x) = push_bit (Suc n) x"
    by (simp add: crc_shift_def push_bit_Suc mult.commute push_bit_double)
  ultimately show ?case
    by simp
qed

lemma shift8_byte: "(crc_shift poly ^^ 8) (push_bit k (ucast (b :: byte))) = push_bit (k + 8) (ucast b)"
  if "k \<le> 16"
proof -
  have "\<not> bit (push_bit k (ucast b :: uint32)) i" if "32 - 8 \<le> i" for i
    using that \<open>k \<le> 16\<close> bit_imp_le_length [of b] by (fastforce simp: bit_simps)
  then show ?thesis
    by (subst crc_shift_free) (simp_all add: add.commute)
qed

section \<open>The table-driven update computes the bit-serial one\<close>

lemma funpow_8: "(f ^^ 8) x = f (f (f (f (f (f (f (f x)))))))"
  by (simp add: numeral_eq_Suc)

text \<open>
  All exclusive-or combinations of a list of words, in the order of the binary numerals:
  for a linear map this is the table of its values.
\<close>

definition xor_span :: "uint32 list \<Rightarrow> uint32 list" where
  "xor_span bs = foldl (\<lambda>t e. t @ map ((XOR) e) t) [0] bs"

lemma upt_double: "[0..<2 ^ Suc n] = [0..<2 ^ n] @ map (\<lambda>i. 2 ^ n + i) [0..<2 ^ n]"
proof -
  have "[0..<2 ^ Suc n] = [0..<2 ^ n] @ [2 ^ n..<2 ^ n + 2 ^ n]"
    by (metis less_eq_nat.simps(1) mult_2 power_Suc upt_add_eq_append)
  also have "[2 ^ n..<2 ^ n + 2 ^ n] = map (\<lambda>i. 2 ^ n + i) [0..<2 ^ n]"
    by (rule nth_equalityI) simp_all
  finally show ?thesis .
qed

lemma xor_pow2_nat:
  assumes "n < 32" and "i < 2 ^ n"
  shows "(of_nat (2 ^ n + i) :: uint32) = 2 ^ n XOR of_nat i"
proof -
  have "(2 ^ n :: uint32) AND of_nat i = 0"
    using assms(2) by (intro bit_word_eqI) (auto simp: bit_simps bit_iff_odd [of i])
  then show ?thesis
    by (simp add: disjunctive_add_eq_xor)
qed


lemma xor_span_map:
  fixes f :: "uint32 \<Rightarrow> uint32"
  assumes "\<And>x y. f (x XOR y) = f x XOR f y" and "n \<le> 32"
  shows "xor_span (map (\<lambda>k. f (2 ^ k)) [0..<n]) = map (\<lambda>i. f (of_nat i)) [0..<2 ^ n]"
  using assms(2)
proof (induction n)
  case 0
  have "f 0 = 0" using assms(1) [of 0 0] by simp
  then show ?case by (simp add: xor_span_def)
next
  case (Suc n)
  have "map (\<lambda>i. f (of_nat (2 ^ n + i))) [0..<2 ^ n] = map (\<lambda>i. f (2 ^ n) XOR f (of_nat i)) [0..<2 ^ n]"
    using Suc.prems by (intro map_cong) (simp_all only: xor_pow2_nat assms(1) set_upt atLeastLessThan_iff Suc_le_eq)
  with Suc show ?case
    by (simp add: xor_span_def upt_double comp_def del: power_Suc of_nat_add)
qed

lemma crc_basis:
  "map (\<lambda>k. (crc_shift crc_generator ^^ 8) (push_bit 24 (2 ^ k))) [0..<8] =
   [0x09823B6E, 0x130476DC, 0x2608EDB8, 0x4C11DB70, 0x9823B6E0, 0x39C556AE, 0x738AAD5C, 0xE7155AB8]"
  by (simp add: upt_rec funpow_8 crc_shift_def crc_generator_def)

lemma crc32_table_span:
  "crc32_table =
   xor_span [0x09823B6E, 0x130476DC, 0x2608EDB8, 0x4C11DB70, 0x9823B6E0, 0x39C556AE, 0x738AAD5C, 0xE7155AB8]"
  by (simp add: crc32_table_def xor_span_def)

lemma crc32_table_eq:
  "crc32_table = map (\<lambda>i. (crc_shift crc_generator ^^ 8) (push_bit 24 (of_nat i))) [0..<256]"
  using xor_span_map [of "\<lambda>x. (crc_shift crc_generator ^^ 8) (push_bit 24 x)" 8]
  unfolding crc_basis crc32_table_span by (simp add: shift.iter)

lemma crc32_table_nth:
  "unat x < 256 \<Longrightarrow> crc32_table ! unat x = (crc_shift crc_generator ^^ 8) (push_bit 24 x)"
  by (simp add: crc32_table_eq)

lemma top_byte_index:
  fixes c :: uint32 and b :: byte
  shows "(drop_bit 24 c XOR ucast b) AND 0xFF = drop_bit 24 c XOR ucast b"
    and "unat (drop_bit 24 c XOR ucast b) < 256"
proof -
  have *: "take_bit 8 (drop_bit 24 c XOR ucast b) = drop_bit 24 c XOR (ucast b :: uint32)"
    by (rule bit_word_eqI) (auto simp: bit_simps dest: bit_imp_le_length)
  show "(drop_bit 24 c XOR ucast b) AND 0xFF = drop_bit 24 c XOR ucast b"
    using * by (simp add: take_bit_eq_mask mask_numeral)
  have "unat (take_bit 8 w) < 256" for w :: uint32
    using take_bit_nat_less_exp [of 8 "unat w"] by (simp add: unsigned_take_bit_eq)
  from this [of "drop_bit 24 c XOR ucast b"] show "unat (drop_bit 24 c XOR ucast b) < 256"
    by (simp only: *)
qed

lemma crc32_update_eq: "crc32_update c b = crc_byte crc_generator c b"
proof -
  let ?i = "drop_bit 24 c XOR ucast b" and ?S = "crc_shift crc_generator ^^ 8"
  have low: "?S (take_bit 24 c) = push_bit 8 c"
    by (subst crc_shift_free) (auto simp: bit_simps intro!: bit_word_eqI)
  have split: "c XOR push_bit 24 (ucast b) = take_bit 24 c XOR push_bit 24 ?i"
    by (rule bit_word_eqI) (auto simp: bit_simps)
  have "crc32_update c b = (push_bit 8 c XOR ?S (push_bit 24 ?i)) AND 0xFFFFFFFF"
    by (simp add: crc32_update_def top_byte_index crc32_table_nth)
  also have "(0xFFFFFFFF :: uint32) = - 1"
    by simp
  also have "(push_bit 8 c XOR ?S (push_bit 24 ?i)) AND - 1 = push_bit 8 c XOR ?S (push_bit 24 ?i)"
    by (simp only: and.right_neutral)
  also have "\<dots> = crc_byte crc_generator c b"
    unfolding crc_byte_def split by (simp add: shift.iter low)
  finally show ?thesis .
qed

lemma crc32_loop_eq:
  "i \<le> len \<Longrightarrow> crc32_loop m data len i crc =
     crc_bytes crc_generator crc (mem_range m (data + unat i) (unat len - unat i))"
proof (induction m data len i crc rule: crc32_loop.induct)
  case (1 m data len i crc)
  show ?case
  proof (cases "i < len")
    case True
    then have step: "unat (i + 1) = Suc (unat i)" and "i + 1 \<le> len"
      by (simp_all add: unat_inc inc_le)
    have "unat len - unat i = Suc (unat len - Suc (unat i))"
      using True by (simp add: word_less_nat_alt)
    with True 1 \<open>i + 1 \<le> len\<close> show ?thesis
      by (simp add: crc32_loop.simps [of m data len i] step mem_range_Suc crc_bytes_def crc32_update_eq)
  next
    case False
    with "1.prems" show ?thesis
      by (simp add: crc32_loop.simps [of m data len len] crc_bytes_def)
  qed
qed

lemma calculate_crc32_with_initial_eq:
  "calculate_crc32_with_initial m data len c = crc_bytes crc_generator c (mem_range m data (unat len))"
  by (simp add: calculate_crc32_with_initial_def crc32_loop_eq)

definition crc_of :: "byte list \<Rightarrow> uint32" where
  "crc_of xs = crc_bytes crc_generator 0xFFFFFFFF xs"

lemma calculate_crc32_eq: "calculate_crc32 m data len = crc_of (mem_range m data (unat len))"
  by (simp add: calculate_crc32_def calculate_crc32_with_initial_eq crc_of_def)

section \<open>Differences of checksums\<close>

lemma crc_bytes_append: "crc_bytes poly c (xs @ ys) = crc_bytes poly (crc_bytes poly c xs) ys"
  by (simp add: crc_bytes_def)

lemma crc_byte_diff: "crc_byte poly c a XOR crc_byte poly d b = crc_byte poly (c XOR d) (a XOR b)"
proof -
  have "(c XOR push_bit 24 (ucast a)) XOR (d XOR push_bit 24 (ucast b)) =
      (c XOR d) XOR push_bit 24 (ucast (a XOR b) :: uint32)"
    by (rule bit_word_eqI) (auto simp: bit_simps)
  then show ?thesis
    by (simp only: crc_byte_def flip: shift.iter)
qed

lemma crc_bytes_same_tail:
  "crc_bytes poly c xs XOR crc_bytes poly d xs = (crc_shift poly ^^ (8 * length xs)) (c XOR d)"
proof (induction xs rule: rev_induct)
  case Nil
  then show ?case by (simp add: crc_bytes_def)
next
  case (snoc x xs)
  have "crc_byte poly (crc_bytes poly c xs) x XOR crc_byte poly (crc_bytes poly d xs) x =
      (crc_shift poly ^^ 8) ((crc_shift poly ^^ (8 * length xs)) (c XOR d))"
    by (simp only: crc_byte_diff snoc.IH) (simp add: crc_byte_def)
  then show ?case
    by (simp add: crc_bytes_append crc_bytes_def [of _ _ "[x]"] funpow_add)
qed

text \<open>Four bytes in transmission order, as the word the generator divides.\<close>

definition be32 :: "byte list \<Rightarrow> uint32" where
  "be32 xs = push_bit 24 (ucast (xs ! 0)) XOR push_bit 16 (ucast (xs ! 1)) XOR
     push_bit 8 (ucast (xs ! 2)) XOR ucast (xs ! 3)"

lemma crc_block4: "length xs = 4 \<Longrightarrow> crc_bytes poly c xs = (crc_shift poly ^^ 32) (c XOR be32 xs)"
proof -
  assume "length xs = 4"
  then obtain x0 x1 x2 x3 where xs: "xs = [x0, x1, x2, x3]"
    by (auto simp: length_Suc_conv numeral_eq_Suc)
  let ?S = "crc_shift poly ^^ 8"
  have S32: "(crc_shift poly ^^ 32) w = ?S (?S (?S (?S w)))" for w
    by (simp flip: funpow_add o_apply [of "_ ^^ 8"])
  have "crc_bytes poly c xs =
      ?S (?S (?S (?S (c XOR push_bit 24 (ucast x0)) XOR push_bit 24 (ucast x1))
        XOR push_bit 24 (ucast x2)) XOR push_bit 24 (ucast x3))"
    by (simp add: xs crc_bytes_def crc_byte_def)
  also have "\<dots> = (crc_shift poly ^^ 32) (c XOR be32 xs)"
    using shift8_byte [of 16 poly x1] shift8_byte [of 16 poly x2] shift8_byte [of 8 poly x2]
      shift8_byte [of 16 poly x3] shift8_byte [of 8 poly x3] shift8_byte [of 0 poly x3]
    by (simp add: S32 be32_def xs shift.iter ac_simps)
  finally show ?thesis .
qed

section \<open>What the generator detects\<close>

text \<open>
  The generator has no constant term, so one shift loses information: besides 0 exactly
  one word is shifted to 0. It is odd, and every result of a shift is even, so nothing
  further is lost in later shifts.
\<close>

definition lost_word :: uint32 where
  "lost_word = 0x84C11DB7"

lemma bit_shl1: "bit (push_bit 1 (w :: uint32)) n \<longleftrightarrow> 0 < n \<and> n < 32 \<and> bit w (n - 1)"
  by (auto simp: bit_push_bit_iff simp del: push_bit_Suc One_nat_def)

lemma crc_shift_zero_iff: "crc_shift crc_generator w = 0 \<longleftrightarrow> w = 0 \<or> w = lost_word"
proof
  assume z: "crc_shift crc_generator w = 0"
  have w: "w = take_bit 31 w OR (if bit w 31 then 2 ^ 31 else 0)"
    by (rule bit_word_eqI) (auto simp: bit_simps less_Suc_eq numeral_eq_Suc)
  have low: "take_bit 31 w = drop_bit 1 (push_bit 1 w)"
    by (rule bit_word_eqI)
      (auto simp: bit_take_bit_iff bit_drop_bit_eq bit_shl1 simp del: push_bit_Suc One_nat_def)
  show "w = 0 \<or> w = lost_word"
  proof (cases "bit w 31")
    case True
    with z have "push_bit 1 w = crc_generator"
      by (simp add: crc_shift_def xor_eq_0_iff_word)
    with w low True show ?thesis
      by (simp add: crc_generator_def lost_word_def)
  next
    case False
    with z have "push_bit 1 w = 0"
      by (simp add: crc_shift_def)
    with w low False show ?thesis by simp
  qed
qed (auto simp: crc_shift_def crc_generator_def lost_word_def)

lemma crc_shift_even: "\<not> bit (crc_shift crc_generator w) 0"
  by (simp add: crc_shift_def crc_generator_def bit_xor_iff bit_shl1 del: push_bit_Suc One_nat_def)

lemma shift_iter_zero_iff:
  "(crc_shift crc_generator ^^ Suc n) w = 0 \<longleftrightarrow> w = 0 \<or> w = lost_word"
proof (induction n)
  case 0
  then show ?case by (simp add: crc_shift_zero_iff)
next
  case (Suc n)
  have "\<not> bit ((crc_shift crc_generator ^^ Suc n) w) 0"
    by (simp add: crc_shift_even)
  moreover have "bit lost_word 0"
    by (simp add: lost_word_def)
  ultimately have "(crc_shift crc_generator ^^ Suc n) w \<noteq> lost_word"
    by metis
  then show ?case
    using crc_shift_zero_iff [of "(crc_shift crc_generator ^^ Suc n) w"] Suc by simp
qed

lemma be32_inject:
  assumes "length xs = 4" and "length ys = 4" and "be32 xs = be32 ys"
  shows "xs = ys"
proof -
  obtain x0 x1 x2 x3 y0 y1 y2 y3 where xs: "xs = [x0, x1, x2, x3]" and ys: "ys = [y0, y1, y2, y3]"
    using assms(1,2) by (auto simp: length_Suc_conv numeral_eq_Suc)
  have bits: "bit (be32 [z0, z1, z2, z3]) i =
     (if i < 8 then bit z3 i else if i < 16 then bit z2 (i - 8)
      else if i < 24 then bit z1 (i - 16) else bit z0 (i - 24))" if "i < 32" for z0 z1 z2 z3 i
    using that by (auto simp: be32_def bit_simps dest: bit_imp_le_length)
  have eq: "bit (be32 [x0, x1, x2, x3]) i = bit (be32 [y0, y1, y2, y3]) i" for i
    using assms(3) by (simp add: xs ys)
  have "bit x3 n = bit y3 n" "bit x2 n = bit y2 n" "bit x1 n = bit y1 n" "bit x0 n = bit y0 n"
    if "n < 8" for n
    using that eq [of n] eq [of "n + 8"] eq [of "n + 16"] eq [of "n + 24"] by (simp_all add: bits)
  then have "x3 = y3" "x2 = y2" "x1 = y1" "x0 = y0"
    by (auto intro!: bit_word_eqI)
  then show ?thesis by (simp add: xs ys)
qed

text \<open>
  A corruption confined to four consecutive bytes changes the checksum unless the two
  blocks differ by exactly the lost word.
\<close>

lemma crc_block_collision:
  assumes "length a = 4" and "length b = 4"
  shows "crc_of (pre @ a @ post) = crc_of (pre @ b @ post) \<longleftrightarrow> a = b \<or> be32 a XOR be32 b = lost_word"
proof -
  let ?s = "crc_bytes crc_generator 0xFFFFFFFF pre"
  let ?S = "crc_shift crc_generator"
  have "crc_bytes crc_generator ?s a XOR crc_bytes crc_generator ?s b =
      (?S ^^ 32) ((?s XOR be32 a) XOR (?s XOR be32 b))"
    by (simp only: crc_block4 assms shift.iter)
  also have "(?s XOR be32 a) XOR (?s XOR be32 b) = be32 a XOR be32 b"
    by (rule bit_word_eqI) (auto simp: bit_simps)
  finally have "crc_of (pre @ a @ post) XOR crc_of (pre @ b @ post) =
      (?S ^^ (8 * length post)) ((?S ^^ 32) (be32 a XOR be32 b))"
    by (simp add: crc_of_def crc_bytes_append crc_bytes_same_tail)
  also have "\<dots> = (?S ^^ (8 * length post + 32)) (be32 a XOR be32 b)"
    by (simp add: funpow_add)
  also have "8 * length post + 32 = Suc (8 * length post + 31)"
    by simp
  finally have "crc_of (pre @ a @ post) = crc_of (pre @ b @ post) \<longleftrightarrow>
      be32 a = be32 b \<or> be32 a XOR be32 b = lost_word"
    using xor_eq_0_iff_word [of "crc_of (pre @ a @ post)" "crc_of (pre @ b @ post)"]
      xor_eq_0_iff_word [of "be32 a" "be32 b"] by (simp only: shift_iter_zero_iff)
  then show ?thesis
    using be32_inject [OF assms] by auto
qed

lemma be32_bit0: "length xs = 4 \<Longrightarrow> bit (be32 xs) 0 = bit (xs ! 3) 0"
  by (simp add: be32_def bit_simps)

lemma crc_short_detect:
  assumes "length a = length b" and "length a \<le> 3" and "a \<noteq> b"
  shows "crc_of (pre @ a @ post) \<noteq> crc_of (pre @ b @ post)"
proof
  assume "crc_of (pre @ a @ post) = crc_of (pre @ b @ post)"
  then have eq: "crc_of (pre @ a @ post @ [0, 0, 0]) = crc_of (pre @ b @ post @ [0, 0, 0])"
    by (simp add: crc_of_def crc_bytes_append)
  define k where "k = 4 - length a"
  define t where "t = take k (post @ [0, 0, 0])"
  define u where "u = drop k (post @ [0, 0, 0])"
  have "a \<noteq> []" using assms(1,3) by auto
  then have "k \<le> 3" by (cases a) (simp_all add: k_def)
  then have t: "length t = k" by (simp add: t_def)
  have tu: "post @ [0, 0, 0] = t @ u" by (simp only: t_def u_def append_take_drop_id)
  have len: "length (a @ t) = 4" "length (b @ t) = 4"
    using t assms by (simp_all add: k_def)
  have "crc_of (pre @ (a @ t) @ u) = crc_of (pre @ (b @ t) @ u)"
    using eq by (simp add: tu)
  then have "a @ t = b @ t \<or> be32 (a @ t) XOR be32 (b @ t) = lost_word"
    by (simp only: crc_block_collision [OF len])
  with assms(3) have "bit (be32 (a @ t) XOR be32 (b @ t)) 0"
    by (simp add: lost_word_def)
  moreover have "(a @ t) ! 3 = (b @ t) ! 3"
    using assms(1,2) by (simp add: nth_append)
  ultimately show False
    using len by (simp add: bit_xor_iff be32_bit0)
qed

section \<open>Checksums in memory\<close>

definition le_bytes :: "uint32 \<Rightarrow> byte list" where
  "le_bytes c = [ucast (c AND 0xFF), ucast (drop_bit 8 c AND 0xFF),
     ucast (drop_bit 16 c AND 0xFF), ucast (drop_bit 24 c AND 0xFF)]"

definition le32 :: "byte list \<Rightarrow> uint32" where
  "le32 xs = ucast (xs ! 0) OR push_bit 8 (ucast (xs ! 1)) OR
     push_bit 16 (ucast (xs ! 2)) OR push_bit 24 (ucast (xs ! 3))"

lemma length_le_bytes [simp]: "length (le_bytes c) = 4"
  by (simp add: le_bytes_def)

lemma bit_mask8: "bit (0xFF :: int) i \<longleftrightarrow> i < 8"
proof -
  have "(0xFF :: int) = mask 8" by (simp add: mask_eq_exp_minus_1)
  then show ?thesis by (simp only: bit_mask_iff) auto
qed

lemma le32_le_bytes [simp]: "le32 (le_bytes c) = c"
proof (rule bit_word_eqI)
  fix n
  assume n: "n < LENGTH(32)"
  consider "n < 8" | "8 \<le> n" "n < 16" | "16 \<le> n" "n < 24" | "24 \<le> n" by linarith
  then show "bit (le32 (le_bytes c)) n = bit c n"
    using n by cases (auto simp: le32_def le_bytes_def bit_simps bit_mask8)
qed

lemma append_crc32_eq:
  assumes "data \<noteq> nullptr" and "unat len + 4 < 2 ^ 64"
  shows "append_crc32 m data len =
    (mem_write m (data + unat len) (le_bytes (crc_of (mem_range m data (unat len)))), len + 4)"
proof -
  have "unat (len + 1) = unat len + 1" "unat (len + 2) = unat len + 2" "unat (len + 3) = unat len + 3"
    using assms(2) by (simp_all add: unat_word_ariths)
  with assms(1) show ?thesis
    by (simp add: append_crc32_def calculate_crc32_eq le_bytes_def Let_def numeral_2_eq_2 numeral_3_eq_3)
qed

lemma extract_crc32_eq:
  assumes "data \<noteq> nullptr" and "4 \<le> len"
  shows "extract_crc32 m data len (Some v) =
    (len - 4, Some (le32 (mem_range m (data + (unat len - 4)) 4)))"
proof -
  have l: "4 \<le> unat len" using assms(2) by (simp add: word_le_nat_alt)
  then have "unat (len - 4) = unat len - 4" "unat (len - 3) = unat len - 4 + 1"
    "unat (len - 2) = unat len - 4 + 2" "unat (len - 1) = unat len - 4 + 3"
    by (simp_all add: unat_sub word_le_nat_alt)
  moreover have "\<not> len < 4" using assms(2) by (simp add: not_less)
  ultimately show ?thesis
    using assms(1) by (simp add: extract_crc32_def le32_def add.assoc)
qed

lemma verify_crc32_eq:
  "verify_crc32 m data len \<longleftrightarrow> data \<noteq> nullptr \<and> 4 < len \<and>
     crc_of (mem_range m data (unat len - 4)) = le32 (mem_range m (data + (unat len - 4)) 4)"
proof (cases "data = nullptr \<or> len < 4")
  case True
  then show ?thesis by (auto simp: verify_crc32_def)
next
  case False
  then have le: "4 \<le> len" by (simp add: not_less)
  then have "unat (len - 4) = unat len - 4"
    by (simp add: unat_sub)
  moreover have "len - 4 = 0 \<longleftrightarrow> \<not> 4 < len"
    using le by auto
  ultimately show ?thesis
    using False le by (auto simp: verify_crc32_def extract_crc32_eq calculate_crc32_eq)
qed

lemma verify_crc32_list:
  assumes "data \<noteq> nullptr" and "mem_range m data (unat len) = xs @ ys" and "length ys = 4"
  shows "verify_crc32 m data len \<longleftrightarrow> xs \<noteq> [] \<and> crc_of xs = le32 ys"
proof -
  have len: "unat len = length xs + 4"
    using assms(2,3) by (metis length_append length_mem_range)
  have "mem_range m data (length xs) @ mem_range m (data + length xs) 4 = xs @ ys"
    using assms(2) by (simp only: len mem_range_add)
  then have "mem_range m data (length xs) = xs" "mem_range m (data + length xs) 4 = ys"
    by (simp_all add: append_eq_append_conv)
  with assms(1) len show ?thesis
    by (auto simp: verify_crc32_eq word_less_nat_alt)
qed

section \<open>Properties of the checksum\<close>

text \<open>
  C22: the table-driven calculation computes the bit-serial MSB-first CRC of the memory
  range for the generator 0x09823B6E: every one of the 256 table entries is the one of
  that generator, and \<open>calculate_crc32_with_initial\<close> equals the bit-serial CRC from the
  given initial value, with no final exclusive or. That generator is not the declared
  CRC32_POLYNOMIAL 0x04C11DB7 but its double, and
  the difference shows: on the bytes of the text 123456789 the code computes 0xE73D231E
  while the CRC of the Ethernet polynomial is 0x0376E6E7.
\<close>

theorem calculate_crc32_bit_serial:
  "crc32_table = map (\<lambda>i. (crc_shift 0x09823B6E ^^ 8) (push_bit 24 (of_nat i))) [0..<256] \<and>
   calculate_crc32_with_initial m data len c = crc_bytes 0x09823B6E c (mem_range m data (unat len)) \<and>
   calculate_crc32 m data len = crc_bytes 0x09823B6E 0xFFFFFFFF (mem_range m data (unat len)) \<and>
   0x09823B6E = 2 * CRC32_POLYNOMIAL \<and>
   calculate_crc32 (mem_write (\<lambda>_. 0) 64 [0x31, 0x32, 0x33, 0x34, 0x35, 0x36, 0x37, 0x38, 0x39]) 64 9
     = 0xE73D231E \<and>
   crc_bytes CRC32_POLYNOMIAL 0xFFFFFFFF [0x31, 0x32, 0x33, 0x34, 0x35, 0x36, 0x37, 0x38, 0x39]
     = 0x0376E6E7"
proof -
  let ?xs = "[0x31, 0x32, 0x33, 0x34, 0x35, 0x36, 0x37, 0x38, 0x39] :: byte list"
  have "mem_range (mem_write (\<lambda>_. 0) 64 ?xs) 64 (unat (9 :: size_t)) = ?xs"
    by (simp add: slip_eval)
  moreover have "crc_bytes crc_generator 0xFFFFFFFF ?xs = 0xE73D231E"
    by (simp add: crc_bytes_def crc_byte_def funpow_8 crc_shift_def crc_generator_def)
  ultimately have "calculate_crc32 (mem_write (\<lambda>_. 0) 64 ?xs) 64 9 = 0xE73D231E"
    by (simp only: calculate_crc32_eq crc_of_def)
  moreover have "crc_bytes CRC32_POLYNOMIAL 0xFFFFFFFF ?xs = 0x0376E6E7"
    by (simp add: crc_bytes_def crc_byte_def funpow_8 crc_shift_def CRC32_POLYNOMIAL_def)
  moreover have "(0x09823B6E :: uint32) = 2 * CRC32_POLYNOMIAL"
    by (simp add: CRC32_POLYNOMIAL_def)
  ultimately show ?thesis
    using crc32_table_eq calculate_crc32_with_initial_eq calculate_crc32_eq
    by (simp only: crc_generator_def crc_of_def simp_thms)
qed

text \<open>
  C25: incremental calculation. Continuing from the checksum of a first part over a
  second part that follows it in memory gives the checksum of the whole.
\<close>

theorem crc32_incremental:
  assumes "unat n + unat k < 2 ^ 64"
  shows "calculate_crc32_with_initial m (data + unat n) k (calculate_crc32 m data n) =
    calculate_crc32 m data (n + k)"
proof -
  have "unat (n + k) = unat n + unat k"
    using assms by (simp add: unat_word_ariths)
  then show ?thesis
    by (simp add: calculate_crc32_with_initial_eq calculate_crc32_eq crc_of_def mem_range_add crc_bytes_append)
qed

theorem crc32_incremental_witness:
  "calculate_crc32_with_initial (\<lambda>_. 7) 12 3 (calculate_crc32 (\<lambda>_. 7) 10 2) = calculate_crc32 (\<lambda>_. 7) 10 5"
  using crc32_incremental [of 2 3 "\<lambda>_. 7" 10] by simp

text \<open>
  C23: appending, extracting and verifying agree. After \<open>append_crc32\<close> the buffer holds
  the data unchanged and four more bytes and nothing else in memory changes;
  \<open>extract_crc32\<close> returns the data length and the checksum of the data; \<open>verify_crc32\<close>
  accepts exactly when the data is not empty.
\<close>

theorem append_extract_verify:
  assumes "data \<noteq> nullptr" and "unat len + 4 < 2 ^ 64" and "append_crc32 m data len = (m', n)"
  shows "n = len + 4 \<and>
    mem_range m' data (unat len) = mem_range m data (unat len) \<and>
    (\<forall>a. a < data + unat len \<or> data + unat n \<le> a \<longrightarrow> m' a = m a) \<and>
    extract_crc32 m' data n (Some v) = (len, Some (calculate_crc32 m data len)) \<and>
    (verify_crc32 m' data n \<longleftrightarrow> len \<noteq> 0)"
proof -
  let ?d = "mem_range m data (unat len)"
  let ?c = "le_bytes (crc_of ?d)"
  have m': "m' = mem_write m (data + unat len) ?c" and n: "n = len + 4"
    using append_crc32_eq [OF assms(1,2)] assms(3) by simp_all
  have un: "unat n = unat len + 4"
    using assms(2) by (simp add: n unat_word_ariths)
  have pre: "mem_range m' data (unat len) = ?d"
    unfolding m' by (rule mem_range_write_outside) simp
  have suf: "mem_range m' (data + unat len) 4 = ?c"
    using mem_range_mem_write [of m "data + unat len" ?c] by (simp add: m')
  have "mem_range m' data (unat n) = ?d @ ?c"
    by (simp only: un mem_range_add pre suf)
  then have "verify_crc32 m' data n \<longleftrightarrow> ?d \<noteq> [] \<and> crc_of ?d = le32 ?c"
    by (rule verify_crc32_list [OF assms(1)]) simp
  moreover have "?d \<noteq> [] \<longleftrightarrow> len \<noteq> 0"
    by (metis length_0_conv length_mem_range unat_eq_zero)
  moreover have "4 \<le> n" by (simp add: word_le_nat_alt un)
  then have "extract_crc32 m' data n (Some v) = (len, Some (crc_of ?d))"
    using extract_crc32_eq [OF assms(1), of n m' v] un [unfolded n] suf by (simp add: n)
  moreover have "\<forall>a. a < data + unat len \<or> data + unat n \<le> a \<longrightarrow> m' a = m a"
    unfolding m' un by (auto intro!: mem_write_outside)
  ultimately show ?thesis
    using pre n by (simp add: calculate_crc32_eq)
qed

theorem append_extract_verify_witness:
  "let (m', n) = append_crc32 (\<lambda>_. 7) 10 5 in n = 9 \<and> verify_crc32 m' 10 n"
proof -
  obtain m' n where mn: "append_crc32 (\<lambda>_. 7) 10 5 = (m', n)" by fastforce
  from append_extract_verify [OF _ _ mn, of 0] show ?thesis
    by (auto simp: mn nullptr_def)
qed

text \<open>
  C24: which corruptions are detected. Every corruption of the data confined to at most
  three consecutive bytes is: a buffer that holds the corrupted data followed by the
  checksum of the original data is rejected by \<open>verify_crc32\<close>. Of the corruptions of
  four consecutive bytes exactly those go undetected where the
  two blocks, read in transmission order, differ by the word 0x84C11DB7. A CRC with a
  generator of full degree would miss none; here two payloads of four bytes share a
  checksum, for example 00 00 00 00 and 84 C1 1D B7.
\<close>

theorem crc32_error_detection:
  assumes "length a = length b"
  shows "(length a \<le> 3 \<and> a \<noteq> b \<and>
      mem_range m data (unat len) = (pre @ b @ post) @ le_bytes (crc_of (pre @ a @ post)) \<longrightarrow>
      \<not> verify_crc32 m data len) \<and>
    (length a = 4 \<and> mem_range m data (unat len) = pre @ a @ post \<and> mem_range m' data' (unat len') = pre @ b @ post \<longrightarrow>
      (calculate_crc32 m data len = calculate_crc32 m' data' len' \<longleftrightarrow> a = b \<or> be32 a XOR be32 b = 0x84C11DB7))"
proof (intro conjI impI)
  assume *: "length a \<le> 3 \<and> a \<noteq> b \<and>
    mem_range m data (unat len) = (pre @ b @ post) @ le_bytes (crc_of (pre @ a @ post))"
  show "\<not> verify_crc32 m data len"
  proof (cases "data = nullptr")
    case True
    then show ?thesis by (simp add: verify_crc32_def)
  next
    case False
    have "verify_crc32 m data len \<longleftrightarrow>
        pre @ b @ post \<noteq> [] \<and> crc_of (pre @ b @ post) = le32 (le_bytes (crc_of (pre @ a @ post)))"
      using * by (intro verify_crc32_list [OF False]) simp_all
    with crc_short_detect [OF assms, of pre post] * show ?thesis
      by simp
  qed
next
  assume "length a = 4 \<and> mem_range m data (unat len) = pre @ a @ post \<and> mem_range m' data' (unat len') = pre @ b @ post"
  then show "calculate_crc32 m data len = calculate_crc32 m' data' len' \<longleftrightarrow> a = b \<or> be32 a XOR be32 b = 0x84C11DB7"
    using crc_block_collision [of a b pre post] assms by (simp add: lost_word_def calculate_crc32_eq)
qed

theorem crc32_error_detection_witness:
  "\<not> verify_crc32 (mem_write (\<lambda>_. 0) 64 ([1, 2, 3] @ le_bytes (crc_of [1, 9, 3]))) 64 7 \<and>
   calculate_crc32 (mem_write (\<lambda>_. 0) 64 [0, 0, 0, 0]) 64 4 =
   calculate_crc32 (mem_write (\<lambda>_. 0) 64 [0x84, 0xC1, 0x1D, 0xB7]) 64 4"
proof -
  have "mem_range (mem_write (\<lambda>_. 0) 64 ([1, 2, 3] @ le_bytes (crc_of [1, 9, 3]))) 64 7 = [1, 2, 3] @ le_bytes (crc_of [1, 9, 3])"
    by (rule mem_range_mem_write_length) simp
  moreover have "mem_range (mem_write (\<lambda>_. 0) 64 [0, 0, 0, 0]) 64 4 = [0, 0, 0, 0]"
    "mem_range (mem_write (\<lambda>_. 0) 64 [0x84, 0xC1, 0x1D, 0xB7]) 64 4 = [0x84, 0xC1, 0x1D, 0xB7]"
    by (rule mem_range_mem_write_length, simp)+
  ultimately show ?thesis
    using crc32_error_detection
        [of "[9]" "[2]" "mem_write (\<lambda>_. 0) 64 ([1, 2, 3] @ le_bytes (crc_of [1, 9, 3]))" 64 7 "[1]" "[3]"]
      crc32_error_detection [of "[0, 0, 0, 0]" "[0x84, 0xC1, 0x1D, 0xB7]"
        "mem_write (\<lambda>_. 0) 64 [0, 0, 0, 0]" 64 4 "[]" "[]" "mem_write (\<lambda>_. 0) 64 [0x84, 0xC1, 0x1D, 0xB7]" 64 4]
    by (simp add: be32_def del: mem_write.simps)
qed

end
