(* ===== verification/Slip_Decoder.thy ===== *)
theory Slip_Decoder
  imports Slip_Spec
begin

text \<open>
  The stateful decoder, \<open>include/SLIPStream/Decoder.hpp\<close> and \<open>src/Decoder.cpp\<close>. The
  object is a record; the caller's receive buffer is the memory behind the \<open>rxbuf\<close>
  pointer, so that a write past \<open>rxbufSize\<close> is visible in the model; the callbacks are
  represented by the trace of their calls. Both single-byte operations refine the
  stream automaton of the specification wherever the buffer does not overflow.
\<close>

section \<open>Data\<close>

datatype LogType = LogUnknown | LogRXBufferOverflow

record LogInfo =
  log_type :: LogType
  log_error :: ErrorInfo
  log_message :: string

definition LogInfo_of_type :: "LogType \<Rightarrow> string \<Rightarrow> LogInfo" where
  "LogInfo_of_type t msg =
     \<lparr>log_type = t, log_error = ErrorInfo_of_code Success, log_message = msg\<rparr>"

definition LogInfo_of_code :: "ErrorCode \<Rightarrow> size_t \<Rightarrow> string \<Rightarrow> LogInfo" where
  "LogInfo_of_code c pos msg =
     \<lparr>log_type = LogUnknown, log_error = mk_ErrorInfo c pos msg, log_message = msg\<rparr>"

record ConsumeResult =
  consumed :: size_t
  cerror :: ErrorInfo
  has_error :: bool

definition ConsumeResult_ok :: "size_t \<Rightarrow> ConsumeResult" where
  "ConsumeResult_ok n = \<lparr>consumed = n, cerror = ErrorInfo_of_code Success, has_error = False\<rparr>"

definition ConsumeResult_err :: "ErrorCode \<Rightarrow> size_t \<Rightarrow> size_t \<Rightarrow> string \<Rightarrow> ConsumeResult" where
  "ConsumeResult_err c n pos msg = \<lparr>consumed = n, cerror = mk_ErrorInfo c pos msg, has_error = True\<rparr>"

text \<open>A call of \<open>messageCallback\<close>, of \<open>logCallback\<close> or of \<open>logCallbackEx\<close>.\<close>

datatype callback =
    Message "byte list"
  | Log LogType string
  | LogEx LogInfo

record Decoder =
  lastCharIsEsc :: bool
  rxbuf :: mem
  rxbufPos :: size_t
  rxbufSize :: size_t
  logCallback :: bool
  logCallbackEx :: bool
  lastError :: ErrorInfo
  consumedCount :: size_t
  calls :: "callback list"

text \<open>
  The two constructors. \<open>has_log\<close> tells whether the log callback passed in is set (the
  tests also pass an empty function).
\<close>

definition Decoder_log :: "mem \<Rightarrow> size_t \<Rightarrow> bool \<Rightarrow> Decoder" where
  "Decoder_log buf bufsize has_log =
     \<lparr>lastCharIsEsc = False, rxbuf = buf, rxbufPos = 0, rxbufSize = bufsize,
      logCallback = has_log, logCallbackEx = False,
      lastError = ErrorInfo_of_code Success, consumedCount = 0, calls = []\<rparr>"

definition Decoder_logEx :: "mem \<Rightarrow> size_t \<Rightarrow> bool \<Rightarrow> Decoder" where
  "Decoder_logEx buf bufsize has_log =
     \<lparr>lastCharIsEsc = False, rxbuf = buf, rxbufPos = 0, rxbufSize = bufsize,
      logCallback = False, logCallbackEx = has_log,
      lastError = ErrorInfo_of_code Success, consumedCount = 0, calls = []\<rparr>"

section \<open>Operations\<close>

definition reset :: "Decoder \<Rightarrow> Decoder" where
  "reset d = d\<lparr>rxbufPos := 0, lastCharIsEsc := False,
     lastError := ErrorInfo_of_code Success, consumedCount := 0\<rparr>"

definition getLastError :: "Decoder \<Rightarrow> ErrorInfo" where
  "getLastError d = lastError d"

text \<open>\<open>rxbuf[rxbufPos++] = b\<close>\<close>

definition store :: "Decoder \<Rightarrow> byte \<Rightarrow> Decoder" where
  "store d b = d\<lparr>rxbuf := (rxbuf d)(unat (rxbufPos d) := b), rxbufPos := rxbufPos d + 1\<rparr>"

text \<open>The subtraction is on size_t and wraps when the position exceeds the size.\<close>

definition no_room :: "Decoder \<Rightarrow> bool" where
  "no_room d \<longleftrightarrow> rxbufSize d - rxbufPos d < 2"

text \<open>The calls of the two log callbacks, the record of the error, and the reset.\<close>

definition rx_overflow :: "Decoder \<Rightarrow> Decoder" where
  "rx_overflow d =
     (let d1 = (if logCallback d
                then d\<lparr>calls := calls d @ [Log LogRXBufferOverflow ''RX buffer overflow'']\<rparr> else d);
          d2 = (if logCallbackEx d1
                then d1\<lparr>calls := calls d1 @
                  [LogEx (LogInfo_of_code RXBufferOverflow (consumedCount d1) ''RX buffer overflow'')]\<rparr>
                else d1);
          d3 = d2\<lparr>lastError := mk_ErrorInfo RXBufferOverflow (consumedCount d2) ''RX buffer overflow''\<rparr>
      in reset d3)"

definition emit :: "Decoder \<Rightarrow> Decoder" where
  "emit d = d\<lparr>calls := calls d @ [Message (mem_range (rxbuf d) 0 (unat (rxbufPos d)))]\<rparr>"

definition bad_escape :: "Decoder \<Rightarrow> Decoder" where
  "bad_escape d =
     reset (d\<lparr>lastError := mk_ErrorInfo DecodeInvalidEscapeSequence (consumedCount d) ''Invalid escape sequence''\<rparr>)"

definition count_byte :: "Decoder \<Rightarrow> Decoder" where
  "count_byte d = d\<lparr>consumedCount := consumedCount d + 1\<rparr>"

definition consume_byte :: "Decoder \<Rightarrow> byte \<Rightarrow> Decoder" where
  "consume_byte d0 c =
     (let d = (if no_room d0 then rx_overflow d0 else d0)
      in count_byte
           (if lastCharIsEsc d then
              (if c = ESCEND then store d END
               else if c = ESCESC then store d ESC
               else bad_escape d)\<lparr>lastCharIsEsc := False\<rparr>
            else if c = END then reset (emit d)
            else if c = ESC then d\<lparr>lastCharIsEsc := True\<rparr>
            else store d c))"

definition consume_ex_byte :: "Decoder \<Rightarrow> byte \<Rightarrow> Decoder \<times> ConsumeResult" where
  "consume_ex_byte d c =
     (if no_room d then
        let d' = rx_overflow d
        in (d', ConsumeResult_err RXBufferOverflow 1 (consumedCount d') ''RX buffer overflow'')
      else if lastCharIsEsc d then
        (if c = ESCEND then (count_byte ((store d END)\<lparr>lastCharIsEsc := False\<rparr>), ConsumeResult_ok 1)
         else if c = ESCESC then (count_byte ((store d ESC)\<lparr>lastCharIsEsc := False\<rparr>), ConsumeResult_ok 1)
         else
           let d' = bad_escape d
           in (d', ConsumeResult_err DecodeInvalidEscapeSequence 1 (consumedCount d') ''Invalid escape sequence''))
      else if c = END then (count_byte (reset (emit d)), ConsumeResult_ok 1)
      else if c = ESC then (count_byte (d\<lparr>lastCharIsEsc := True\<rparr>), ConsumeResult_ok 1)
      else (count_byte (store d c), ConsumeResult_ok 1))"

text \<open>The loops over a buffer: \<open>data\<close> is the list of the \<open>size\<close> bytes at the pointer.\<close>

definition consume :: "Decoder \<Rightarrow> byte list \<Rightarrow> Decoder" where
  "consume d data = foldl consume_byte d data"

fun consume_ex_loop :: "Decoder \<Rightarrow> byte list \<Rightarrow> size_t \<Rightarrow> Decoder \<times> ConsumeResult" where
  "consume_ex_loop d [] n = (d, ConsumeResult_ok n)"
| "consume_ex_loop d (c # cs) n =
     (case consume_ex_byte d c of (d', r) \<Rightarrow>
        if has_error r then
          (d', ConsumeResult_err (code (cerror r)) n (position (cerror r)) (message (cerror r)))
        else consume_ex_loop d' cs (n + 1))"

definition consume_ex :: "Decoder \<Rightarrow> byte list \<Rightarrow> Decoder \<times> ConsumeResult" where
  "consume_ex d data = consume_ex_loop d data 0"

text \<open>
  The chunked variants loop until all bytes are consumed; with a chunk size of 0 they
  make no progress. \<open>None\<close> is a loop that never returns.
\<close>

partial_function (option) consume_chunk_loop ::
    "Decoder \<Rightarrow> byte list \<Rightarrow> size_t \<Rightarrow> size_t \<Rightarrow> (Decoder \<times> size_t) option" where
  "consume_chunk_loop d data chunk_size n =
     (if n < of_nat (length data) then
        let to_consume = min chunk_size (of_nat (length data) - n)
        in consume_chunk_loop (consume d (take (unat to_consume) (drop (unat n) data)))
             data chunk_size (n + to_consume)
      else Some (d, n))"

definition consume_chunk :: "Decoder \<Rightarrow> byte list \<Rightarrow> size_t \<Rightarrow> (Decoder \<times> size_t) option" where
  "consume_chunk d data chunk_size = consume_chunk_loop d data chunk_size 0"

partial_function (option) consume_chunk_ex_loop ::
    "Decoder \<Rightarrow> byte list \<Rightarrow> size_t \<Rightarrow> size_t \<Rightarrow> (Decoder \<times> ConsumeResult) option" where
  "consume_chunk_ex_loop d data chunk_size n =
     (if n < of_nat (length data) then
        let to_consume = min chunk_size (of_nat (length data) - n)
        in case consume_ex d (take (unat to_consume) (drop (unat n) data)) of (d', r) \<Rightarrow>
             if has_error r then
               Some (d', ConsumeResult_err (code (cerror r)) n (position (cerror r)) (message (cerror r)))
             else consume_chunk_ex_loop d' data chunk_size (n + consumed r)
      else Some (d, ConsumeResult_ok n))"

definition consume_chunk_ex :: "Decoder \<Rightarrow> byte list \<Rightarrow> size_t \<Rightarrow> (Decoder \<times> ConsumeResult) option" where
  "consume_chunk_ex d data chunk_size = consume_chunk_ex_loop d data chunk_size 0"

section \<open>Invariant and abstraction\<close>

lemmas decoder_defs =
  reset_def store_def rx_overflow_def emit_def bad_escape_def count_byte_def

fun messages :: "callback list \<Rightarrow> byte list list" where
  "messages [] = []"
| "messages (Message m # cs) = m # messages cs"
| "messages (_ # cs) = messages cs"

lemma messages_append [simp]: "messages (cs @ ds) = messages cs @ messages ds"
  by (induction cs rule: messages.induct) simp_all

definition dec_abs :: "Decoder \<Rightarrow> rx" where
  "dec_abs d = \<lparr>rx_esc = lastCharIsEsc d, rx_acc = mem_range (rxbuf d) 0 (unat (rxbufPos d)),
     rx_out = messages (calls d)\<rparr>"

text \<open>
  The invariant of a decoder for a buffer of \<open>n\<close> bytes whose surroundings are those of
  \<open>m\<close>: the position stays within the buffer and nothing outside of it is written.
\<close>

definition dec_inv :: "size_t \<Rightarrow> mem \<Rightarrow> Decoder \<Rightarrow> bool" where
  "dec_inv n m d \<longleftrightarrow> rxbufSize d = n \<and> 0 < n \<and> rxbufPos d \<le> n \<and>
     (\<forall>a \<ge> unat n. rxbuf d a = m a)"

lemma dec_inv_reset: "dec_inv n m d \<Longrightarrow> dec_inv n m (reset d)"
  by (simp add: dec_inv_def reset_def)

lemma dec_inv_rx_overflow: "dec_inv n m d \<Longrightarrow> dec_inv n m (rx_overflow d)"
  by (simp add: dec_inv_def decoder_defs Let_def)

lemma dec_inv_bad_escape: "dec_inv n m d \<Longrightarrow> dec_inv n m (bad_escape d)"
  by (simp add: dec_inv_def decoder_defs)

lemma dec_inv_emit: "dec_inv n m d \<Longrightarrow> dec_inv n m (emit d)"
  by (simp add: dec_inv_def emit_def)

lemma dec_inv_upd [simp]:
  "dec_inv n m (d\<lparr>lastCharIsEsc := e\<rparr>) = dec_inv n m d"
  "dec_inv n m (count_byte d) = dec_inv n m d"
  by (simp_all add: dec_inv_def count_byte_def)

lemma dec_inv_store:
  assumes "dec_inv n m d" "rxbufPos d < n"
  shows "dec_inv n m (store d b)"
proof -
  have "rxbufPos d + 1 \<le> n"
    using assms(2) by (rule inc_le)
  then show ?thesis
    using assms by (auto simp: dec_inv_def store_def word_less_nat_alt)
qed

text \<open>The room test of the code against the length of the collected bytes.\<close>

lemma no_room_iff:
  assumes "dec_inv n m d"
  shows "no_room d \<longleftrightarrow> rx_full (unat n) (dec_abs d)"
proof -
  have "rxbufPos d \<le> n" "rxbufSize d = n"
    using assms by (simp_all add: dec_inv_def)
  moreover from this have "unat (rxbufSize d - rxbufPos d) = unat n - unat (rxbufPos d)"
    by (simp add: unat_sub)
  ultimately show ?thesis
    by (auto simp: no_room_def rx_full_def dec_abs_def word_less_nat_alt word_le_nat_alt)
qed

lemma room_pos: "dec_inv n m d \<Longrightarrow> \<not> no_room d \<Longrightarrow> rxbufPos d < n"
  using no_room_iff [of n m d] by (simp add: rx_full_def dec_abs_def word_less_nat_alt)

lemma rx_overflow_fields [simp]:
  "\<not> lastCharIsEsc (rx_overflow d)" "rxbufPos (rx_overflow d) = 0" "rxbufSize (rx_overflow d) = rxbufSize d"
  by (simp_all add: decoder_defs Let_def)

section \<open>Abstraction of the building blocks\<close>

lemma dec_abs_store_unbounded:
  assumes "unat (rxbufPos d + 1) = Suc (unat (rxbufPos d))"
  shows "dec_abs (store d b) = (dec_abs d)\<lparr>rx_acc := rx_acc (dec_abs d) @ [b]\<rparr>"
  using assms mem_range_add [of "(rxbuf d)(unat (rxbufPos d) := b)" 0 "unat (rxbufPos d)" 1]
  by (simp add: dec_abs_def store_def mem_range_Suc)

lemma dec_abs_store:
  assumes "dec_inv n m d" "rxbufPos d < n"
  shows "dec_abs (store d b) = (dec_abs d)\<lparr>rx_acc := rx_acc (dec_abs d) @ [b]\<rparr>"
  using unat_inc [OF assms(2)] by (simp add: dec_abs_store_unbounded)

lemma dec_abs_clear:
  "dec_abs (rx_overflow d) = rx_clear (dec_abs d)"
  "dec_abs (bad_escape d) = rx_clear (dec_abs d)"
  "dec_abs (reset d) = rx_clear (dec_abs d)"
  by (simp_all add: dec_abs_def rx_clear_def decoder_defs Let_def)

lemma dec_abs_emit:
  "dec_abs (emit d) = (dec_abs d)\<lparr>rx_out := rx_out (dec_abs d) @ [rx_acc (dec_abs d)]\<rparr>"
  by (simp add: dec_abs_def emit_def)

lemma dec_abs_upd [simp]:
  "dec_abs (d\<lparr>lastCharIsEsc := e\<rparr>) = (dec_abs d)\<lparr>rx_esc := e\<rparr>"
  "dec_abs (count_byte d) = dec_abs d"
  by (simp_all add: dec_abs_def count_byte_def)

lemma lastCharIsEsc_abs: "lastCharIsEsc d = rx_esc (dec_abs d)"
  by (simp add: dec_abs_def)

lemmas dec_abs_blocks = dec_abs_store dec_abs_clear dec_abs_emit

text \<open>
  The part of the two byte operations behind the room test, which they share: the
  automaton step, on a decoder with room for one more byte.
\<close>

definition accept_byte :: "Decoder \<Rightarrow> byte \<Rightarrow> Decoder" where
  "accept_byte d c =
     (if lastCharIsEsc d then
        (if c = ESCEND then store d END else if c = ESCESC then store d ESC
         else bad_escape d)\<lparr>lastCharIsEsc := False\<rparr>
      else if c = END then reset (emit d)
      else if c = ESC then d\<lparr>lastCharIsEsc := True\<rparr>
      else store d c)"

lemma consume_byte_accept:
  "consume_byte d c = count_byte (accept_byte (if no_room d then rx_overflow d else d) c)"
  by (simp add: consume_byte_def accept_byte_def Let_def)

lemma accept_byte_inv: "dec_inv n m d \<Longrightarrow> rxbufPos d < n \<Longrightarrow> dec_inv n m (accept_byte d c)"
  by (simp add: accept_byte_def dec_inv_store dec_inv_bad_escape dec_inv_reset dec_inv_emit)

lemma accept_byte_sim:
  "dec_inv n m d \<Longrightarrow> rxbufPos d < n \<Longrightarrow> dec_abs (accept_byte d c) = rx_step (dec_abs d) c"
  by (cases "dec_abs d") (auto simp: accept_byte_def rx_step_def dec_abs_blocks rx_clear_def lastCharIsEsc_abs)

lemma consume_ex_byte_state:
  "fst (consume_ex_byte d c) =
     (if no_room d then rx_overflow d
      else if lastCharIsEsc d \<and> c \<noteq> ESCEND \<and> c \<noteq> ESCESC then accept_byte d c
      else count_byte (accept_byte d c))"
  by (cases d) (simp add: consume_ex_byte_def accept_byte_def Let_def decoder_defs)

section \<open>The decoder implements the bounded automaton\<close>

interpretation decoder: simulating "dec_inv n m" consume_byte dec_abs "rx_step_cap (unat n)"
  for n m
proof unfold_locales
  fix d c
  assume inv: "dec_inv n m d"
  define e where "e = (if no_room d then rx_overflow d else d)"
  have e: "dec_inv n m e" "rxbufPos e < n"
    using inv room_pos [OF inv] by (simp_all add: e_def dec_inv_rx_overflow) (simp add: dec_inv_def)
  show "dec_inv n m (consume_byte d c)"
    using accept_byte_inv [OF e] by (simp add: consume_byte_accept flip: e_def)
  show "dec_abs (consume_byte d c) = rx_step_cap (unat n) (dec_abs d) c"
    using accept_byte_sim [OF e, of c] no_room_iff [OF inv]
    by (simp add: consume_byte_accept rx_step_cap_def e_def dec_abs_clear split: if_splits)
qed

interpretation decoder_ex: simulating "dec_inv n m" "\<lambda>d c. fst (consume_ex_byte d c)" dec_abs
    "rx_step_drop (unat n)"
  for n m
proof unfold_locales
  fix d c
  assume inv: "dec_inv n m d"
  show "dec_inv n m (fst (consume_ex_byte d c))"
    using inv accept_byte_inv [OF inv room_pos [OF inv]]
    by (simp add: consume_ex_byte_state dec_inv_rx_overflow)
  show "dec_abs (fst (consume_ex_byte d c)) = rx_step_drop (unat n) (dec_abs d) c"
    using accept_byte_sim [OF inv room_pos [OF inv], of c] no_room_iff [OF inv]
    by (simp add: consume_ex_byte_state rx_step_drop_def dec_abs_clear)
qed

lemma consume_inv: "dec_inv n m d \<Longrightarrow> dec_inv n m (consume d data)"
  by (simp add: consume_def decoder.run_inv)

lemma consume_sim:
  "dec_inv n m d \<Longrightarrow> dec_abs (consume d data) = foldl (rx_step_cap (unat n)) (dec_abs d) data"
  by (simp add: consume_def decoder.run_sim)

lemma consume_append: "consume d (xs @ ys) = consume (consume d xs) ys"
  by (simp add: consume_def)

section \<open>The error-reporting variant against the plain one\<close>

definition byte_rejected :: "Decoder \<Rightarrow> byte \<Rightarrow> bool" where
  "byte_rejected d c \<longleftrightarrow> no_room d \<or> lastCharIsEsc d \<and> c \<noteq> ESCEND \<and> c \<noteq> ESCESC"

lemma consume_ex_byte_cases:
  "consume_ex_byte d c =
     (if \<not> byte_rejected d c then (consume_byte d c, ConsumeResult_ok 1)
      else if no_room d then (rx_overflow d, ConsumeResult_err RXBufferOverflow 1 0 ''RX buffer overflow'')
      else (bad_escape d, ConsumeResult_err DecodeInvalidEscapeSequence 1 0 ''Invalid escape sequence''))"
  by (simp add: consume_ex_byte_def byte_rejected_def consume_byte_def Let_def decoder_defs)

lemma consume_ex_loop_shift:
  "consume_ex_loop d data (k + n) =
     apsnd (\<lambda>r. r\<lparr>consumed := k + consumed r\<rparr>) (consume_ex_loop d data n)"
proof (induction data arbitrary: d n)
  case Nil
  then show ?case by (simp add: ConsumeResult_ok_def)
next
  case (Cons c cs)
  then show ?case
    by (simp add: ConsumeResult_err_def add.assoc split: prod.splits)
qed

lemma consume_ex_loop_append:
  "consume_ex_loop d (xs @ ys) n =
     (case consume_ex_loop d xs n of (d1, r1) \<Rightarrow>
        if has_error r1 then (d1, r1) else consume_ex_loop d1 ys (consumed r1))"
proof (induction xs arbitrary: d n)
  case Nil
  then show ?case by (simp add: ConsumeResult_ok_def)
next
  case (Cons c cs)
  then show ?case by (simp add: ConsumeResult_err_def split: prod.splits)
qed

text \<open>What one call of \<open>consume_ex\<close> on a buffer leaves and returns, by the first rejected byte.\<close>

lemma consume_ex_loop_correct:
  assumes "consume_ex_loop d data n = (d', r)"
  shows "if has_error r then
     (\<exists>i<length data. \<exists>e. e = consume d (take i data) \<and> consumed r = n + of_nat i \<and>
        (\<forall>j<i. \<not> byte_rejected (consume d (take j data)) (data ! j)) \<and>
        byte_rejected e (data ! i) \<and> (d', r) = apsnd (\<lambda>r. r\<lparr>consumed := n + of_nat i\<rparr>) (consume_ex_byte e (data ! i)))
     else d' = consume d data \<and> r = ConsumeResult_ok (n + of_nat (length data)) \<and>
        (\<forall>j<length data. \<not> byte_rejected (consume d (take j data)) (data ! j))"
  using assms
proof (induction data arbitrary: d n)
  case Nil
  then show ?case by (auto simp: ConsumeResult_ok_def consume_def)
next
  case (Cons c cs)
  show ?case
  proof (cases "byte_rejected d c")
    case True
    with Cons.prems have "has_error r" "consumed r = n"
        "(d', r) = apsnd (\<lambda>r. r\<lparr>consumed := n\<rparr>) (consume_ex_byte d c)"
      by (auto simp: consume_ex_byte_cases ConsumeResult_err_def error_defs split: if_splits)
    with True show ?thesis
      by (auto simp: consume_def intro!: exI [of _ 0])
  next
    case False
    then have *: "consume_ex_loop (consume_byte d c) cs (n + 1) = (d', r)"
      using Cons.prems by (simp add: consume_ex_byte_cases ConsumeResult_ok_def)
    have step: "consume d (c # ys) = consume (consume_byte d c) ys" for ys
      by (simp add: consume_def)
    have all: "(\<forall>j<Suc i. \<not> byte_rejected (consume d (take j (c # cs))) ((c # cs) ! j)) \<longleftrightarrow>
        (\<forall>j<i. \<not> byte_rejected (consume (consume_byte d c) (take j cs)) (cs ! j))" for i
      using False by (simp add: All_less_Suc2 consume_def)
    show ?thesis
    proof (cases "has_error r")
      case True
      with Cons.IH [OF *] obtain i where i: "i < length cs"
        "(d', r) = apsnd (\<lambda>r. r\<lparr>consumed := n + 1 + of_nat i\<rparr>) (consume_ex_byte (consume (consume_byte d c) (take i cs)) (cs ! i))"
        "consumed r = n + 1 + of_nat i" "byte_rejected (consume (consume_byte d c) (take i cs)) (cs ! i)"
        "\<forall>j<i. \<not> byte_rejected (consume (consume_byte d c) (take j cs)) (cs ! j)"
        by auto
      with True show ?thesis
        unfolding if_P [OF True] by (intro exI [of _ "Suc i"]) (simp add: step all add.assoc)
    next
      case ok: False
      with Cons.IH [OF *] show ?thesis
        by (simp add: all step add.assoc)
    qed
  qed
qed

section \<open>Chunked consumption\<close>

lemma consume_chunk_loop_eq:
  assumes "j \<le> length data" "length data < 2 ^ 64" "0 < k"
  shows "consume_chunk_loop d data k (of_nat j) =
    Some (consume d (drop j data), of_nat (length data))"
  using assms(2,3,1)
proof (induction j arbitrary: d rule: chunk_induct)
  case finish
  then show ?case by (subst consume_chunk_loop.simps) (simp add: consume_def)
next
  case (chunk j t)
  then have "consume_chunk_loop d data k (of_nat j) =
      Some (consume (consume d (take t (drop j data))) (drop (j + t) data), of_nat (length data))"
    by (subst consume_chunk_loop.simps) (simp add: Let_def)
  then show ?case
    by (metis append_take_drop_id consume_append drop_drop add.commute)
qed

lemma consume_chunk_loop_diverges:
  assumes "n < of_nat (length data)"
  shows "consume_chunk_loop d data 0 n = None"
proof -
  have "k = 0 \<longrightarrow> \<not> n < of_nat (length data)" if "consume_chunk_loop d data k n = Some r" for k r
    using that
    by (rule consume_chunk_loop.raw_induct
        [where P = "\<lambda>d data k n r. k = 0 \<longrightarrow> \<not> n < of_nat (length data)", rotated])
      (auto simp: Let_def split: if_splits)
  with assms show ?thesis by (cases "consume_chunk_loop d data 0 n") auto
qed

lemma consume_ex_results:
  assumes "consume_ex d data = (d', r)" "length data < 2 ^ 64"
  shows "if has_error r then unat (consumed r) < length data
    else d' = consume d data \<and> r = ConsumeResult_ok (of_nat (length data))"
  using consume_ex_loop_correct [of d data 0 d' r] assms
  by (auto simp: consume_ex_def unat_of_nat_size split: if_splits)

definition round_consumed :: "nat \<Rightarrow> size_t \<Rightarrow> ConsumeResult \<Rightarrow> ConsumeResult" where
  "round_consumed j k r =
     (if has_error r then r\<lparr>consumed := of_nat (j + unat (consumed r) div unat k * unat k)\<rparr>
      else r\<lparr>consumed := of_nat j + consumed r\<rparr>)"

text \<open>Rounding behind a chunk that was consumed completely.\<close>

lemma round_consumed_step:
  assumes "consume_ex d ys = (d', r)" "length ys < 2 ^ 64 - t" "t = unat k \<or> ys = []" "0 < k"
  shows "round_consumed j k (r\<lparr>consumed := of_nat t + consumed r\<rparr>) = round_consumed (j + t) k r"
proof (cases "has_error r")
  case True
  then have c: "unat (consumed r) < length ys"
    using consume_ex_results [OF assms(1)] assms(2) by simp
  then have t: "t = unat k" using assms(3) by auto
  then have "unat (of_nat t + consumed r) = unat k + unat (consumed r)"
    using c assms(2) by (simp add: unat_word_ariths)
  moreover have "(unat k + unat (consumed r)) div unat k = Suc (unat (consumed r) div unat k)"
    using assms(4) by (simp add: word_less_nat_alt div_add_self1)
  ultimately show ?thesis using True t by (simp add: round_consumed_def algebra_simps)
qed (simp add: round_consumed_def add.assoc)

lemma consume_ex_append:
  assumes "consume_ex d xs = (d1, r1)" "length xs < 2 ^ 64"
  shows "consume_ex d (xs @ ys) =
    (if has_error r1 then (d1, r1)
     else apsnd (\<lambda>r. r\<lparr>consumed := of_nat (length xs) + consumed r\<rparr>) (consume_ex d1 ys))"
  using assms consume_ex_results [OF assms] consume_ex_loop_shift [of d1 ys "of_nat (length xs)" 0]
  by (cases "has_error r1") (simp_all add: consume_ex_def consume_ex_loop_append ConsumeResult_ok_def)

lemma consume_chunk_ex_loop_eq:
  assumes "j \<le> length data" "length data < 2 ^ 64" "0 < k"
  shows "consume_chunk_ex_loop d data k (of_nat j) =
    Some (apsnd (round_consumed j k) (consume_ex d (drop j data)))"
  using assms(2,3,1)
proof (induction j arbitrary: d rule: chunk_induct)
  case finish
  then show ?case
    by (subst consume_chunk_ex_loop.simps) (simp add: consume_ex_def round_consumed_def ConsumeResult_ok_def)
next
  case (chunk j t)
  define xs ys where "xs = take t (drop j data)" and "ys = drop (j + t) data"
  have split: "drop j data = xs @ ys"
    unfolding xs_def ys_def by (metis append_take_drop_id drop_drop add.commute)
  have xs: "length xs = t" "length xs < 2 ^ 64" and ys: "t = unat k \<or> ys = []"
    using chunk.hyps(1-4) assms(2) by (auto simp: xs_def ys_def)
  have len: "length ys < 2 ^ 64 - t"
    unfolding ys_def length_drop using chunk.hyps(4) assms(2) by linarith
  obtain d1 r1 where 1: "consume_ex d xs = (d1, r1)" by fastforce
  obtain d2 r2 where 2: "consume_ex d1 ys = (d2, r2)" by fastforce
  note r1 = consume_ex_results [OF 1 xs(2)]
  have step: "consume_chunk_ex_loop d data k (of_nat j) =
      (if has_error r1 then
         Some (d1, ConsumeResult_err (code (cerror r1)) (of_nat j) (position (cerror r1)) (message (cerror r1)))
       else consume_chunk_ex_loop d1 data k (of_nat j + consumed r1))"
    using chunk.hyps 1 by (subst consume_chunk_ex_loop.simps) (simp add: xs_def Let_def)
  show ?case
  proof (cases "has_error r1")
    case True
    then have "unat (consumed r1) div unat k = 0"
      using r1 xs chunk.hyps(2) by simp
    with True step consume_ex_append [OF 1 xs(2), of ys] show ?thesis
      by (cases r1) (simp add: split round_consumed_def ConsumeResult_err_def error_defs)
  next
    case False
    with step r1 xs(1) chunk.IH [of d1] 2
    have "consume_chunk_ex_loop d data k (of_nat j) = Some (d2, round_consumed (j + t) k r2)"
      by (simp add: ConsumeResult_ok_def ys_def)
    with False consume_ex_append [OF 1 xs(2), of ys] 2 xs(1) round_consumed_step [OF 2 len ys assms(3), of j]
    show ?thesis by (simp add: split)
  qed
qed

lemma consume_chunk_ex_loop_diverges:
  assumes "n < of_nat (length data)"
  shows "consume_chunk_ex_loop d data 0 n = None"
proof -
  have "k = 0 \<longrightarrow> \<not> n < of_nat (length data)" if "consume_chunk_ex_loop d data k n = Some r" for k r
    using that
    by (rule consume_chunk_ex_loop.raw_induct
        [where P = "\<lambda>d data k n r. k = 0 \<longrightarrow> \<not> n < of_nat (length data)", rotated])
      (auto simp: Let_def consume_ex_def ConsumeResult_ok_def split: if_splits)
  with assms show ?thesis by (cases "consume_chunk_ex_loop d data 0 n") auto
qed

section \<open>Reachable decoders\<close>

text \<open>
  The decoders that a client can get to, for a buffer of \<open>n\<close> bytes in memory \<open>m\<close>: a
  constructor, then any sequence of bytes through either byte operation and of
  resets. The operations on buffers are sequences of the operations on bytes.
\<close>

inductive dec_reach :: "mem \<Rightarrow> size_t \<Rightarrow> Decoder \<Rightarrow> bool" for m n where
  make_log: "dec_reach m n (Decoder_log m n h)"
| make_logEx: "dec_reach m n (Decoder_logEx m n h)"
| do_consume: "dec_reach m n d \<Longrightarrow> dec_reach m n (consume_byte d c)"
| do_consume_ex: "dec_reach m n d \<Longrightarrow> dec_reach m n (fst (consume_ex_byte d c))"
| do_reset: "dec_reach m n d \<Longrightarrow> dec_reach m n (reset d)"

lemma dec_reach_consume: "dec_reach m n d \<Longrightarrow> dec_reach m n (consume d data)"
  unfolding consume_def by (induction data arbitrary: d) (simp_all add: do_consume)

lemma dec_reach_inv: "dec_reach m n d \<Longrightarrow> 0 < n \<Longrightarrow> dec_inv n m d"
proof (induction rule: dec_reach.induct)
  case (make_log h)
  then show ?case by (simp add: Decoder_log_def dec_inv_def)
next
  case (make_logEx h)
  then show ?case by (simp add: Decoder_logEx_def dec_inv_def)
qed (simp_all add: decoder.step_inv decoder_ex.step_inv dec_inv_reset)

definition dec_idle :: "Decoder \<Rightarrow> bool" where
  "dec_idle d \<longleftrightarrow> \<not> lastCharIsEsc d \<and> rxbufPos d = 0"

lemma dec_idle_abs: "dec_idle d \<longleftrightarrow> rx_idle (dec_abs d)"
proof -
  have "mem_range (rxbuf d) 0 k = [] \<longleftrightarrow> k = 0" for k
    using length_mem_range [of "rxbuf d" 0 k] by fastforce
  then show ?thesis by (auto simp: dec_idle_def rx_idle_def dec_abs_def unat_eq_zero)
qed

lemma dec_idle_make [simp]: "dec_idle (Decoder_log m n h)" "dec_idle (Decoder_logEx m n h)"
  by (simp_all add: dec_idle_def Decoder_log_def Decoder_logEx_def)

lemma rx_out_abs: "messages (calls d) = rx_out (dec_abs d)"
  by (simp add: dec_abs_def)

lemma consume_END_idle:
  assumes "dec_inv n m d" shows "dec_idle (consume_byte d END)"
  using decoder.step_sim [OF assms, of END] by (simp add: dec_idle_abs rx_step_cap_def rx_step_END_idle)

lemma consume_frames:
  assumes "dec_inv n m d" "dec_idle d" "\<And>f. f \<in> set fs \<Longrightarrow> length f + 2 \<le> unat n"
  shows "messages (calls (consume d (concat (map slip_encode fs)))) = messages (calls d) @ fs"
    and "dec_idle (consume d (concat (map slip_encode fs)))"
proof -
  have *: "dec_abs (consume d (concat (map slip_encode fs))) = (dec_abs d)\<lparr>rx_out := rx_out (dec_abs d) @ fs\<rparr>"
    using assms by (simp add: consume_sim rx_cap_run_frames flip: dec_idle_abs)
  show "messages (calls (consume d (concat (map slip_encode fs)))) = messages (calls d) @ fs"
    by (simp add: rx_out_abs *)
  show "dec_idle (consume d (concat (map slip_encode fs)))"
    using assms(2) by (simp add: dec_idle_abs * rx_idle_def)
qed

lemma consume_frame_exact:
  assumes "dec_inv n m d" "dec_idle d" "2 \<le> n"
  shows "messages (calls (consume d (slip_encode xs))) =
    messages (calls d) @ [drop (length xs div (unat n - 1) * (unat n - 1)) xs]"
  using assms by (simp add: rx_out_abs consume_sim rx_cap_run_frame word_le_nat_alt flip: dec_idle_abs)

text \<open>
  The calls of the log callback. An overflow is logged in front of the byte that meets it,
  so the overflows of a frame are logged ahead of its message, one for each time the
  buffer was used up.
\<close>

definition overflow_log :: "Decoder \<Rightarrow> callback list" where
  "overflow_log d = (if logCallback d then [Log LogRXBufferOverflow ''RX buffer overflow''] else [])"

lemma consume_byte_log [simp]:
  "logCallback (consume_byte d c) = logCallback d" "logCallbackEx (consume_byte d c) = logCallbackEx d"
  by (simp_all add: consume_byte_def decoder_defs Let_def)

lemma consume_log [simp]:
  "logCallback (consume d data) = logCallback d" "logCallbackEx (consume d data) = logCallbackEx d"
  by (induction data arbitrary: d) (simp_all add: consume_def)

lemma consume_byte_calls:
  assumes "\<not> logCallbackEx d" "c \<noteq> END"
  shows "calls (consume_byte d c) = calls d @ (if no_room d then overflow_log d else [])"
  using assms by (simp add: consume_byte_def decoder_defs overflow_log_def Let_def)

lemma consume_END_calls:
  assumes "\<not> logCallbackEx d" "\<not> lastCharIsEsc d"
  shows "calls (consume_byte d END) = calls d @ (if no_room d then overflow_log d @ [Message []]
    else [Message (rx_acc (dec_abs d))])"
  using assms by (simp add: consume_byte_def decoder_defs overflow_log_def dec_abs_def Let_def)

lemma consume_escape_calls:
  assumes "dec_inv n m d" "\<not> logCallbackEx d" "\<not> lastCharIsEsc d" "2 \<le> n"
  shows "calls (consume d (slip_escape x)) = calls d @ (if no_room d then overflow_log d else [])"
proof (cases "x = END \<or> x = ESC")
  case False
  with assms show ?thesis by (simp add: slip_escape_def consume_def consume_byte_calls)
next
  case True
  let ?d = "consume_byte d ESC"
  have "2 \<le> unat n" using assms(4) by (simp add: word_le_nat_alt)
  moreover have "dec_abs ?d = rx_step_cap (unat n) (dec_abs d) ESC" "dec_inv n m ?d"
    using decoder.step_sim [OF assms(1)] decoder.step_inv [OF assms(1)] by simp_all
  moreover have "\<not> rx_esc (dec_abs d)" using assms(3) by (simp add: lastCharIsEsc_abs)
  ultimately have "\<not> no_room ?d"
    by (auto simp: no_room_iff rx_step_cap_def rx_step_def rx_full_def rx_clear_def)
  with True assms show ?thesis
    by (auto simp: slip_escape_def consume_def consume_byte_calls overflow_log_def)
qed

text \<open>How often the buffer is used up: the arithmetic of the chunks of \<open>w\<close> bytes.\<close>

lemma rx_kept_full_iff:
  assumes "0 < w"
  shows "length xs div w = (length xs - 1) div w + (if length (rx_kept w xs) < w then 0 else 1)"
proof (cases xs)
  case Nil
  with assms show ?thesis by (simp add: rx_kept_def)
next
  case (Cons y ys)
  let ?n = "length ys"
  have "?n div w * w + ?n mod w = ?n" and "?n mod w < w"
    using assms by simp_all
  then have "Suc ?n - ?n div w * w = Suc (?n mod w)" by linarith
  then have "length (rx_kept w xs) = Suc (?n mod w)"
    by (simp add: rx_kept_def Cons)
  moreover have "Suc ?n div w = ?n div w + (if Suc (?n mod w) = w then 1 else 0)"
    by (simp add: div_Suc mod_Suc)
  ultimately show ?thesis
    using \<open>?n mod w < w\<close> by (auto simp: Cons)
qed

lemma consume_body_state:
  fixes xs :: "byte list"
  assumes "dec_inv n m d" "dec_idle d" "2 \<le> n"
  defines "d' \<equiv> consume d (slip_body xs)"
  shows "dec_inv n m d'" "\<not> lastCharIsEsc d'" "rx_acc (dec_abs d') = rx_kept (unat n - 1) xs"
    "no_room d' \<longleftrightarrow> \<not> length (rx_kept (unat n - 1) xs) < unat n - 1"
proof -
  have n: "2 \<le> unat n" using assms(3) by (simp add: word_le_nat_alt)
  show inv: "dec_inv n m d'" using consume_inv [OF assms(1)] by (simp add: d'_def)
  have abs: "dec_abs d' = (dec_abs d)\<lparr>rx_acc := rx_kept (unat n - 1) xs\<rparr>"
    using consume_sim [OF assms(1)] rx_cap_run_body [OF _ n] assms(2) by (simp add: dec_idle_abs d'_def)
  then show "rx_acc (dec_abs d') = rx_kept (unat n - 1) xs" by simp
  show "\<not> lastCharIsEsc d'"
    using abs assms(2) by (simp add: dec_idle_def lastCharIsEsc_abs)
  show "no_room d' \<longleftrightarrow> \<not> length (rx_kept (unat n - 1) xs) < unat n - 1"
    using no_room_iff [OF inv] abs n by (auto simp: rx_full_def)
qed

lemma consume_body_calls:
  assumes "dec_inv n m d" "dec_idle d" "2 \<le> n" "\<not> logCallbackEx d"
  shows "calls (consume d (slip_body xs)) =
    calls d @ concat (replicate ((length xs - 1) div (unat n - 1)) (overflow_log d))"
proof (induction xs rule: rev_induct)
  case Nil
  then show ?case by (simp add: consume_def)
next
  case (snoc x xs)
  let ?d = "consume d (slip_body xs)"
  note state = consume_body_state [OF assms(1-3), of xs]
  have w: "0 < unat n - 1" using assms(3) by (simp add: word_le_nat_alt)
  have "calls (consume ?d (slip_escape x)) =
      calls ?d @ (if length (rx_kept (unat n - 1) xs) < unat n - 1 then [] else overflow_log d)"
    using consume_escape_calls [OF state(1) _ state(2) assms(3)] state(4) assms(4) by (simp add: overflow_log_def)
  then show ?case
    using snoc rx_kept_full_iff [OF w, of xs] by (simp add: consume_append flip: replicate_append_same)
qed

lemma consume_frame_calls:
  assumes "dec_inv n m d" "dec_idle d" "2 \<le> n" "\<not> logCallbackEx d"
  shows "calls (consume d (slip_encode xs)) =
    calls d @ concat (replicate (length xs div (unat n - 1)) (overflow_log d)) @
      [Message (drop (length xs div (unat n - 1) * (unat n - 1)) xs)]"
proof -
  let ?w = "unat n - 1" and ?d = "consume d (slip_body xs)"
  note state = consume_body_state [OF assms(1-3), of xs]
  have w: "0 < ?w" using assms(3) by (simp add: word_le_nat_alt)
  have "calls (consume_byte ?d END) = calls ?d @
      (if length (rx_kept ?w xs) < ?w then [] else overflow_log d) @
      [Message (if length (rx_kept ?w xs) < ?w then rx_kept ?w xs else [])]"
    using consume_END_calls [OF _ state(2)] state(3,4) assms(4) by (simp add: overflow_log_def)
  then show ?thesis
    using consume_body_calls [OF assms, of xs] rx_kept_full_iff [OF w, of xs] rx_kept_final [OF w, of xs]
    by (simp add: slip_encode_def consume_append consume_def [of _ "[END]"] flip: replicate_append_same)
qed

text \<open>Messages never exceed the buffer less its two spare places.\<close>

definition rx_fits :: "nat \<Rightarrow> rx \<Rightarrow> bool" where
  "rx_fits cap r \<longleftrightarrow> (\<forall>f \<in> set (rx_out r). f = [] \<or> length f + 2 \<le> cap)"

lemma rx_fits_step_cap: "rx_fits cap r \<Longrightarrow> rx_fits cap (rx_step_cap cap r c)"
  by (auto simp: rx_fits_def rx_step_cap_def rx_step_def rx_full_def rx_clear_def)

lemma rx_fits_step_drop: "rx_fits cap r \<Longrightarrow> rx_fits cap (rx_step_drop cap r c)"
  by (auto simp: rx_fits_def rx_step_drop_def rx_step_def rx_full_def rx_clear_def)

lemma dec_reach_fits: "dec_reach m n d \<Longrightarrow> 0 < n \<Longrightarrow> rx_fits (unat n) (dec_abs d)"
proof (induction rule: dec_reach.induct)
  case (do_consume d c)
  then show ?case
    using decoder.step_sim [OF dec_reach_inv, of m n d c] by (simp add: rx_fits_step_cap)
next
  case (do_consume_ex d c)
  then show ?case
    using decoder_ex.step_sim [OF dec_reach_inv, of m n d c] by (simp add: rx_fits_step_drop)
qed (simp_all add: rx_fits_def dec_abs_def reset_def Decoder_log_def Decoder_logEx_def)

text \<open>Every assignment of an error to \<open>lastError\<close> is followed by a reset, which clears it.\<close>

lemma lastError_blocks [simp]:
  "lastError (reset d) = ErrorInfo_of_code Success"
  "lastError (rx_overflow d) = ErrorInfo_of_code Success"
  "lastError (bad_escape d) = ErrorInfo_of_code Success"
  "lastError (store d b) = lastError d"
  "lastError (count_byte d) = lastError d"
  by (simp_all add: decoder_defs Let_def)

lemma dec_reach_lastError: "dec_reach m n d \<Longrightarrow> lastError d = ErrorInfo_of_code Success"
proof (induction rule: dec_reach.induct)
  case (do_consume d c)
  then show ?case by (simp add: consume_byte_def Let_def)
next
  case (do_consume_ex d c)
  then show ?case by (simp add: consume_ex_byte_def Let_def)
qed (simp_all add: Decoder_log_def Decoder_logEx_def)

lemma consume_ex_loop_position: "position (cerror (snd (consume_ex_loop d data n))) = 0"
proof (induction data arbitrary: d n)
  case Nil
  then show ?case by (simp add: ConsumeResult_ok_def error_defs)
next
  case (Cons c cs)
  then show ?case
    by (simp add: consume_ex_byte_cases ConsumeResult_ok_def ConsumeResult_err_def error_defs)
qed

text \<open>With an empty buffer the room test wraps around and stops holding after one byte.\<close>

lemma consume_zero_size:
  assumes "rxbufSize d = 0" "rxbufPos d = 0" "\<not> lastCharIsEsc d"
    and "END \<notin> set xs" "ESC \<notin> set xs" "length xs < 2 ^ 64"
  shows "dec_abs (consume d xs) = (dec_abs d)\<lparr>rx_acc := xs\<rparr> \<and>
    rxbufPos (consume d xs) = of_nat (length xs) \<and> rxbufSize (consume d xs) = 0"
  using assms(4-)
proof (induction xs rule: rev_induct)
  case Nil
  with assms(1-3) show ?case by (simp add: consume_def dec_abs_def)
next
  case (snoc x xs)
  define e where "e = consume d xs"
  have e: "dec_abs e = (dec_abs d)\<lparr>rx_acc := xs\<rparr>" "rxbufPos e = of_nat (length xs)" "rxbufSize e = 0"
    using snoc by (simp_all add: e_def)
  then have esc: "\<not> lastCharIsEsc e"
    using assms(3) by (simp add: lastCharIsEsc_abs)
  have "unat (0 - rxbufPos e) = (if xs = [] then 0 else 2 ^ 64 - length xs)"
    using snoc.prems(3) unat_sub_if_size [of 0 "rxbufPos e"] by (auto simp: e unat_of_nat_size word_size)
  then have room: "no_room e \<longleftrightarrow> xs = []"
    using snoc.prems(3) by (auto simp: no_room_def e word_less_nat_alt)
  define e1 where "e1 = (if no_room e then rx_overflow e else e)"
  have e1: "dec_abs e1 = (dec_abs d)\<lparr>rx_acc := xs\<rparr>" "rxbufPos e1 = of_nat (length xs)" "rxbufSize e1 = 0"
    "\<not> lastCharIsEsc e1"
    using e esc assms(3) room
    by (cases "dec_abs d"; auto simp: e1_def dec_abs_clear rx_clear_def lastCharIsEsc_abs)+
  have "consume d (xs @ [x]) = count_byte (store e1 x)"
    using snoc.prems e1(4)
    by (auto simp: consume_append consume_def [of e] consume_byte_accept accept_byte_def simp flip: e_def e1_def)
  moreover have "unat (rxbufPos e1 + 1) = Suc (unat (rxbufPos e1))"
    using snoc.prems(3) by (simp add: e1 unat_word_ariths unat_of_nat_size)
  ultimately show ?case
    using e1 by (simp add: dec_abs_store_unbounded) (simp add: store_def count_byte_def)
qed

section \<open>Properties\<close>

text \<open>A decoder with a buffer of eight bytes, used by the witnesses.\<close>

definition sample_decoder :: Decoder where
  "sample_decoder = Decoder_log (\<lambda>_. 0) 8 True"

lemma sample_reach: "dec_reach (\<lambda>_. 0) 8 sample_decoder"
  unfolding sample_decoder_def by (rule make_log)

lemma sample_abs: "dec_abs sample_decoder = \<lparr>rx_esc = False, rx_acc = [], rx_out = []\<rparr>"
  by (simp add: dec_abs_def sample_decoder_def Decoder_log_def)

lemma sample_idle: "dec_idle sample_decoder"
  by (simp add: sample_decoder_def)

text \<open>
  C7: Refinement. From every reachable decoder with a non-empty buffer, consuming a buffer of
  bytes does to the abstraction of the decoder (pending escape, collected payload, messages
  delivered through the callback) what the stream automaton with that capacity does.
\<close>
theorem consume_refines_automaton:
  assumes "dec_reach m n d" "0 < n"
  shows "dec_abs (consume d data) = foldl (rx_step_cap (unat n)) (dec_abs d) data"
  using consume_sim [OF dec_reach_inv [OF assms]] .

theorem consume_refines_automaton_witness:
  "messages (calls (consume sample_decoder [1, 0xDB, 0xDC, 0xC0])) = [[1, 0xC0]]"
  using consume_refines_automaton [OF sample_reach, of "[1, 0xDB, 0xDC, 0xC0]"]
  by (simp add: sample_abs rx_out_abs rx_step_cap_def rx_step_def rx_full_def slip_consts)

text \<open>
  C13: Memory safety and bounds. A reachable decoder with a non-empty buffer has its position
  inside the buffer and has not changed any byte outside of it, whatever it was fed through
  either variant of the byte operation and whether or not it has delivered a message; every message it
  has delivered is empty or at least two bytes shorter than the buffer.
\<close>
theorem decoder_memory_safe:
  assumes "dec_reach m n d" "0 < n"
  shows "(\<forall>a. unat n \<le> a \<longrightarrow> rxbuf d a = m a) \<and> rxbufPos d \<le> n \<and>
    (\<forall>f \<in> set (messages (calls d)). f = [] \<or> length f + 2 \<le> unat n)"
  using dec_reach_inv [OF assms] dec_reach_fits [OF assms]
  by (auto simp: dec_inv_def rx_fits_def rx_out_abs)

theorem decoder_memory_safe_witness:
  "rxbuf (consume sample_decoder [1, 2, 3]) 8 = 0 \<and> rxbufPos (consume sample_decoder [1, 2, 3]) \<le> 8 \<and>
   length [1, 2 :: byte] + 2 \<le> unat (8 :: size_t)"
proof -
  have "[1, 2] \<in> set (messages (calls (consume sample_decoder (slip_encode [1, 2]))))"
    using consume_frames(1) [OF dec_reach_inv [OF sample_reach] sample_idle, of "[[1, 2]]"] by simp
  with decoder_memory_safe [OF dec_reach_consume [OF sample_reach], of "slip_encode [1, 2]"]
    decoder_memory_safe [OF dec_reach_consume [OF sample_reach], of "[1, 2, 3]"]
  show ?thesis by auto
qed

text \<open>
  C9: An idle decoder that consumes the frames of a list of payloads, each at least two bytes
  shorter than the buffer, delivers exactly these payloads in order and is idle again.
\<close>
theorem decoder_delivers_frames:
  assumes "dec_reach m n d" "dec_idle d" "\<forall>f \<in> set fs. length f + 2 \<le> unat n" "0 < n"
  shows "messages (calls (consume d (concat (map slip_encode fs)))) = messages (calls d) @ fs \<and>
    dec_idle (consume d (concat (map slip_encode fs)))"
  using consume_frames [OF dec_reach_inv [OF assms(1,4)] assms(2)] assms(3) by blast

theorem decoder_delivers_frames_witness:
  "messages (calls (consume sample_decoder (concat (map slip_encode [[1, 0xC0], [], [0xDB, 2, 3, 4, 5, 6]])))) =
     [[1, 0xC0], [], [0xDB, 2, 3, 4, 5, 6]]"
  using decoder_delivers_frames [OF sample_reach sample_idle, of "[[1, 0xC0], [], [0xDB, 2, 3, 4, 5, 6]]"]
  by (simp add: sample_decoder_def Decoder_log_def)

text \<open>
  C10: Behaviour on payloads of any length. An idle decoder with a buffer of n bytes delivers
  exactly one message for the frame of a payload: the last (length mod (n - 1)) bytes of
  the payload, that is all of it up to length n - 2, and otherwise its tail behind the
  last overflow. If there is no extended log callback, the trace of the callback calls is exact:
  one log call (if the log callback is set) for each n - 1 bytes of the payload, all of them ahead of
  the message.
\<close>
theorem decoder_oversized_frame:
  assumes "dec_reach m n d" "dec_idle d" "2 \<le> n"
  shows "messages (calls (consume d (slip_encode xs))) =
      messages (calls d) @ [drop (length xs div (unat n - 1) * (unat n - 1)) xs] \<and>
    (\<not> logCallbackEx d \<longrightarrow> calls (consume d (slip_encode xs)) = calls d @
      (if logCallback d then replicate (length xs div (unat n - 1)) (Log LogRXBufferOverflow ''RX buffer overflow'') else []) @
      [Message (drop (length xs div (unat n - 1) * (unat n - 1)) xs)])"
proof -
  have "0 < n" using assms(3) by (simp add: word_less_nat_alt word_le_nat_alt)
  then have inv: "dec_inv n m d" by (rule dec_reach_inv [OF assms(1)])
  have "concat (replicate k [c]) = replicate k c" for k and c :: callback
    by (induction k) simp_all
  then have "concat (replicate k (overflow_log d)) =
      (if logCallback d then replicate k (Log LogRXBufferOverflow ''RX buffer overflow'') else [])" for k
    by (simp add: overflow_log_def)
  with consume_frame_exact [OF inv assms(2,3)] consume_frame_calls [OF inv assms(2,3)] show ?thesis
    by simp
qed

theorem decoder_oversized_frame_witness:
  "calls (consume (Decoder_log (\<lambda>_. 0) 8 True) (slip_encode [1, 2, 3, 4, 5, 6, 7, 8, 9])) =
     [Log LogRXBufferOverflow ''RX buffer overflow'', Message [8, 9]]"
  using decoder_oversized_frame [OF dec_reach.make_log, of "\<lambda>_. 0" 8 True "[1, 2, 3, 4, 5, 6, 7, 8, 9]"]
  by (simp add: Decoder_log_def [of _ 8 True] dec_idle_def)

text \<open>
  The same happens after an invalid escape: the bytes of the frame that follow it are
  delivered as a message of their own.
\<close>
theorem bad_escape_tail_delivered:
  "messages (calls (consume sample_decoder [1, 0xDB, 7, 2, 3, 0xC0])) = [[2, 3]]"
  using consume_sim [OF dec_reach_inv [OF sample_reach], of "[1, 0xDB, 7, 2, 3, 0xC0]"]
  by (simp add: sample_abs rx_out_abs rx_step_cap_def rx_step_def rx_full_def slip_consts)

text \<open>
  C19: Resynchronisation. Whatever a reachable decoder has consumed before, one END byte makes it
  idle, and all frames that follow and fit are delivered.
\<close>
theorem decoder_resynchronises:
  assumes "dec_reach m n d" "0 < n" "\<forall>f \<in> set fs. length f + 2 \<le> unat n"
  shows "dec_idle (consume d (garbage @ [END])) \<and>
    messages (calls (consume d (garbage @ [END] @ concat (map slip_encode fs)))) =
      messages (calls (consume d (garbage @ [END]))) @ fs"
proof -
  have inv: "dec_inv n m (consume d xs)" for xs
    using consume_inv [OF dec_reach_inv [OF assms(1,2)]] .
  have "dec_idle (consume d (garbage @ [END]))"
    using consume_END_idle [OF inv [of garbage]] by (simp add: consume_def)
  with consume_frames(1) [OF inv [of "garbage @ [END]"], of fs] assms(3) show ?thesis
    by (simp add: consume_def)
qed

theorem decoder_resynchronises_witness:
  "dec_idle (consume sample_decoder ([7, 0xDB] @ [END]))"
  using decoder_resynchronises [OF sample_reach, of "[]" "[7, 0xDB]"] by simp

text \<open>
  C20: The error-reporting variant agrees with the plain one up to the first byte it rejects (no
  room left, or no valid escape). Without one it consumes everything, with the same
  final decoder. With one it stops there, reports its index as the count of consumed
  bytes and its error, and the decoder is reset: the rejected byte is not processed.
\<close>
theorem consume_ex_correct:
  assumes "consume_ex d data = (d', r)"
  shows "if has_error r then
     (\<exists>i<length data. \<exists>e. e = consume d (take i data) \<and> consumed r = of_nat i \<and>
        (\<forall>j<i. \<not> byte_rejected (consume d (take j data)) (data ! j)) \<and> byte_rejected e (data ! i) \<and>
        d' = (if no_room e then rx_overflow e else bad_escape e) \<and>
        code (cerror r) = (if no_room e then RXBufferOverflow else DecodeInvalidEscapeSequence))
     else d' = consume d data \<and> r = ConsumeResult_ok (of_nat (length data)) \<and>
        (\<forall>j<length data. \<not> byte_rejected (consume d (take j data)) (data ! j))"
proof (cases "has_error r")
  case True
  with consume_ex_loop_correct [OF assms [unfolded consume_ex_def]] obtain i where
    i: "i < length data" "consumed r = of_nat i"
      "\<forall>j<i. \<not> byte_rejected (consume d (take j data)) (data ! j)" and
    rej: "byte_rejected (consume d (take i data)) (data ! i)"
      "(d', r) = apsnd (\<lambda>r. r\<lparr>consumed := of_nat i\<rparr>) (consume_ex_byte (consume d (take i data)) (data ! i))"
    by auto
  from rej have "d' = (if no_room (consume d (take i data)) then rx_overflow (consume d (take i data))
      else bad_escape (consume d (take i data)))"
    "code (cerror r) = (if no_room (consume d (take i data)) then RXBufferOverflow else DecodeInvalidEscapeSequence)"
    by (auto simp: consume_ex_byte_cases ConsumeResult_err_def error_defs split: if_splits)
  with i rej(1) True show ?thesis by auto
next
  case False
  with consume_ex_loop_correct [OF assms [unfolded consume_ex_def]] show ?thesis by simp
qed

theorem consume_ex_correct_witness:
  "fst (consume_ex sample_decoder [1, 0xDB, 0xDC]) = consume sample_decoder [1, 0xDB, 0xDC]"
proof -
  have "\<not> has_error (snd (consume_ex sample_decoder [1, 0xDB, 0xDC]))"
    by (simp add: consume_ex_def consume_ex_byte_def sample_decoder_def Decoder_log_def no_room_def
        slip_consts store_def count_byte_def ConsumeResult_ok_def)
  then show ?thesis
    using consume_ex_correct [of sample_decoder "[1, 0xDB, 0xDC]", OF surjective_pairing] by simp
qed

text \<open>
  C30: With a positive chunk size, consuming in chunks terminates, returns the number of bytes,
  and leaves the same decoder as consuming the buffer at once. The error-reporting
  chunked variant terminates with the
  decoder, the error flag and the error of the unchunked variant. On an error the
  number of consumed bytes is that of the unchunked variant rounded down to a whole
  number of chunks: the bytes of the failing chunk that were processed are not counted.
\<close>
theorem consume_chunk_correct:
  assumes "0 < chunk_size" "length data < 2 ^ 64" "consume_ex d data = (d', r)"
  shows "consume_chunk d data chunk_size = Some (consume d data, of_nat (length data)) \<and>
    consume_chunk_ex d data chunk_size = Some (d',
      if has_error r then r\<lparr>consumed := of_nat (unat (consumed r) div unat chunk_size * unat chunk_size)\<rparr> else r)"
  using consume_chunk_loop_eq [of 0 data chunk_size d] consume_chunk_ex_loop_eq [of 0 data chunk_size d] assms
  by (simp add: consume_chunk_def consume_chunk_ex_def round_consumed_def)

theorem consume_chunk_correct_witness:
  "consume_chunk sample_decoder [1, 2, 3, 4, 5, 0xDB, 6, 7] 4 =
     Some (consume sample_decoder [1, 2, 3, 4, 5, 0xDB, 6, 7], 8) \<and>
   consumed (snd (the (consume_chunk_ex sample_decoder [1, 2, 3, 4, 5, 0xDB, 6, 7] 4))) = 4 \<and>
   consumed (snd (consume_ex sample_decoder [1, 2, 3, 4, 5, 0xDB, 6, 7])) = 6"
proof -
  let ?data = "[1, 2, 3, 4, 5, 0xDB, 6, 7]"
  have "has_error (snd (consume_ex sample_decoder ?data)) \<and> consumed (snd (consume_ex sample_decoder ?data)) = 6"
    by (simp add: consume_ex_def consume_ex_byte_def sample_decoder_def Decoder_log_def no_room_def
        slip_consts store_def count_byte_def bad_escape_def reset_def ConsumeResult_ok_def ConsumeResult_err_def)
  then show ?thesis
    using consume_chunk_correct [of 4 ?data sample_decoder, OF _ _ surjective_pairing] by simp
qed

text \<open>
  With chunk size 0 neither chunked variant returns on a non-empty buffer.
\<close>
theorem consume_chunk_zero_diverges:
  assumes "data \<noteq> []" "length data < 2 ^ 64"
  shows "consume_chunk d data 0 = None \<and> consume_chunk_ex d data 0 = None"
proof -
  have "0 < (of_nat (length data) :: size_t)"
    using assms by (simp add: word_less_nat_alt unat_of_nat_size)
  then show ?thesis
    by (simp add: consume_chunk_def consume_chunk_ex_def consume_chunk_loop_diverges consume_chunk_ex_loop_diverges)
qed

theorem consume_chunk_zero_diverges_witness: "consume_chunk sample_decoder [1] 0 = None"
  using consume_chunk_zero_diverges [of "[1]" sample_decoder] by simp

text \<open>
  C33: Errors are not recorded: \<open>getLastError\<close> of a reachable decoder never reports an error, since
  every assignment of one is followed by a reset that clears it, and for the same reason
  the position in a result of \<open>consume_ex\<close> is always 0.
\<close>
theorem decoder_error_record_lost:
  assumes "dec_reach m n d"
  shows "getLastError d = ErrorInfo_of_code Success \<and> position (cerror (snd (consume_ex d data))) = 0"
  using dec_reach_lastError [OF assms] consume_ex_loop_position [of d data 0]
  by (simp add: getLastError_def consume_ex_def)

theorem decoder_error_record_lost_witness:
  "getLastError (consume sample_decoder (replicate 20 1)) = ErrorInfo_of_code Success"
  using decoder_error_record_lost [OF dec_reach_consume [OF sample_reach]] by simp

text \<open>
  C34: A decoder made for an empty buffer writes through the pointer all the same. The first byte
  is stored behind the reset of the overflow branch, and from then on the check for room
  subtracts modulo 2 ^ 64 and passes: a run of ordinary bytes ends up at the addresses
  starting with that of the pointer, none of which belongs to the buffer.
\<close>
theorem decoder_empty_buffer_overrun:
  assumes "END \<notin> set xs" "ESC \<notin> set xs" "length xs < 2 ^ 64"
  shows "mem_range (rxbuf (consume (Decoder_log m 0 h) xs)) 0 (length xs) = xs"
proof -
  define d where "d = Decoder_log m 0 h"
  have "rxbufSize d = 0" "rxbufPos d = 0" "\<not> lastCharIsEsc d"
    by (simp_all add: d_def Decoder_log_def)
  from consume_zero_size [OF this assms]
  have "rx_acc (dec_abs (consume d xs)) = xs" "unat (rxbufPos (consume d xs)) = length xs"
    using assms(3) by (simp_all add: unat_of_nat_size)
  then show ?thesis by (simp add: dec_abs_def d_def)
qed

theorem decoder_empty_buffer_overrun_witness:
  "mem_range (rxbuf (consume (Decoder_log (\<lambda>_. 0) 0 True) [1, 2, 3])) 0 3 = [1, 2, 3]"
  using decoder_empty_buffer_overrun [of "[1, 2, 3]" "\<lambda>_. 0" True] by (simp add: slip_consts numeral_3_eq_3)

end
