(* ===== verification/Slip_Encoder.thy ===== *)
theory Slip_Encoder
  imports Slip_Spec
begin

text \<open>
  The buffering encoder, \<open>include/SLIPStream/Encoder.hpp\<close> and \<open>src/Encoder.cpp\<close>. The object is
  a record whose ring buffer is a list with word-sized indices. The output callback is code
  of the client: a parameter \<open>out\<close> of the operations, from the state it captures and a byte
  to its status and its next state, about which nothing is assumed unless a
  theorem says so. The bytes it has accepted are recorded in the object. All operations
  conserve the stream of bytes accepted or queued; the ring buffer is a bounded queue.
\<close>

section \<open>Data\<close>

datatype WriteStatus = Ok | RetryLater | Error

record WriteResult =
  wstatus :: WriteStatus
  werror :: ErrorInfo

definition WriteResult_of :: "WriteStatus \<Rightarrow> WriteResult" where
  "WriteResult_of s = \<lparr>wstatus = s, werror = ErrorInfo_of_code Success\<rparr>"

definition WriteResult_err :: "ErrorCode \<Rightarrow> size_t \<Rightarrow> string \<Rightarrow> WriteResult" where
  "WriteResult_err c pos msg = \<lparr>wstatus = Error, werror = mk_ErrorInfo c pos msg\<rparr>"

definition WriteResult_is_retry :: "WriteResult \<Rightarrow> bool" where
  "WriteResult_is_retry r \<longleftrightarrow> wstatus r = RetryLater"

definition WriteResult_is_error :: "WriteResult \<Rightarrow> bool" where
  "WriteResult_is_error r \<longleftrightarrow> wstatus r = Error"

record PushPacketResult =
  pstatus :: WriteStatus
  pconsumed :: size_t
  perror :: ErrorInfo

definition PushPacketResult_of :: "WriteStatus \<Rightarrow> size_t \<Rightarrow> PushPacketResult" where
  "PushPacketResult_of s n = \<lparr>pstatus = s, pconsumed = n, perror = ErrorInfo_of_code Success\<rparr>"

definition PushPacketResult_err :: "ErrorCode \<Rightarrow> size_t \<Rightarrow> size_t \<Rightarrow> string \<Rightarrow> PushPacketResult" where
  "PushPacketResult_err c n pos msg = \<lparr>pstatus = Error, pconsumed = n, perror = mk_ErrorInfo c pos msg\<rparr>"

definition PushPacketResult_is_retry :: "PushPacketResult \<Rightarrow> bool" where
  "PushPacketResult_is_retry r \<longleftrightarrow> pstatus r = RetryLater"

definition PushPacketResult_is_error :: "PushPacketResult \<Rightarrow> bool" where
  "PushPacketResult_is_error r \<longleftrightarrow> pstatus r = Error"

type_synonym 's OutputFn = "'s \<Rightarrow> byte \<Rightarrow> WriteStatus \<times> 's"

text \<open>
  \<open>sink\<close> is the state captured by the output callback and \<open>accepted\<close> the record of the
  bytes for which it returned \<open>Ok\<close>; the other fields are those of the class.
\<close>

record 's Encoder =
  sink :: 's
  accepted :: "byte list"
  txBuf :: "byte list"
  txHead :: size_t
  txTail :: size_t
  txSize :: size_t
  maxSendChunk :: size_t
  endPending :: bool

definition mk_Encoder :: "'s \<Rightarrow> size_t \<Rightarrow> size_t \<Rightarrow> 's Encoder" where
  "mk_Encoder s txBufferSize n =
     \<lparr>sink = s, accepted = [], txBuf = replicate (unat txBufferSize) 0, txHead = 0, txTail = 0,
      txSize = 0, maxSendChunk = n, endPending = False\<rparr>"

definition setMaxSendChunk :: "'s Encoder \<Rightarrow> size_t \<Rightarrow> 's Encoder" where
  "setMaxSendChunk e n = e\<lparr>maxSendChunk := n\<rparr>"

definition queued :: "'s Encoder \<Rightarrow> size_t" where
  "queued e = txSize e"

definition capacity :: "'s Encoder \<Rightarrow> size_t" where
  "capacity e = of_nat (length (txBuf e))"

definition free :: "'s Encoder \<Rightarrow> size_t" where
  "free e = of_nat (length (txBuf e)) - txSize e"

section \<open>The ring buffer\<close>

definition queueByte :: "'s Encoder \<Rightarrow> byte \<Rightarrow> bool \<times> 's Encoder" where
  "queueByte e b =
     (if txSize e \<ge> of_nat (length (txBuf e)) then (False, e)
      else (True, e\<lparr>txBuf := (txBuf e)[unat (txTail e) := b],
                    txTail := (txTail e + 1) mod of_nat (length (txBuf e)),
                    txSize := txSize e + 1\<rparr>))"

text \<open>The reference argument \<open>b\<close> is passed in and returned.\<close>

definition dequeueByte :: "'s Encoder \<Rightarrow> byte \<Rightarrow> bool \<times> byte \<times> 's Encoder" where
  "dequeueByte e b =
     (if txSize e = 0 then (False, b, e)
      else (True, txBuf e ! unat (txHead e),
            e\<lparr>txHead := (txHead e + 1) mod of_nat (length (txBuf e)), txSize := txSize e - 1\<rparr>))"

section \<open>Sending\<close>

definition call_output :: "'s OutputFn \<Rightarrow> 's Encoder \<Rightarrow> byte \<Rightarrow> WriteStatus \<times> 's Encoder" where
  "call_output out e b =
     (case out (sink e) b of (st, s) \<Rightarrow>
        (st, e\<lparr>sink := s, accepted := (if st = Ok then accepted e @ [b] else accepted e)\<rparr>))"

lemma call_output_txSize [simp]: "txSize (snd (call_output out e b)) = txSize e"
  by (simp add: call_output_def split: prod.splits)

lemma dequeueByte_txSize: "0 < txSize e \<Longrightarrow> unat (txSize (snd (snd (dequeueByte e b)))) < unat (txSize e)"
  by (simp add: dequeueByte_def word_less_nat_alt unat_minus_one unat_gt_0)

function flush_loop :: "'s OutputFn \<Rightarrow> 's Encoder \<Rightarrow> size_t \<Rightarrow> WriteStatus \<times> 's Encoder" where
  "flush_loop out e sent =
     (if txSize e > 0 \<and> sent < maxSendChunk e then
        let b = txBuf e ! unat (txHead e);
            r = call_output out e b
        in if fst r = Ok then flush_loop out (snd (snd (dequeueByte (snd r) b))) (sent + 1)
           else if fst r = RetryLater then (RetryLater, snd r)
           else (Error, snd r)
      else (Ok, e))"
  by auto
termination
proof (relation "measure (\<lambda>(out, e, sent). unat (txSize e))")
  fix out :: "'s OutputFn" and e sent b r
  assume "0 < txSize e \<and> sent < maxSendChunk e" "r = call_output out e b"
  then show "((out, snd (snd (dequeueByte (snd r) b)), sent + 1), out, e, sent)
      \<in> measure (\<lambda>(out, e, sent). unat (txSize e))"
    using dequeueByte_txSize [of "snd r" b] by simp
qed simp

definition flush :: "'s OutputFn \<Rightarrow> 's Encoder \<Rightarrow> WriteStatus \<times> 's Encoder" where
  "flush out e = flush_loop out e 0"

function flush_ex_loop :: "'s OutputFn \<Rightarrow> 's Encoder \<Rightarrow> size_t \<Rightarrow> WriteResult \<times> 's Encoder" where
  "flush_ex_loop out e sent =
     (if txSize e > 0 \<and> sent < maxSendChunk e then
        let b = txBuf e ! unat (txHead e);
            r = call_output out e b
        in if fst r = Ok then flush_ex_loop out (snd (snd (dequeueByte (snd r) b))) (sent + 1)
           else if fst r = RetryLater then (WriteResult_of RetryLater, snd r)
           else (WriteResult_err EncodeInternalError sent ''Output function returned error'', snd r)
      else (WriteResult_of Ok, e))"
  by auto
termination
proof (relation "measure (\<lambda>(out, e, sent). unat (txSize e))")
  fix out :: "'s OutputFn" and e sent b r
  assume "0 < txSize e \<and> sent < maxSendChunk e" "r = call_output out e b"
  then show "((out, snd (snd (dequeueByte (snd r) b)), sent + 1), out, e, sent)
      \<in> measure (\<lambda>(out, e, sent). unat (txSize e))"
    using dequeueByte_txSize [of "snd r" b] by simp
qed simp

definition flush_ex :: "'s OutputFn \<Rightarrow> 's Encoder \<Rightarrow> WriteResult \<times> 's Encoder" where
  "flush_ex out e = flush_ex_loop out e 0"

declare flush_loop.simps [simp del] flush_ex_loop.simps [simp del]

definition ensureFree :: "'s OutputFn \<Rightarrow> 's Encoder \<Rightarrow> size_t \<Rightarrow> WriteStatus \<times> 's Encoder" where
  "ensureFree out e n =
     (if of_nat (length (txBuf e)) - txSize e \<ge> n then (Ok, e)
      else case flush out e of (st, e') \<Rightarrow>
        if st \<noteq> Ok then (st, e')
        else (if of_nat (length (txBuf e')) - txSize e' \<ge> n then Ok else RetryLater, e'))"

section \<open>Encoding\<close>

text \<open>
  One payload byte. \<open>data\<close> is the list of the \<open>size\<close> bytes at the pointer; the middle
  component of the result is the reference argument \<open>consumed\<close>.
\<close>

definition encodeOne :: "'s OutputFn \<Rightarrow> 's Encoder \<Rightarrow> byte list \<Rightarrow> WriteStatus \<times> size_t \<times> 's Encoder" where
  "encodeOne out e data =
     (if data = [] then (Ok, 0, e)
      else let c = hd data in
        if c = END then
          case ensureFree out e 2 of (st, e) \<Rightarrow>
            if st \<noteq> Ok then (st, 0, e)
            else case queueByte e ESC of (ok1, e) \<Rightarrow>
              if \<not> ok1 then (RetryLater, 0, e)
              else case queueByte e ESCEND of (ok2, e) \<Rightarrow>
                if \<not> ok2 then (RetryLater, 0, e) else (Ok, 1, e)
        else if c = ESC then
          case ensureFree out e 2 of (st, e) \<Rightarrow>
            if st \<noteq> Ok then (st, 0, e)
            else case queueByte e ESC of (ok1, e) \<Rightarrow>
              if \<not> ok1 then (RetryLater, 0, e)
              else case queueByte e ESCESC of (ok2, e) \<Rightarrow>
                if \<not> ok2 then (RetryLater, 0, e) else (Ok, 1, e)
        else
          case ensureFree out e 1 of (st, e) \<Rightarrow>
            if st \<noteq> Ok then (st, 0, e)
            else case queueByte e c of (ok1, e) \<Rightarrow>
              if \<not> ok1 then (RetryLater, 0, e) else (Ok, 1, e))"

lemma encodeOne_Ok_1: "encodeOne out e data = (Ok, c, e') \<Longrightarrow> data \<noteq> [] \<Longrightarrow> c = 1"
  by (auto simp: encodeOne_def Let_def split: prod.splits if_splits)

lemma word_less_of_nat_length:
  "n < (of_nat (length data) :: size_t) \<Longrightarrow> unat n < length data"
  by (metis less_le_trans unat_of_nat word_less_nat_alt mod_less_eq_dividend)

lemma encodeOne_progress:
  assumes "n < of_nat (length data)" "encodeOne out e (drop (unat n) data) = (Ok, c, e1)"
  shows "unat (of_nat (length data) - (n + c)) < unat (of_nat (length data) - n)"
proof -
  have "drop (unat n) data \<noteq> []"
    using word_less_of_nat_length [OF assms(1)] by simp
  with assms(2) have "c = 1" by (rule encodeOne_Ok_1)
  with measure_dec_size [OF assms(1)] show ?thesis by simp
qed

text \<open>The payload loop: the status, the count of consumed bytes and the encoder behind it.\<close>

function pushPacket_loop ::
    "'s OutputFn \<Rightarrow> 's Encoder \<Rightarrow> byte list \<Rightarrow> size_t \<Rightarrow> WriteStatus \<times> size_t \<times> 's Encoder" where
  "pushPacket_loop out e data n =
     (if n < of_nat (length data) then
        case encodeOne out e (drop (unat n) data) of (st, c, e1) \<Rightarrow>
          if st \<noteq> Ok then (st, n, e1)
          else case flush out e1 of (st, e2) \<Rightarrow>
            if st = Error then (st, n + c, e2)
            else if st = RetryLater then (st, n + c, e2)
            else pushPacket_loop out e2 data (n + c)
      else (Ok, n, e))"
  by auto
termination
  by (relation "measure (\<lambda>(out, e, data, n). unat (of_nat (length data) - n))")
    (auto dest: encodeOne_progress [OF _ sym])

declare pushPacket_loop.simps [simp del]

text \<open>The END that an earlier call had no room for (lines 108-117).\<close>

definition pushPacket_pending :: "'s OutputFn \<Rightarrow> 's Encoder \<Rightarrow> WriteStatus \<times> 's Encoder" where
  "pushPacket_pending out e =
     (if endPending e then
        case ensureFree out e 1 of (st, e1) \<Rightarrow>
          if st \<noteq> Ok then (st, e1)
          else flush out ((snd (queueByte e1 END))\<lparr>endPending := False\<rparr>)
      else (Ok, e))"

text \<open>The END of the packet itself (lines 132-144).\<close>

definition pushPacket_end :: "'s OutputFn \<Rightarrow> 's Encoder \<Rightarrow> WriteStatus \<times> 's Encoder" where
  "pushPacket_end out e =
     (case ensureFree out e 1 of (st, e1) \<Rightarrow>
        if st \<noteq> Ok then (st, if st = RetryLater then e1\<lparr>endPending := True\<rparr> else e1)
        else flush out (snd (queueByte e1 END)))"

definition pushPacket ::
    "'s OutputFn \<Rightarrow> 's Encoder \<Rightarrow> byte list \<Rightarrow> (WriteStatus \<times> size_t) \<times> 's Encoder" where
  "pushPacket out e data =
     (case flush out e of (st, e1) \<Rightarrow>
        if st = Error then ((st, 0), e1)
        else if st = RetryLater then ((st, 0), e1)
        else case pushPacket_pending out e1 of (st, e2) \<Rightarrow>
          if st \<noteq> Ok then ((st, 0), e2)
          else case pushPacket_loop out e2 data 0 of (st, n, e3) \<Rightarrow>
            if st \<noteq> Ok then ((st, n), e3)
            else case pushPacket_end out e3 of (st, e4) \<Rightarrow> ((st, n), e4))"

section \<open>Encoding with error information\<close>

text \<open>
  \<open>Some\<close> result is an early return; the outcome of a flush that is not \<open>Ok\<close> becomes one
  with the count of bytes consumed so far, as the code does behind every call.
\<close>

definition flush_outcome :: "WriteResult \<Rightarrow> size_t \<Rightarrow> PushPacketResult option" where
  "flush_outcome wr n =
     (if WriteResult_is_error wr then Some (PushPacketResult_err (code (werror wr)) n n (message (werror wr)))
      else if WriteResult_is_retry wr then Some (PushPacketResult_of RetryLater n)
      else None)"

definition pushPacket_ex_pending ::
    "'s OutputFn \<Rightarrow> 's Encoder \<Rightarrow> PushPacketResult option \<times> 's Encoder" where
  "pushPacket_ex_pending out e =
     (if endPending e then
        case ensureFree out e 1 of (st, e1) \<Rightarrow>
          if st \<noteq> Ok then
            (if st = RetryLater then (Some (PushPacketResult_of RetryLater 0), e1)
             else (Some (PushPacketResult_err EncodeInternalError 0 0
                          ''Failed to ensure free space for pending END''), e1))
          else case flush_ex out ((snd (queueByte e1 END))\<lparr>endPending := False\<rparr>) of (wr, e2) \<Rightarrow>
            (flush_outcome wr 0, e2)
      else (None, e))"

function pushPacket_ex_loop ::
    "'s OutputFn \<Rightarrow> 's Encoder \<Rightarrow> byte list \<Rightarrow> size_t \<Rightarrow> PushPacketResult option \<times> size_t \<times> 's Encoder" where
  "pushPacket_ex_loop out e data n =
     (if n < of_nat (length data) then
        case encodeOne out e (drop (unat n) data) of (st, c, e1) \<Rightarrow>
          if st \<noteq> Ok then
            (if st = RetryLater then (Some (PushPacketResult_of RetryLater n), n, e1)
             else (Some (PushPacketResult_err EncodeInternalError n n ''Failed to encode byte''), n, e1))
          else case flush_ex out e1 of (wr, e2) \<Rightarrow>
            (case flush_outcome wr (n + c) of
               Some r \<Rightarrow> (Some r, n + c, e2)
             | None \<Rightarrow> pushPacket_ex_loop out e2 data (n + c))
      else (None, n, e))"
  by auto
termination
  by (relation "measure (\<lambda>(out, e, data, n). unat (of_nat (length data) - n))")
    (auto dest: encodeOne_progress [OF _ sym])

declare pushPacket_ex_loop.simps [simp del]

definition pushPacket_ex_end :: "'s OutputFn \<Rightarrow> 's Encoder \<Rightarrow> size_t \<Rightarrow> PushPacketResult \<times> 's Encoder" where
  "pushPacket_ex_end out e n =
     (case ensureFree out e 1 of (st, e1) \<Rightarrow>
        if st \<noteq> Ok then
          (PushPacketResult_of RetryLater n, if st = RetryLater then e1\<lparr>endPending := True\<rparr> else e1)
        else case flush_ex out (snd (queueByte e1 END)) of (wr, e2) \<Rightarrow>
          (case flush_outcome wr n of
             Some r \<Rightarrow> (r, e2)
           | None \<Rightarrow> (PushPacketResult_of Ok n, e2)))"

definition pushPacket_ex :: "'s OutputFn \<Rightarrow> 's Encoder \<Rightarrow> byte list \<Rightarrow> PushPacketResult \<times> 's Encoder" where
  "pushPacket_ex out e data =
     (case flush_ex out e of (wr, e1) \<Rightarrow>
        (case flush_outcome wr 0 of
           Some r \<Rightarrow> (r, e1)
         | None \<Rightarrow>
             (case pushPacket_ex_pending out e1 of (early, e2) \<Rightarrow>
                (case early of
                   Some r \<Rightarrow> (r, e2)
                 | None \<Rightarrow>
                     (case pushPacket_ex_loop out e2 data 0 of (early, n, e3) \<Rightarrow>
                        (case early of
                           Some r \<Rightarrow> (r, e3)
                         | None \<Rightarrow> pushPacket_ex_end out e3 n))))))"

section \<open>Chunked encoding\<close>

text \<open>The loops may not end when the chunk size is 0; \<open>None\<close> is a loop that never returns.\<close>

partial_function (option) pushPacket_chunk_loop ::
    "'s OutputFn \<Rightarrow> 's Encoder \<Rightarrow> byte list \<Rightarrow> size_t \<Rightarrow> size_t \<Rightarrow> ((WriteStatus \<times> size_t) \<times> 's Encoder) option" where
  "pushPacket_chunk_loop out e data chunk_size n =
     (if n < of_nat (length data) then
        let to_process = min chunk_size (of_nat (length data) - n)
        in case pushPacket out e (take (unat to_process) (drop (unat n) data)) of ((st, c), e1) \<Rightarrow>
          if st \<noteq> Ok then Some ((st, n), e1)
          else pushPacket_chunk_loop out e1 data chunk_size (n + c)
      else Some ((Ok, n), e))"

definition pushPacket_chunk ::
    "'s OutputFn \<Rightarrow> 's Encoder \<Rightarrow> byte list \<Rightarrow> size_t \<Rightarrow> ((WriteStatus \<times> size_t) \<times> 's Encoder) option" where
  "pushPacket_chunk out e data chunk_size = pushPacket_chunk_loop out e data chunk_size 0"

partial_function (option) pushPacket_chunk_ex_loop ::
    "'s OutputFn \<Rightarrow> 's Encoder \<Rightarrow> byte list \<Rightarrow> size_t \<Rightarrow> size_t \<Rightarrow> (PushPacketResult \<times> 's Encoder) option" where
  "pushPacket_chunk_ex_loop out e data chunk_size n =
     (if n < of_nat (length data) then
        let to_process = min chunk_size (of_nat (length data) - n)
        in case pushPacket_ex out e (take (unat to_process) (drop (unat n) data)) of (r, e1) \<Rightarrow>
          if PushPacketResult_is_retry r then Some (PushPacketResult_of RetryLater n, e1)
          else if PushPacketResult_is_error r then
            Some (PushPacketResult_err (code (perror r)) n n (message (perror r)), e1)
          else pushPacket_chunk_ex_loop out e1 data chunk_size (n + pconsumed r)
      else Some (PushPacketResult_of Ok n, e))"

definition pushPacket_chunk_ex ::
    "'s OutputFn \<Rightarrow> 's Encoder \<Rightarrow> byte list \<Rightarrow> size_t \<Rightarrow> (PushPacketResult \<times> 's Encoder) option" where
  "pushPacket_chunk_ex out e data chunk_size = pushPacket_chunk_ex_loop out e data chunk_size 0"

section \<open>The ring buffer is a bounded queue\<close>

text \<open>
  The interface: an invariant, the contents in order, a capacity, and the two operations
  with their laws. A rejected operation changes nothing.
\<close>

locale bounded_queue =
  fixes inv :: "'q \<Rightarrow> bool"
    and contents :: "'q \<Rightarrow> 'a list"
    and cap :: "'q \<Rightarrow> nat"
    and enq :: "'q \<Rightarrow> 'a \<Rightarrow> bool \<times> 'q"
    and deq :: "'q \<Rightarrow> 'a \<Rightarrow> bool \<times> 'a \<times> 'q"
  assumes bounded: "inv q \<Longrightarrow> length (contents q) \<le> cap q"
    and enq_room: "inv q \<Longrightarrow> length (contents q) < cap q \<Longrightarrow>
      \<exists>q'. enq q x = (True, q') \<and> inv q' \<and> contents q' = contents q @ [x] \<and> cap q' = cap q"
    and enq_full: "inv q \<Longrightarrow> length (contents q) = cap q \<Longrightarrow> enq q x = (False, q)"
    and deq_some: "inv q \<Longrightarrow> contents q = y # ys \<Longrightarrow>
      \<exists>q'. deq q x = (True, y, q') \<and> inv q' \<and> contents q' = ys \<and> cap q' = cap q"
    and deq_empty: "inv q \<Longrightarrow> contents q = [] \<Longrightarrow> deq q x = (False, x, q)"
begin

lemma enq_inv: "inv q \<Longrightarrow> inv (snd (enq q x))"
  using bounded [of q] enq_room [of q x] enq_full [of q x]
  by (cases "length (contents q) < cap q") auto

lemma enq_list:
  assumes "inv q" "length (contents q) + length xs \<le> cap q"
  shows "let q' = foldl (\<lambda>q x. snd (enq q x)) q xs
    in inv q' \<and> contents q' = contents q @ xs \<and> cap q' = cap q"
  using assms
proof (induction xs arbitrary: q)
  case Nil
  then show ?case by simp
next
  case (Cons x xs)
  then obtain q' where "enq q x = (True, q')" "inv q'" "contents q' = contents q @ [x]" "cap q' = cap q"
    using enq_room [of q x] by auto
  with Cons show ?case by (simp add: Let_def)
qed

end

definition cap_of :: "'s Encoder \<Rightarrow> nat" where
  "cap_of e = length (txBuf e)"

definition enc_inv :: "'s Encoder \<Rightarrow> bool" where
  "enc_inv e \<longleftrightarrow> length (txBuf e) < 2 ^ 64 \<and> unat (txSize e) \<le> length (txBuf e) \<and>
     (0 < length (txBuf e) \<longrightarrow> unat (txHead e) < length (txBuf e) \<and>
        unat (txTail e) = (unat (txHead e) + unat (txSize e)) mod length (txBuf e))"

definition queue :: "'s Encoder \<Rightarrow> byte list" where
  "queue e = map (\<lambda>i. txBuf e ! ((unat (txHead e) + i) mod length (txBuf e))) [0..<unat (txSize e)]"

lemma length_queue [simp]: "length (queue e) = unat (txSize e)"
  by (simp add: queue_def)

lemma txSize_le_cap: "enc_inv e \<Longrightarrow> unat (txSize e) \<le> cap_of e"
  by (simp add: enc_inv_def cap_of_def)

lemma unat_cap: "enc_inv e \<Longrightarrow> unat (of_nat (length (txBuf e)) :: size_t) = cap_of e"
  by (simp add: enc_inv_def cap_of_def unat_of_nat_size)

lemma ring_index_neq:
  fixes h i z N :: nat
  assumes "i < z" "z < N"
  shows "(h + i) mod N \<noteq> (h + z) mod N"
proof
  assume "(h + i) mod N = (h + z) mod N"
  then have "N dvd (h + z) - (h + i)"
    using assms by (intro mod_eq_dvd_iff_nat [THEN iffD1]) simp_all
  with assms show False by (auto dest: dvd_imp_le)
qed

lemma unat_ring_next:
  assumes "unat (i :: size_t) < N" "N < 2 ^ 64"
  shows "unat ((i + 1) mod of_nat N) = Suc (unat i) mod N"
  using assms by (simp add: unat_mod unat_of_nat_size unat_word_ariths)

lemma queueByte_room:
  assumes "enc_inv e" "unat (txSize e) < cap_of e"
  shows "\<exists>e'. queueByte e b = (True, e') \<and> enc_inv e' \<and> queue e' = queue e @ [b] \<and> cap_of e' = cap_of e"
proof -
  define N h z where "N = length (txBuf e)" and "h = unat (txHead e)" and "z = unat (txSize e)"
  have N: "z < N" "N < 2 ^ 64" "h < N" and t: "unat (txTail e) = (h + z) mod N"
    using assms by (auto simp: enc_inv_def cap_of_def N_def h_def z_def)
  have room: "\<not> txSize e \<ge> of_nat (length (txBuf e))"
    using N by (simp add: word_le_nat_alt unat_of_nat_size N_def z_def)
  have tail: "unat ((txTail e + 1) mod of_nat N) = (h + Suc z) mod N"
    using N t unat_ring_next [of "txTail e" N] by (simp add: mod_Suc_eq)
  have size: "unat (txSize e + 1) = Suc z"
    using N by (simp add: z_def unat_word_ariths)
  define e' where "e' = snd (queueByte e b)"
  have e': "queueByte e b = (True, e')" "txBuf e' = (txBuf e)[(h + z) mod N := b]" "txHead e' = txHead e"
    "unat (txTail e') = (h + Suc z) mod N" "unat (txSize e') = Suc z"
    using room t tail size by (simp_all add: e'_def queueByte_def N_def)
  have "queue e' = queue e @ [b]"
    unfolding queue_def e'(3,5) e'(2) using N ring_index_neq [OF _ N(1), of _ h, symmetric]
    by (auto simp: nth_list_update simp flip: N_def h_def z_def)
  moreover have "enc_inv e'"
    using N e' by (simp add: enc_inv_def flip: N_def h_def)
  moreover have "cap_of e' = cap_of e"
    by (simp add: cap_of_def e')
  ultimately show ?thesis using e'(1) by blast
qed

lemma queueByte_full:
  assumes "enc_inv e" "unat (txSize e) = cap_of e"
  shows "queueByte e b = (False, e)"
  using assms unat_cap [OF assms(1)] by (simp add: queueByte_def word_le_nat_alt)

lemma dequeueByte_some:
  assumes "enc_inv e" "queue e = y # ys"
  shows "\<exists>e'. dequeueByte e b = (True, y, e') \<and> enc_inv e' \<and> queue e' = ys \<and> cap_of e' = cap_of e"
proof -
  define N h z where "N = length (txBuf e)" and "h = unat (txHead e)" and "z = unat (txSize e)"
  obtain k where k: "z = Suc k"
    using arg_cong [OF assms(2), of length] by (simp add: z_def)
  then have N: "z \<le> N" "N < 2 ^ 64" "h < N" and t: "unat (txTail e) = (h + z) mod N"
    using assms(1) by (auto simp: enc_inv_def N_def h_def z_def)
  have nz: "txSize e \<noteq> 0" using k by (auto simp: z_def)
  define e' where "e' = snd (snd (dequeueByte e b))"
  have e': "dequeueByte e b = (True, txBuf e ! h, e')" "txBuf e' = txBuf e" "unat (txHead e') = Suc h mod N"
    "txTail e' = txTail e" "unat (txSize e') = k"
    using nz N k unat_ring_next [of "txHead e" N]
    by (simp_all add: e'_def dequeueByte_def N_def h_def z_def unat_minus_one)
  have "queue e = txBuf e ! h # map (\<lambda>i. txBuf e ! ((h + Suc i) mod N)) [0..<k]"
    using N by (simp add: queue_def map_upt_Suc k del: upt_Suc flip: N_def h_def z_def)
  moreover have "queue e' = map (\<lambda>i. txBuf e ! ((h + Suc i) mod N)) [0..<k]"
    by (simp add: queue_def e' mod_add_left_eq flip: N_def)
  moreover have "enc_inv e'"
    using N t k by (simp add: enc_inv_def e' mod_add_left_eq flip: N_def)
  ultimately show ?thesis using assms(2) e'(1) by (simp add: cap_of_def e'(2))
qed

lemma dequeueByte_empty: "queue e = [] \<Longrightarrow> dequeueByte e b = (False, b, e)"
  using length_queue [of e] by (simp add: dequeueByte_def unat_eq_zero)

interpretation ring: bounded_queue enc_inv queue cap_of queueByte dequeueByte
  by unfold_locales
    (simp_all add: txSize_le_cap queueByte_room queueByte_full dequeueByte_some dequeueByte_empty)

section \<open>Sending conserves the stream\<close>

definition same_config :: "'s Encoder \<Rightarrow> 's Encoder \<Rightarrow> bool" where
  "same_config e e' \<longleftrightarrow> cap_of e' = cap_of e \<and> maxSendChunk e' = maxSendChunk e"

lemma same_config_refl [simp]: "same_config e e"
  by (simp add: same_config_def)

lemma same_config_trans [trans]: "same_config e e' \<Longrightarrow> same_config e' e'' \<Longrightarrow> same_config e e''"
  by (simp add: same_config_def)

text \<open>\<open>e'\<close> comes from \<open>e\<close> by handing the first \<open>k\<close> queued bytes to the output.\<close>

definition sends :: "nat \<Rightarrow> 's Encoder \<Rightarrow> 's Encoder \<Rightarrow> bool" where
  "sends k e e' \<longleftrightarrow> enc_inv e' \<and> same_config e e' \<and> endPending e' = endPending e \<and> k \<le> length (queue e) \<and>
     queue e' = drop k (queue e) \<and> accepted e' = accepted e @ take k (queue e)"

definition stream :: "'s Encoder \<Rightarrow> byte list" where
  "stream e = accepted e @ queue e"

lemma sends_stream: "sends k e e' \<Longrightarrow> stream e' = stream e"
  by (simp add: sends_def stream_def)

lemma sends_txSize: "sends k e e' \<Longrightarrow> unat (txSize e') = unat (txSize e) - k"
  by (metis length_drop length_queue sends_def)

lemma sends_0: "enc_inv e \<Longrightarrow> sends 0 e e"
  by (simp add: sends_def)

lemma queue_cong:
  "txBuf e' = txBuf e \<Longrightarrow> txHead e' = txHead e \<Longrightarrow> txSize e' = txSize e \<Longrightarrow> queue e' = queue e"
  by (simp add: queue_def)

lemma call_output_frame:
  assumes "call_output out e b = (st, e1)"
  shows "enc_inv e1 = enc_inv e" "queue e1 = queue e" "same_config e e1" "endPending e1 = endPending e"
    "accepted e1 = (if st = Ok then accepted e @ [b] else accepted e)"
    "txBuf e1 = txBuf e" "txHead e1 = txHead e" "txSize e1 = txSize e" "maxSendChunk e1 = maxSendChunk e"
  using assms
  by (auto simp: call_output_def enc_inv_def same_config_def cap_of_def intro: queue_cong split: prod.splits)

lemma queue_Cons:
  assumes "enc_inv e" "0 < txSize e"
  shows "\<exists>ys. queue e = txBuf e ! unat (txHead e) # ys"
proof -
  obtain y ys where q: "queue e = y # ys"
    using assms(2) length_queue [of e] by (cases "queue e") (auto simp: word_less_nat_alt)
  with ring.deq_some [OF assms(1) q, of 0] assms(2) have "y = txBuf e ! unat (txHead e)"
    by (auto simp: dequeueByte_def split: if_splits)
  with q show ?thesis by blast
qed

lemma dequeueByte_frame:
  "maxSendChunk (snd (snd (dequeueByte e b))) = maxSendChunk e"
  "endPending (snd (snd (dequeueByte e b))) = endPending e"
  "accepted (snd (snd (dequeueByte e b))) = accepted e"
  by (simp_all add: dequeueByte_def)

text \<open>One round of the loop: the byte at the head was accepted and leaves the queue.\<close>

lemma sends_1:
  assumes "enc_inv e" "0 < txSize e" "call_output out e (txBuf e ! unat (txHead e)) = (Ok, e1)"
  shows "sends 1 e (snd (snd (dequeueByte e1 b)))"
proof -
  obtain ys where q: "queue e = txBuf e ! unat (txHead e) # ys"
    using queue_Cons [OF assms(1,2)] by blast
  note f = call_output_frame [OF assms(3)]
  obtain e2 where "dequeueByte e1 b = (True, txBuf e ! unat (txHead e), e2)" "enc_inv e2" "queue e2 = ys" "cap_of e2 = cap_of e1"
    using ring.deq_some [of e1 "txBuf e ! unat (txHead e)" ys b] f(1,2) q assms(1) by auto
  then show ?thesis
    using dequeueByte_frame [of e1 b] f(3-5) q by (simp add: sends_def same_config_def)
qed

lemma sends_trans:
  assumes "sends i e e1" "sends j e1 e2"
  shows "sends (i + j) e e2"
  using assms by (auto simp: sends_def same_config_def take_add add.commute)

lemma flush_loop_sends:
  assumes "enc_inv e" "flush_loop out e sent = (st, e')"
  shows "\<exists>k \<le> unat (maxSendChunk e) - unat sent. sends k e e' \<and>
    (st = Ok \<longrightarrow> k = min (length (queue e)) (unat (maxSendChunk e) - unat sent))"
  using assms
proof (induction "unat (txSize e)" arbitrary: e sent rule: less_induct)
  case less
  show ?case
  proof (cases "0 < txSize e \<and> sent < maxSendChunk e")
    case False
    then have "e' = e" "st = Ok"
      using less.prems(2) by (simp_all only: flush_loop.simps [of out e sent] if_False prod.inject)
    moreover from False have "txSize e = 0 \<or> maxSendChunk e \<le> sent"
      by (auto simp: word_less_nat_alt word_le_nat_alt unat_eq_zero)
    ultimately show ?thesis
      using sends_0 [OF less.prems(1)] by (auto simp: word_le_nat_alt)
  next
    case True
    define b where "b = txBuf e ! unat (txHead e)"
    obtain st1 e1 where 1: "call_output out e b = (st1, e1)" by fastforce
    have loop: "flush_loop out e sent =
        (if st1 = Ok then flush_loop out (snd (snd (dequeueByte e1 b))) (sent + 1) else (st1, e1))"
      using True 1 by (cases st1) (simp_all add: flush_loop.simps [of out e sent] Let_def flip: b_def)
    show ?thesis
    proof (cases "st1 = Ok")
      case False
      then have "sends 0 e e1" "e' = e1" "st \<noteq> Ok"
        using loop less.prems call_output_frame [OF 1] by (auto simp: sends_def)
      then show ?thesis by blast
    next
      case ok: True
      define e2 where "e2 = snd (snd (dequeueByte e1 b))"
      have s1: "sends 1 e e2"
        using sends_1 [of e out e1 b] less.prems(1) True 1 ok by (simp add: e2_def b_def)
      have len: "unat (txSize e2) = unat (txSize e) - 1" "0 < unat (txSize e)"
        using sends_txSize [OF s1] True by (simp_all add: word_less_nat_alt)
      have sent: "unat (sent + 1) = Suc (unat sent)" "unat sent < unat (maxSendChunk e)"
        using unat_inc [of sent "maxSendChunk e"] True by (simp_all add: word_less_nat_alt)
      obtain k where k: "k \<le> unat (maxSendChunk e2) - unat (sent + 1)" "sends k e2 e'"
          "st = Ok \<longrightarrow> k = min (length (queue e2)) (unat (maxSendChunk e2) - unat (sent + 1))"
        using less.hyps [of e2 "sent + 1"] len s1 loop ok less.prems(2) by (auto simp: sends_def e2_def)
      moreover have "maxSendChunk e2 = maxSendChunk e"
        using s1 by (simp add: sends_def same_config_def)
      ultimately show ?thesis
        using sends_trans [OF s1 k(2)] sent len by (intro exI [of _ "1 + k"]) auto
    qed
  qed
qed

lemma flush_sends:
  assumes "enc_inv e" "flush out e = (st, e')"
  shows "\<exists>k \<le> unat (maxSendChunk e). sends k e e' \<and>
    (st = Ok \<longrightarrow> k = min (length (queue e)) (unat (maxSendChunk e)))"
  using flush_loop_sends [OF assms(1), of out 0 st e'] assms(2) by (simp add: flush_def)

section \<open>Queueing extends the stream\<close>

text \<open>
  \<open>writes bs e e'\<close>: the operation from \<open>e\<close> to \<open>e'\<close> keeps the invariant, the capacity and the
  settings, and appends \<open>bs\<close> to the stream of accepted and queued bytes.
\<close>

definition writes :: "byte list \<Rightarrow> 's Encoder \<Rightarrow> 's Encoder \<Rightarrow> bool" where
  "writes bs e e' \<longleftrightarrow> enc_inv e' \<and> same_config e e' \<and> endPending e' = endPending e \<and> stream e' = stream e @ bs"

lemma writes_trans: "writes as e e1 \<Longrightarrow> writes bs e1 e2 \<Longrightarrow> writes (as @ bs) e e2"
  by (auto simp: writes_def intro: same_config_trans)

lemma writes_Nil_trans: "writes [] e e1 \<Longrightarrow> writes bs e1 e2 \<Longrightarrow> writes bs e e2"
  using writes_trans [of "[]"] by simp

lemma writes_refl: "enc_inv e \<Longrightarrow> writes [] e e"
  by (simp add: writes_def)

lemma writes_inv: "writes bs e e' \<Longrightarrow> enc_inv e'"
  by (simp add: writes_def)

lemma sends_writes: "sends k e e' \<Longrightarrow> writes [] e e'"
  using sends_stream [of k e e'] by (simp add: writes_def sends_def)

lemma flush_writes: "enc_inv e \<Longrightarrow> flush out e = (st, e') \<Longrightarrow> writes [] e e'"
  using flush_sends sends_writes by blast

lemma free_ge_iff:
  assumes "enc_inv e"
  shows "of_nat (length (txBuf e)) - txSize e \<ge> n \<longleftrightarrow> unat (txSize e) + unat n \<le> cap_of e"
proof -
  have "txSize e \<le> of_nat (length (txBuf e))"
    using unat_cap [OF assms] txSize_le_cap [OF assms] by (simp add: word_le_nat_alt)
  then have "unat (of_nat (length (txBuf e)) - txSize e) = cap_of e - unat (txSize e)"
    using unat_cap [OF assms] by (simp add: unat_sub)
  then show ?thesis
    using txSize_le_cap [OF assms] by (auto simp: word_le_nat_alt)
qed

lemma ensureFree_writes:
  assumes "enc_inv e" "ensureFree out e n = (st, e')"
  shows "writes [] e e' \<and> (st = Ok \<longrightarrow> unat (txSize e') + unat n \<le> cap_of e')"
proof (cases "of_nat (length (txBuf e)) - txSize e \<ge> n")
  case True
  with assms show ?thesis by (auto simp: ensureFree_def free_ge_iff writes_refl)
next
  case False
  obtain st1 e1 where 1: "flush out e = (st1, e1)" by fastforce
  then have w: "writes [] e e1" using assms(1) by (rule flush_writes [rotated])
  from False 1 assms(2) have "e1 = e'" "st = Ok \<longrightarrow> of_nat (length (txBuf e1)) - txSize e1 \<ge> n"
    by (auto simp: ensureFree_def split: if_splits)
  with w free_ge_iff [OF writes_inv [OF w], of n] show ?thesis by simp
qed

lemma queueByte_writes:
  assumes "enc_inv e" "unat (txSize e) < cap_of e"
  obtains e' where "queueByte e b = (True, e')" "writes [b] e e'" "unat (txSize e') = Suc (unat (txSize e))"
    "cap_of e' = cap_of e"
proof -
  from ring.enq_room [of e b] assms obtain e' where
    e': "queueByte e b = (True, e')" "enc_inv e'" "queue e' = queue e @ [b]" "cap_of e' = cap_of e"
    by auto
  moreover from e'(1) have "accepted e' = accepted e" "maxSendChunk e' = maxSendChunk e" "endPending e' = endPending e"
    by (auto simp: queueByte_def split: if_splits)
  ultimately have w: "writes [b] e e'"
    by (simp add: writes_def stream_def same_config_def)
  have "unat (txSize e') = Suc (unat (txSize e))"
    using arg_cong [OF e'(3), of length] by simp
  with e' w show thesis by (intro that)
qed

lemma encodeOne_escape:
  assumes "enc_inv e" "x = END \<or> x = ESC" "encodeOne out e (x # xs) = (st, c, e')"
  shows "(if st = Ok then c = 1 \<and> writes (slip_escape x) e e' else c = 0 \<and> writes [] e e') \<and> st = fst (ensureFree out e 2)"
proof -
  define y where "y = (if x = END then ESCEND else ESCESC)"
  obtain st1 e1 where 1: "ensureFree out e 2 = (st1, e1)" by fastforce
  note w1 = ensureFree_writes [OF assms(1) 1]
  have eq: "encodeOne out e (x # xs) =
      (if st1 \<noteq> Ok then (st1, 0, e1)
       else case queueByte e1 ESC of (ok1, e) \<Rightarrow>
         if \<not> ok1 then (RetryLater, 0, e)
         else case queueByte e ESCx of (ok2, e) \<Rightarrow>
           if \<not> ok2 then (RetryLater, 0, e) else (Ok, 1, e))" if "ESCx = y" for ESCx
    using assms(2) 1 that by (auto simp: encodeOne_def y_def)
  show ?thesis
  proof (cases "st1 = Ok")
    case False
    with eq [OF refl] w1 1 assms(3) show ?thesis by auto
  next
    case True
    with w1 have e1: "enc_inv e1" "unat (txSize e1) + 2 \<le> cap_of e1" "writes [] e e1"
      by (auto dest: writes_inv)
    obtain e2 where 2: "queueByte e1 ESC = (True, e2)" "writes [ESC] e1 e2"
        "unat (txSize e2) = Suc (unat (txSize e1))" "cap_of e2 = cap_of e1"
      using queueByte_writes [of e1 ESC] e1 by auto
    obtain e3 where 3: "queueByte e2 y = (True, e3)" "writes [y] e2 e3"
      using queueByte_writes [OF writes_inv [OF 2(2)], of y] e1(2) 2 by auto
    have "writes [ESC, y] e e3"
      using writes_trans [OF 2(2) 3(2)] writes_Nil_trans [OF e1(3)] by simp
    moreover have "slip_escape x = [ESC, y]"
      using assms(2) by (auto simp: slip_escape_def y_def)
    ultimately show ?thesis
      using eq [OF refl] True 1 2 3 assms(3) by auto
  qed
qed

lemma encodeOne_plain:
  assumes "enc_inv e" "x \<noteq> END" "x \<noteq> ESC" "encodeOne out e (x # xs) = (st, c, e')"
  shows "(if st = Ok then c = 1 \<and> writes (slip_escape x) e e' else c = 0 \<and> writes [] e e') \<and> st = fst (ensureFree out e 1)"
proof -
  obtain st1 e1 where 1: "ensureFree out e 1 = (st1, e1)" by fastforce
  note w1 = ensureFree_writes [OF assms(1) 1]
  have eq: "encodeOne out e (x # xs) =
      (if st1 \<noteq> Ok then (st1, 0, e1)
       else case queueByte e1 x of (ok1, e) \<Rightarrow> if \<not> ok1 then (RetryLater, 0, e) else (Ok, 1, e))"
    using assms(2,3) 1 by (simp add: encodeOne_def)
  show ?thesis
  proof (cases "st1 = Ok")
    case False
    with eq w1 1 assms(4) show ?thesis by auto
  next
    case True
    with w1 obtain e2 where 2: "queueByte e1 x = (True, e2)" "writes [x] e1 e2"
      using queueByte_writes [of e1 x] by (auto dest: writes_inv)
    with w1 writes_Nil_trans have "writes (slip_escape x) e e2"
      using assms(2,3) by (auto simp: slip_escape_def)
    with eq True 1 2 assms(4) show ?thesis by auto
  qed
qed

lemma encodeOne_writes:
  assumes "enc_inv e" "encodeOne out e (x # xs) = (st, c, e')"
  shows "if st = Ok then c = 1 \<and> writes (slip_escape x) e e' else c = 0 \<and> writes [] e e'"
  using encodeOne_escape [OF assms(1) _ assms(2)] encodeOne_plain [OF assms(1) _ _ assms(2)]
  by (cases "x = END \<or> x = ESC") auto

lemma encodeOne_status:
  assumes "enc_inv e"
  shows "fst (encodeOne out e (x # xs)) = fst (ensureFree out e (if x = END \<or> x = ESC then 2 else 1))"
  using encodeOne_escape [OF assms, of x out xs] encodeOne_plain [OF assms, of x out xs]
  by (cases "encodeOne out e (x # xs)") auto

lemma pushPacket_loop_step:
  assumes "n < of_nat (length data)" "encodeOne out e (drop (unat n) data) = (st1, c, e1)" "flush out e1 = (st2, e2)"
  shows "pushPacket_loop out e data n = (if st1 \<noteq> Ok then (st1, n, e1)
    else if st2 \<noteq> Ok then (st2, n + c, e2) else pushPacket_loop out e2 data (n + c))"
  using assms by (cases st2) (simp_all add: pushPacket_loop.simps [of out e data n])

lemma pushPacket_loop_writes:
  assumes "enc_inv e" "unat n \<le> length data" "length data < 2 ^ 64"
    and "pushPacket_loop out e data n = (st, n', e')"
  shows "unat n \<le> unat n' \<and> unat n' \<le> length data \<and> (st = Ok \<longrightarrow> unat n' = length data) \<and>
    writes (slip_body (take (unat n' - unat n) (drop (unat n) data))) e e'"
  using assms(1,2,4)
proof (induction "length data - unat n" arbitrary: e n rule: less_induct)
  case less
  have len: "n < of_nat (length data) \<longleftrightarrow> unat n < length data"
    using assms(3) by (simp add: word_less_nat_alt unat_of_nat_size)
  show ?case
  proof (cases "unat n < length data")
    case False
    with less.prems len show ?thesis
      by (auto simp: pushPacket_loop.simps [of out e data n] writes_refl)
  next
    case True
    then obtain x xs where x: "drop (unat n) data = x # xs" by (cases "drop (unat n) data") auto
    obtain st1 c e1 where 1: "encodeOne out e (x # xs) = (st1, c, e1)" using prod_cases3 by blast
    note w1 = encodeOne_writes [OF less.prems(1) 1]
    obtain st2 e2 where 2: "flush out e1 = (st2, e2)" by fastforce
    have loop: "pushPacket_loop out e data n = (if st1 \<noteq> Ok then (st1, n, e1)
        else if st2 \<noteq> Ok then (st2, n + c, e2) else pushPacket_loop out e2 data (n + c))"
      using True len x 1 by (intro pushPacket_loop_step [OF _ _ 2]) simp_all
    show ?thesis
    proof (cases "st1 = Ok")
      case False
      with loop less.prems w1 show ?thesis by auto
    next
      case ok1: True
      with w1 have c: "c = 1" and w1: "writes (slip_escape x) e e1" by simp_all
      have w2: "writes (slip_escape x) e e2"
        using writes_trans [OF w1 flush_writes [OF writes_inv [OF w1] 2]] by simp
      have n1: "unat (n + c) = Suc (unat n)"
        using True c assms(3) by (simp add: unat_word_ariths)
      have xs: "xs = drop (Suc (unat n)) data"
        using x by (metis drop_Suc list.sel(3) tl_drop)
      show ?thesis
      proof (cases "st2 = Ok")
        case False
        with loop ok1 less.prems(3) n1 True w2 x show ?thesis by auto
      next
        case ok2: True
        have "unat (n + c) \<le> unat n' \<and> unat n' \<le> length data \<and> (st = Ok \<longrightarrow> unat n' = length data) \<and>
            writes (slip_body (take (unat n' - unat (n + c)) (drop (unat (n + c)) data))) e2 e'"
          using loop ok1 ok2 less.prems(3) n1 True by (intro less.hyps) (auto simp: writes_inv [OF w2])
        moreover from this have "take (unat n' - unat n) (x # xs) = x # take (unat n' - unat (n + c)) xs"
          using n1 by (simp add: take_Cons' Suc_diff_le)
        ultimately show ?thesis
          using writes_trans [OF w2] n1 by (auto simp: x xs)
      qed
    qed
  qed
qed

section \<open>Whole packets\<close>

text \<open>The stream the encoder is committed to: a pending END still belongs to it.\<close>

definition intended :: "'s Encoder \<Rightarrow> byte list" where
  "intended e = stream e @ (if endPending e then [END] else [])"

lemma writes_intended: "writes [] e e' \<Longrightarrow> intended e' = intended e"
  by (simp add: writes_def intended_def)

lemma endPending_upd [simp]:
  "enc_inv (e\<lparr>endPending := b\<rparr>) = enc_inv e" "stream (e\<lparr>endPending := b\<rparr>) = stream e"
  "same_config e' (e\<lparr>endPending := b\<rparr>) = same_config e' e" "cap_of (e\<lparr>endPending := b\<rparr>) = cap_of e"
  by (simp_all add: enc_inv_def stream_def same_config_def cap_of_def queue_def)

lemma pushPacket_pending_spec:
  assumes "enc_inv e" "pushPacket_pending out e = (st, e')"
  shows "enc_inv e' \<and> same_config e e' \<and> intended e' = intended e \<and> (st = Ok \<longrightarrow> \<not> endPending e')"
proof (cases "endPending e")
  case False
  with assms show ?thesis by (simp add: pushPacket_pending_def)
next
  case True
  obtain st1 e1 where 1: "ensureFree out e 1 = (st1, e1)" by fastforce
  note w1 = ensureFree_writes [OF assms(1) 1]
  show ?thesis
  proof (cases "st1 = Ok")
    case False
    with assms 1 True w1 writes_intended [of e e'] show ?thesis
      by (auto simp: pushPacket_pending_def writes_def)
  next
    case ok: True
    with w1 obtain e2 where 2: "queueByte e1 END = (True, e2)" "writes [END] e1 e2"
      using queueByte_writes [of e1 END] by (auto dest: writes_inv)
    define e3 where "e3 = e2\<lparr>endPending := False\<rparr>"
    have fl: "flush out e3 = (st, e')"
      using assms(2) True 1 2 ok by (simp add: pushPacket_pending_def e3_def)
    have w2: "writes [END] e e2"
      using writes_Nil_trans w1 2(2) by blast
    then have "enc_inv e3" "same_config e e3" "intended e3 = intended e" "\<not> endPending e3"
      using True by (simp_all add: e3_def writes_def intended_def)
    with flush_writes [OF _ fl] writes_intended [of e3 e'] show ?thesis
      by (auto simp: writes_def intro: same_config_trans)
  qed
qed

lemma pushPacket_end_spec:
  assumes "enc_inv e" "\<not> endPending e" "pushPacket_end out e = (st, e')"
  shows "enc_inv e' \<and> same_config e e' \<and> (st = Ok \<longrightarrow> \<not> endPending e') \<and>
    (intended e' = intended e @ [END] \<or> intended e' = intended e \<and> st = Error)"
proof -
  obtain st1 e1 where 1: "ensureFree out e 1 = (st1, e1)" by fastforce
  note w1 = ensureFree_writes [OF assms(1) 1]
  show ?thesis
  proof (cases "st1 = Ok")
    case False
    with assms 1 w1 show ?thesis
      by (cases st1) (auto simp: pushPacket_end_def writes_def intended_def)
  next
    case ok: True
    with w1 obtain e2 where 2: "queueByte e1 END = (True, e2)" "writes [END] e1 e2"
      using queueByte_writes [of e1 END] by (auto dest: writes_inv)
    have w2: "writes [END] e e2"
      using writes_Nil_trans w1 2(2) by blast
    moreover have "flush out e2 = (st, e')"
      using assms(3) 1 2 ok by (simp add: pushPacket_end_def)
    ultimately have "writes ([END] @ []) e e'"
      using writes_trans flush_writes writes_inv by blast
    with assms(2) show ?thesis by (simp add: writes_def intended_def)
  qed
qed

lemma pushPacket_stages:
  assumes "flush out e = (st1, e1)" "pushPacket_pending out e1 = (st2, e2)"
    "pushPacket_loop out e2 data 0 = (st3, n, e3)" "pushPacket_end out e3 = (st4, e4)"
  shows "pushPacket out e data =
    (if st1 \<noteq> Ok then ((st1, 0), e1) else if st2 \<noteq> Ok then ((st2, 0), e2)
     else if st3 \<noteq> Ok then ((st3, n), e3) else ((st4, n), e4))"
  using assms by (cases st1) (simp_all add: pushPacket_def)

text \<open>What a call of \<open>pushPacket\<close> does to the committed stream, whatever the output does.\<close>

lemma pushPacket_spec:
  assumes "enc_inv e" "length data < 2 ^ 64" "pushPacket out e data = ((st, n), e')"
  shows "enc_inv e' \<and> same_config e e' \<and> unat n \<le> length data \<and>
    (st = Ok \<longrightarrow> unat n = length data \<and> \<not> endPending e' \<and> intended e' = intended e @ slip_encode data) \<and>
    (intended e' = intended e @ slip_body (take (unat n) data) \<or>
     unat n = length data \<and> intended e' = intended e @ slip_encode data)"
proof -
  obtain st1 e1 where 1: "flush out e = (st1, e1)" by fastforce
  obtain st2 e2 where 2: "pushPacket_pending out e1 = (st2, e2)" by fastforce
  obtain st3 n3 e3 where 3: "pushPacket_loop out e2 data 0 = (st3, n3, e3)" using prod_cases3 by blast
  obtain st4 e4 where 4: "pushPacket_end out e3 = (st4, e4)" by fastforce
  note push = pushPacket_stages [OF 1 2 3 4] assms(3)
  have s1: "enc_inv e1" "same_config e e1" "intended e1 = intended e"
    using flush_writes [OF assms(1) 1] writes_intended by (auto simp: writes_def)
  have s2: "enc_inv e2" "same_config e e2" "intended e2 = intended e" "st2 = Ok \<Longrightarrow> \<not> endPending e2"
    using pushPacket_pending_spec [OF s1(1) 2] s1 by (auto intro: same_config_trans)
  have s3: "enc_inv e3" "same_config e e3" "unat n3 \<le> length data" "st3 = Ok \<longrightarrow> unat n3 = length data"
    "endPending e3 = endPending e2" "stream e3 = stream e2 @ slip_body (take (unat n3) data)"
    using pushPacket_loop_writes [OF s2(1) _ assms(2) 3] s2(2) by (auto simp: writes_def intro: same_config_trans)
  have i3: "intended e3 = intended e @ slip_body (take (unat n3) data)" if "st2 = Ok"
    using s2(3,4) s3(5,6) that by (simp add: intended_def)
  have s4: "enc_inv e4 \<and> same_config e e4 \<and> (st4 = Ok \<longrightarrow> \<not> endPending e4) \<and>
      (intended e4 = intended e3 @ [END] \<or> intended e4 = intended e3 \<and> st4 = Error)" if "st2 = Ok"
    using pushPacket_end_spec [OF s3(1) _ 4] s2(4) s3(2,5) that by (auto intro: same_config_trans)
  consider "st1 \<noteq> Ok" | "st1 = Ok" "st2 \<noteq> Ok" | "st1 = Ok" "st2 = Ok" "st3 \<noteq> Ok"
    | "st1 = Ok" "st2 = Ok" "st3 = Ok" by blast
  then show ?thesis
  proof cases
    case 4
    then show ?thesis
      using push s4 i3 s3(3,4) by (auto simp: slip_encode_def)
  qed (use push s1 s2 s3(1-4) i3 in auto)
qed

section \<open>The variant with error information\<close>

lemma flush_ex_loop_agrees:
  "flush_loop out e sent = (wstatus (fst (flush_ex_loop out e sent)), snd (flush_ex_loop out e sent)) \<and>
   (wstatus (fst (flush_ex_loop out e sent)) = Error \<longrightarrow>
      code (werror (fst (flush_ex_loop out e sent))) = EncodeInternalError)"
proof (induction "unat (txSize e)" arbitrary: e sent rule: less_induct)
  case less
  show ?case
  proof (cases "0 < txSize e \<and> sent < maxSendChunk e")
    case False
    then show ?thesis
      by (simp only: flush_loop.simps [of out e sent] flush_ex_loop.simps [of out e sent] if_False)
        (simp add: WriteResult_of_def)
  next
    case True
    define b where "b = txBuf e ! unat (txHead e)"
    obtain st1 e1 where 1: "call_output out e b = (st1, e1)" by fastforce
    have "unat (txSize (snd (snd (dequeueByte e1 b)))) < unat (txSize e)"
      using dequeueByte_txSize [of e1 b] call_output_frame(8) [OF 1] True by simp
    from less [OF this, of "sent + 1"] show ?thesis
      using True 1
      by (cases st1) (simp_all add: flush_loop.simps [of out e sent] flush_ex_loop.simps [of out e sent]
          Let_def WriteResult_of_def WriteResult_err_def error_defs flip: b_def)
  qed
qed

lemma flush_ex_agrees:
  assumes "flush_ex out e = (wr, e')"
  shows "flush out e = (wstatus wr, e')"
    and "wstatus wr = Error \<Longrightarrow> code (werror wr) = EncodeInternalError"
  using flush_ex_loop_agrees [of out e 0] assms by (simp_all add: flush_def flush_ex_def)

lemma flush_outcome_cases:
  "flush_outcome wr n = None \<longleftrightarrow> wstatus wr = Ok"
  "flush_outcome wr n = Some r \<Longrightarrow> pstatus r = wstatus wr \<and> pconsumed r = n \<and> wstatus wr \<noteq> Ok"
  by (cases "wstatus wr"; auto simp: flush_outcome_def WriteResult_is_error_def WriteResult_is_retry_def
      PushPacketResult_of_def PushPacketResult_err_def)+

text \<open>
  A flush that returns \<open>Ok\<close> leaves room for a byte, unless there is no buffer or nothing may
  be sent, and in these cases a flush never calls the output. So asking for one byte right
  after such a flush cannot fail with an error.
\<close>

definition relaxed :: "'s Encoder \<Rightarrow> bool" where
  "relaxed e \<longleftrightarrow> enc_inv e \<and> (unat (txSize e) < cap_of e \<or> maxSendChunk e = 0 \<or> cap_of e = 0)"

lemma flush_Ok_relaxed:
  assumes "enc_inv e" "flush out e = (Ok, e')"
  shows "relaxed e'"
proof -
  obtain k where k: "sends k e e'" "k = min (length (queue e)) (unat (maxSendChunk e))"
    using flush_sends [OF assms] by blast
  have "unat (txSize e) \<le> cap_of e" using txSize_le_cap [OF assms(1)] .
  moreover have "maxSendChunk e = 0 \<or> 0 < unat (maxSendChunk e)"
    by (simp add: unat_gt_0)
  ultimately show ?thesis
    using k sends_txSize [OF k(1)]
    by (auto simp: relaxed_def sends_def same_config_def min_def unat_eq_zero split: if_splits)
qed

lemma ensureFree_1_relaxed:
  assumes "relaxed e"
  shows "ensureFree out e 1 = (if unat (txSize e) < cap_of e then Ok else RetryLater, e)"
proof (cases "unat (txSize e) < cap_of e")
  case True
  with assms show ?thesis by (simp add: ensureFree_def free_ge_iff relaxed_def)
next
  case False
  with assms have "maxSendChunk e = 0 \<or> txSize e = 0"
    using txSize_le_cap [of e] by (auto simp: relaxed_def unat_eq_zero)
  then have "flush out e = (Ok, e)"
    by (auto simp: flush_def flush_loop.simps [of out e 0])
  with False assms show ?thesis by (simp add: ensureFree_def free_ge_iff relaxed_def)
qed

lemma pushPacket_loop_relaxed:
  assumes "relaxed e" "pushPacket_loop out e data n = (Ok, n', e')"
  shows "relaxed e'"
  using assms
proof (induction "unat (of_nat (length data) - n)" arbitrary: e n rule: less_induct)
  case less
  show ?case
  proof (cases "n < of_nat (length data)")
    case False
    with less.prems show ?thesis by (simp add: pushPacket_loop.simps [of out e data n])
  next
    case True
    obtain x xs where x: "drop (unat n) data = x # xs"
      using word_less_of_nat_length [OF True] by (cases "drop (unat n) data") auto
    obtain st1 c e1 where 1: "encodeOne out e (drop (unat n) data) = (st1, c, e1)" using prod_cases3 by blast
    obtain st2 e2 where 2: "flush out e1 = (st2, e2)" by fastforce
    from pushPacket_loop_step [OF True 1 2] less.prems(2)
    have ok: "st1 = Ok" "st2 = Ok" "pushPacket_loop out e2 data (n + c) = (Ok, n', e')"
      by (auto split: if_splits)
    have "enc_inv e1"
      using encodeOne_writes [of e out x xs st1 c e1] 1 x ok less.prems(1) by (auto simp: relaxed_def dest: writes_inv)
    then have "relaxed e2" using flush_Ok_relaxed 2 ok by blast
    moreover have "unat (of_nat (length data) - (n + c)) < unat (of_nat (length data) - n)"
      using encodeOne_progress [OF True] 1 ok by blast
    ultimately show ?thesis using less.hyps ok(3) by blast
  qed
qed

lemma pushPacket_ex_loop_agrees:
  assumes "pushPacket_ex_loop out e data n = (early, n', e')"
  shows "pushPacket_loop out e data n = (case early of None \<Rightarrow> Ok | Some r \<Rightarrow> pstatus r, n', e') \<and>
    (\<forall>r. early = Some r \<longrightarrow> pconsumed r = n' \<and> pstatus r \<noteq> Ok)"
  using assms
proof (induction "unat (of_nat (length data) - n)" arbitrary: e n rule: less_induct)
  case less
  show ?case
  proof (cases "n < of_nat (length data)")
    case False
    with less.prems show ?thesis
      by (auto simp: pushPacket_loop.simps [of out e' data n'] pushPacket_ex_loop.simps [of out e data n])
  next
    case True
    obtain st1 c e1 where 1: "encodeOne out e (drop (unat n) data) = (st1, c, e1)" using prod_cases3 by blast
    obtain wr e2 where 2: "flush_ex out e1 = (wr, e2)" by fastforce
    note step = pushPacket_loop_step [OF True 1 flush_ex_agrees(1) [OF 2]]
    show ?thesis
    proof (cases "st1 = Ok \<and> wstatus wr = Ok")
      case ok: True
      then have "pushPacket_ex_loop out e2 data (n + c) = (early, n', e')"
        using less.prems True 1 2
        by (simp add: pushPacket_ex_loop.simps [of out e data n] flush_outcome_cases(1) [THEN iffD2])
      moreover have "unat (of_nat (length data) - (n + c)) < unat (of_nat (length data) - n)"
        using encodeOne_progress [OF True] 1 ok by blast
      ultimately show ?thesis using less.hyps [of "n + c" e2] step ok by simp
    next
      case False
      with less.prems True 1 2 step show ?thesis
        using flush_outcome_cases [of wr "n + c"]
        by (cases st1; cases "flush_outcome wr (n + c)")
          (auto simp: pushPacket_ex_loop.simps [of out e data n] PushPacketResult_of_def PushPacketResult_err_def)
    qed
  qed
qed

lemma pushPacket_ex_pending_agrees:
  assumes "pushPacket_ex_pending out e = (early, e')"
  shows "pushPacket_pending out e = (case early of None \<Rightarrow> Ok | Some r \<Rightarrow> pstatus r, e') \<and>
    (\<forall>r. early = Some r \<longrightarrow> pconsumed r = 0 \<and> pstatus r \<noteq> Ok)"
proof (cases "endPending e \<and> fst (ensureFree out e 1) = Ok")
  case True
  obtain e1 where 1: "ensureFree out e 1 = (Ok, e1)"
    using True by (cases "ensureFree out e 1") auto
  obtain wr e2 where 2: "flush_ex out ((snd (queueByte e1 END))\<lparr>endPending := False\<rparr>) = (wr, e2)" by fastforce
  with True 1 assms show ?thesis
    using flush_ex_agrees(1) [OF 2] flush_outcome_cases [of wr 0]
    by (cases early) (auto simp: pushPacket_ex_pending_def pushPacket_pending_def)
next
  case False
  with assms show ?thesis
    by (cases "fst (ensureFree out e 1)")
      (auto simp: pushPacket_ex_pending_def pushPacket_pending_def PushPacketResult_of_def
        PushPacketResult_err_def split: prod.splits if_splits)
qed

lemma pushPacket_ex_end_agrees:
  assumes "relaxed e" "pushPacket_ex_end out e n = (r, e')"
  shows "pushPacket_end out e = (pstatus r, e') \<and> pconsumed r = n"
proof (cases "unat (txSize e) < cap_of e")
  case False
  with assms show ?thesis
    by (auto simp: pushPacket_ex_end_def pushPacket_end_def ensureFree_1_relaxed PushPacketResult_of_def)
next
  case True
  obtain wr e2 where 2: "flush_ex out (snd (queueByte e END)) = (wr, e2)" by fastforce
  with True assms show ?thesis
    using flush_ex_agrees(1) [OF 2] flush_outcome_cases [of wr n]
    by (cases "flush_outcome wr n")
      (auto simp: pushPacket_ex_end_def pushPacket_end_def ensureFree_1_relaxed PushPacketResult_of_def)
qed

lemma pushPacket_end_room:
  assumes "relaxed e" "unat (txSize e) < cap_of e"
  shows "endPending (snd (pushPacket_end out e)) = endPending e"
proof -
  obtain e2 where 2: "queueByte e END = (True, e2)" "writes [END] e e2"
    using queueByte_writes [of e END] assms by (auto simp: relaxed_def)
  with assms flush_writes [OF writes_inv [OF 2(2)], of out] show ?thesis
    by (cases "flush out e2") (simp add: pushPacket_end_def ensureFree_1_relaxed writes_def)
qed

lemma pushPacket_pending_relaxed:
  assumes "relaxed e" "pushPacket_pending out e = (Ok, e')"
  shows "relaxed e'"
proof (cases "endPending e")
  case False
  with assms show ?thesis by (simp add: pushPacket_pending_def)
next
  case True
  with assms have room: "unat (txSize e) < cap_of e"
      and fl: "flush out ((snd (queueByte e END))\<lparr>endPending := False\<rparr>) = (Ok, e')"
    by (auto simp: pushPacket_pending_def ensureFree_1_relaxed split: if_splits)
  have "enc_inv (snd (queueByte e END))"
    using ring.enq_inv [of e END] assms(1) by (simp add: relaxed_def)
  with flush_Ok_relaxed [OF _ fl] show ?thesis by simp
qed

lemma pushPacket_ex_state:
  assumes "enc_inv e" "pushPacket_ex out e data = (r, e')"
  shows "pushPacket out e data = ((pstatus r, pconsumed r), e')"
proof -
  obtain wr e1 where 1: "flush_ex out e = (wr, e1)" by fastforce
  obtain early2 e2 where 2: "pushPacket_ex_pending out e1 = (early2, e2)" by fastforce
  obtain early3 n e3 where 3: "pushPacket_ex_loop out e2 data 0 = (early3, n, e3)" using prod_cases3 by blast
  obtain r4 e4 where 4: "pushPacket_ex_end out e3 n = (r4, e4)" by fastforce
  obtain st4 e4' where plain4: "pushPacket_end out e3 = (st4, e4')" by fastforce
  note a1 = flush_ex_agrees(1) [OF 1]
  note a2 = pushPacket_ex_pending_agrees [OF 2]
  note a3 = pushPacket_ex_loop_agrees [OF 3]
  note push = pushPacket_stages [OF a1 a2 [THEN conjunct1] a3 [THEN conjunct1] plain4]
  have ex: "pushPacket_ex out e data =
      (case flush_outcome wr 0 of Some r \<Rightarrow> (r, e1) | None \<Rightarrow>
        (case early2 of Some r \<Rightarrow> (r, e2) | None \<Rightarrow>
          (case early3 of Some r \<Rightarrow> (r, e3) | None \<Rightarrow> (r4, e4))))"
    using 1 2 3 4 by (simp add: pushPacket_ex_def split: option.split)
  have end_ok: "st4 = pstatus r4 \<and> e4' = e4 \<and> pconsumed r4 = n"
    if "wstatus wr = Ok" "early2 = None" "early3 = None"
  proof -
    have "relaxed e1" using flush_Ok_relaxed [OF assms(1)] a1 that by simp
    then have "relaxed e2" using pushPacket_pending_relaxed a2 that by simp
    then have "relaxed e3" using pushPacket_loop_relaxed a3 that by simp
    then show ?thesis using pushPacket_ex_end_agrees 4 plain4 by fastforce
  qed
  show ?thesis
  proof (cases "flush_outcome wr 0")
    case None
    then show ?thesis
      using push ex assms(2) end_ok a2 a3 flush_outcome_cases(1) [of wr 0]
      by (cases early2; cases early3) auto
  next
    case (Some r1)
    then show ?thesis
      using push ex assms(2) flush_outcome_cases(2) [OF Some] by auto
  qed
qed

section \<open>Progress\<close>

definition accepts_all :: "'s OutputFn \<Rightarrow> bool" where
  "accepts_all out \<longleftrightarrow> (\<forall>s b. fst (out s b) = Ok)"

lemma flush_loop_accepts_all:
  assumes "accepts_all out"
  shows "fst (flush_loop out e sent) = Ok"
proof (induction "unat (txSize e)" arbitrary: e sent rule: less_induct)
  case less
  define b where "b = txBuf e ! unat (txHead e)"
  have "fst (call_output out e b) = Ok"
    using assms by (simp add: accepts_all_def call_output_def split_def)
  then obtain e1 where 1: "call_output out e b = (Ok, e1)"
    by (cases "call_output out e b") simp
  have "unat (txSize (snd (snd (dequeueByte e1 b)))) < unat (txSize e)" if "0 < txSize e"
    using dequeueByte_txSize [of e1 b] call_output_frame(8) [OF 1] that by simp
  from less [OF this, of "sent + 1"] 1 show ?case
    by (simp add: flush_loop.simps [of out e sent] Let_def flip: b_def)
qed

lemma ensureFree_accepts_all:
  assumes "accepts_all out" "enc_inv e" "unat n \<le> cap_of e" "n \<le> maxSendChunk e"
  shows "fst (ensureFree out e n) = Ok"
proof -
  obtain e1 where 1: "flush out e = (Ok, e1)"
    using flush_loop_accepts_all [OF assms(1), of e 0] by (cases "flush out e") (simp add: flush_def)
  then obtain k where k: "sends k e e1" "k = min (length (queue e)) (unat (maxSendChunk e))"
    using flush_sends [OF assms(2)] by blast
  have "unat (txSize e1) + unat n \<le> cap_of e1"
    using k sends_txSize [OF k(1)] assms(3,4) txSize_le_cap [OF assms(2)]
    by (auto simp: sends_def same_config_def min_def word_le_nat_alt split: if_splits)
  with 1 k(1) show ?thesis by (simp add: ensureFree_def free_ge_iff sends_def)
qed

text \<open>Room for an escape pair and leave to send two bytes: every byte can be encoded.\<close>

definition roomy :: "'s Encoder \<Rightarrow> bool" where
  "roomy e \<longleftrightarrow> enc_inv e \<and> 2 \<le> cap_of e \<and> 2 \<le> maxSendChunk e"

lemma roomy_config: "roomy e \<Longrightarrow> same_config e e' \<Longrightarrow> enc_inv e' \<Longrightarrow> roomy e'"
  by (simp add: roomy_def same_config_def)

lemma roomy_ensureFree:
  assumes "accepts_all out" "roomy e" "n = 1 \<or> n = 2"
  shows "fst (ensureFree out e n) = Ok"
  using assms by (intro ensureFree_accepts_all) (auto simp: roomy_def word_le_nat_alt)

lemma pushPacket_loop_accepts_all:
  assumes "accepts_all out" "roomy e"
  shows "fst (pushPacket_loop out e data n) = Ok"
  using assms(2)
proof (induction "unat (of_nat (length data) - n)" arbitrary: e n rule: less_induct)
  case less
  show ?case
  proof (cases "n < of_nat (length data)")
    case False
    then show ?thesis by (simp add: pushPacket_loop.simps [of out e data n])
  next
    case True
    obtain x xs where x: "drop (unat n) data = x # xs"
      using word_less_of_nat_length [OF True] by (cases "drop (unat n) data") auto
    have inv: "enc_inv e" using less.prems by (simp add: roomy_def)
    obtain c e1 where 1: "encodeOne out e (drop (unat n) data) = (Ok, c, e1)"
      using encodeOne_status [OF inv, of out x xs] roomy_ensureFree [OF assms(1) less.prems] x
      by (cases "encodeOne out e (x # xs)") (auto split: if_splits)
    obtain e2 where 2: "flush out e1 = (Ok, e2)"
      using flush_loop_accepts_all [OF assms(1), of e1 0] by (cases "flush out e1") (simp add: flush_def)
    have w: "writes (slip_escape x) e e1"
      using encodeOne_writes [OF inv, of out x xs Ok c e1] 1 x by simp
    have "writes (slip_escape x) e e2"
      using writes_trans [OF w flush_writes [OF writes_inv [OF w] 2]] by simp
    then have "roomy e2" using less.prems roomy_config by (auto simp: writes_def)
    then show ?thesis
      using less.hyps encodeOne_progress [OF True 1] pushPacket_loop_step [OF True 1 2] by simp
  qed
qed

lemma pushPacket_pending_accepts_all:
  assumes "accepts_all out" "roomy e"
  shows "fst (pushPacket_pending out e) = Ok"
  using roomy_ensureFree [OF assms, of 1] flush_loop_accepts_all [OF assms(1)]
  by (cases "ensureFree out e 1") (simp add: pushPacket_pending_def flush_def)

lemma pushPacket_end_accepts_all:
  assumes "accepts_all out" "roomy e"
  shows "fst (pushPacket_end out e) = Ok"
  using roomy_ensureFree [OF assms, of 1] flush_loop_accepts_all [OF assms(1)]
  by (cases "ensureFree out e 1") (simp add: pushPacket_end_def flush_def)

lemma pushPacket_accepts_all:
  assumes "accepts_all out" "roomy e" "length data < 2 ^ 64"
  obtains e' where "pushPacket out e data = ((Ok, of_nat (length data)), e')"
    "roomy e'" "same_config e e'" "\<not> endPending e'" "intended e' = intended e @ slip_encode data"
proof -
  have inv: "enc_inv e" using assms(2) by (simp add: roomy_def)
  obtain e1 where 1: "flush out e = (Ok, e1)"
    using flush_loop_accepts_all [OF assms(1), of e 0] by (cases "flush out e") (simp add: flush_def)
  have r1: "roomy e1"
    using flush_writes [OF inv 1] roomy_config [OF assms(2)] by (simp add: writes_def)
  obtain e2 where 2: "pushPacket_pending out e1 = (Ok, e2)"
    using pushPacket_pending_accepts_all [OF assms(1) r1] by (cases "pushPacket_pending out e1") simp
  have r2: "roomy e2"
    using pushPacket_pending_spec [OF _ 2] r1 roomy_config [OF r1] by (simp add: roomy_def)
  obtain n e3 where 3: "pushPacket_loop out e2 data 0 = (Ok, n, e3)"
    using pushPacket_loop_accepts_all [OF assms(1) r2] by (metis prod.collapse)
  have r3: "roomy e3"
    using pushPacket_loop_writes [OF _ _ assms(3) 3] r2 roomy_config [OF r2] by (simp add: roomy_def writes_def)
  obtain e4 where 4: "pushPacket_end out e3 = (Ok, e4)"
    using pushPacket_end_accepts_all [OF assms(1) r3] by (cases "pushPacket_end out e3") simp
  have push: "pushPacket out e data = ((Ok, n), e4)"
    using pushPacket_stages [OF 1 2 3 4] by simp
  note spec = pushPacket_spec [OF inv assms(3) push]
  then have "n = of_nat (length data)"
    using assms(3) by (simp add: word_unat_eq_iff unat_of_nat_size)
  with push spec roomy_config [OF assms(2)] show thesis by (intro that [of e4]) simp_all
qed

section \<open>Chunked encoding\<close>

fun chunks :: "nat \<Rightarrow> 'a list \<Rightarrow> 'a list list" where
  "chunks k xs = (if k = 0 \<or> xs = [] then [] else take k xs # chunks k (drop k xs))"

declare chunks.simps [simp del]

lemma concat_chunks: "0 < k \<Longrightarrow> concat (chunks k xs) = xs"
proof (induction k xs rule: chunks.induct)
  case (1 k xs)
  then show ?case by (subst chunks.simps) simp
qed

text \<open>
  One call per chunk: each chunk becomes a frame of its own. The loop ends, and unless all
  is well it ends within the frame of the first chunk that is not counted.
\<close>

definition chunk_outcome :: "nat \<Rightarrow> byte list \<Rightarrow> byte list \<Rightarrow> WriteStatus \<Rightarrow> nat \<Rightarrow> byte list \<Rightarrow> bool" where
  "chunk_outcome k before data st n after \<longleftrightarrow> n \<le> length data \<and>
     (if st = Ok then n = length data \<and> after = before @ concat (map slip_encode (chunks k data))
      else n < length data \<and>
        (\<exists>rest. after = before @ concat (map slip_encode (chunks k (take n data))) @ rest \<and>
           ((\<exists>c. rest = slip_body (take c (take k (drop n data)))) \<or> rest = slip_encode (take k (drop n data)))))"

lemma chunks_Cons: "0 < k \<Longrightarrow> xs \<noteq> [] \<Longrightarrow> chunks k xs = take k xs # chunks k (drop k xs)"
  by (simp add: chunks.simps [of k xs])

lemma chunks_Nil [simp]: "chunks k [] = []"
  by (simp add: chunks.simps)

lemma chunk_outcome_step:
  assumes "0 < k" "data \<noteq> []"
    and "chunk_outcome k (before @ slip_encode (take k data)) (drop k data) st n after"
  shows "chunk_outcome k before data st (min k (length data) + n) after"
proof (cases "k \<le> length data")
  case True
  have "chunks k (take (k + n) data) = take k data # chunks k (take n (drop k data))"
    using assms(1,2) by (subst chunks_Cons) (auto simp: drop_take)
  with assms True show ?thesis
    by (auto simp: chunk_outcome_def chunks_Cons add.commute split: if_splits)
next
  case False
  with assms show ?thesis by (auto simp: chunk_outcome_def chunks_Cons split: if_splits)
qed

lemma pushPacket_chunk_loop_spec:
  assumes "length data < 2 ^ 64" "0 < k" "enc_inv e" "j \<le> length data"
  shows "\<exists>st n e'. pushPacket_chunk_loop out e data k (of_nat j) = Some ((st, of_nat (j + n)), e') \<and>
    enc_inv e' \<and> same_config e e' \<and>
    chunk_outcome (unat k) (intended e) (drop j data) st n (intended e')"
  using assms(1,2,4,3)
proof (induction j arbitrary: e rule: chunk_induct)
  case finish
  then show ?case
    by (subst pushPacket_chunk_loop.simps) (simp add: chunk_outcome_def)
next
  case (chunk j t)
  define xs where "xs = take t (drop j data)"
  have k: "0 < unat k" using assms(2) by (simp add: word_less_nat_alt)
  have xs: "xs = take (unat k) (drop j data)" "length xs = t" "length xs < 2 ^ 64"
    using chunk.hyps(1,2) assms(1) by (auto simp: xs_def min_def)
  obtain st c e1 where 1: "pushPacket out e xs = ((st, c), e1)" by (metis prod.collapse)
  note spec = pushPacket_spec [OF chunk.prems xs(3) 1]
  have step: "pushPacket_chunk_loop out e data k (of_nat j) =
      (if st \<noteq> Ok then Some ((st, of_nat j), e1) else pushPacket_chunk_loop out e1 data k (of_nat j + c))"
    using chunk.hyps 1 by (subst pushPacket_chunk_loop.simps) (simp add: xs_def Let_def)
  show ?case
  proof (cases "st = Ok")
    case False
    have "chunk_outcome (unat k) (intended e) (drop j data) st 0 (intended e1)"
      using False spec chunk.hyps(1) by (auto simp: chunk_outcome_def xs)
    with False step spec show ?thesis by (intro exI [of _ st] exI [of _ 0] exI [of _ e1]) simp
  next
    case True
    with spec have c: "c = of_nat t" and e1: "intended e1 = intended e @ slip_encode (take (unat k) (drop j data))"
      using xs by (simp_all add: word_unat_eq_iff unat_of_nat_size)
    obtain st' n e' where 2: "pushPacket_chunk_loop out e1 data k (of_nat (j + t)) = Some ((st', of_nat (j + t + n)), e')"
        "enc_inv e'" "same_config e1 e'" "chunk_outcome (unat k) (intended e1) (drop (j + t) data) st' n (intended e')"
      using chunk.IH [of e1] spec by blast
    have "drop (j + t) data = drop (unat k) (drop j data)" "t = min (unat k) (length (drop j data))"
      using chunk.hyps(2) by (auto simp: min_def add.commute)
    with 2(4) e1 chunk.hyps(1) have "chunk_outcome (unat k) (intended e) (drop j data) st' (t + n) (intended e')"
      using chunk_outcome_step [OF k, of "drop j data" "intended e" st' n "intended e'"] by simp
    with True step spec c 2(1-3) show ?thesis
      by (auto simp: add.assoc intro: same_config_trans intro!: exI [of _ st'] exI [of _ "t + n"])
  qed
qed

lemma pushPacket_chunk_ex_loop_agrees:
  assumes "length data < 2 ^ 64" "0 < k" "enc_inv e" "j \<le> length data"
  shows "pushPacket_chunk_loop out e data k (of_nat j) =
    map_option (\<lambda>(r, e'). ((pstatus r, pconsumed r), e')) (pushPacket_chunk_ex_loop out e data k (of_nat j))"
  using assms(1,2,4,3)
proof (induction j arbitrary: e rule: chunk_induct)
  case finish
  then show ?case
    by (simp add: pushPacket_chunk_loop.simps [of out e data k] pushPacket_chunk_ex_loop.simps [of out e data k]
        PushPacketResult_of_def)
next
  case (chunk j t)
  define xs where "xs = take t (drop j data)"
  have xs: "length xs = t" "length xs < 2 ^ 64"
    using chunk.hyps(1,2) assms(1) by (auto simp: xs_def)
  obtain r e1 where ex: "pushPacket_ex out e xs = (r, e1)" by fastforce
  note plain = pushPacket_ex_state [OF chunk.prems ex]
  note spec = pushPacket_spec [OF chunk.prems xs(2) plain]
  have steps:
    "pushPacket_chunk_loop out e data k (of_nat j) =
      (if pstatus r \<noteq> Ok then Some ((pstatus r, of_nat j), e1)
       else pushPacket_chunk_loop out e1 data k (of_nat j + pconsumed r))"
    "pushPacket_chunk_ex_loop out e data k (of_nat j) =
      (if pstatus r = RetryLater then Some (PushPacketResult_of RetryLater (of_nat j), e1)
       else if pstatus r = Error then
         Some (PushPacketResult_err (code (perror r)) (of_nat j) (of_nat j) (message (perror r)), e1)
       else pushPacket_chunk_ex_loop out e1 data k (of_nat j + pconsumed r))"
    using chunk.hyps ex plain
    by (simp_all add: pushPacket_chunk_loop.simps [of out e data k] pushPacket_chunk_ex_loop.simps [of out e data k]
        xs_def Let_def PushPacketResult_is_retry_def PushPacketResult_is_error_def)
  show ?case
  proof (cases "pstatus r = Ok")
    case False
    with steps show ?thesis
      by (cases "pstatus r") (simp_all add: PushPacketResult_of_def PushPacketResult_err_def)
  next
    case True
    then have "pconsumed r = of_nat t"
      using spec xs by (simp add: word_unat_eq_iff unat_of_nat_size)
    with steps True chunk.IH [of e1] spec show ?thesis by simp
  qed
qed

lemma pushPacket_chunk_loop_diverges:
  assumes "accepts_all out" "roomy e" "n < of_nat (length data)"
  shows "pushPacket_chunk_loop out e data 0 n = None"
proof -
  have "k = 0 \<and> accepts_all out \<and> roomy e \<longrightarrow> \<not> n < of_nat (length data)"
    if "pushPacket_chunk_loop out e data k n = Some r" for k r
    using that
  proof (rule pushPacket_chunk_loop.raw_induct
      [where P = "\<lambda>out e data k n r. k = 0 \<and> accepts_all out \<and> roomy e \<longrightarrow> \<not> n < of_nat (length data)", rotated])
    fix loop and out :: "'a OutputFn" and e data k n r
    assume IH: "\<And>out e data k n r. loop out e data k n = Some r \<Longrightarrow>
        k = 0 \<and> accepts_all out \<and> roomy e \<longrightarrow> \<not> n < of_nat (length data)"
      and body: "(if n < of_nat (length data) then
        let to_process = min k (of_nat (length data) - n)
        in case pushPacket out e (take (unat to_process) (drop (unat n) data)) of ((st, c), e1) \<Rightarrow>
          if st \<noteq> Ok then Some ((st, n), e1) else loop out e1 data k (n + c)
        else Some ((Ok, n), e)) = Some r"
    show "k = 0 \<and> accepts_all out \<and> roomy e \<longrightarrow> \<not> n < of_nat (length data)"
    proof (intro impI notI)
      assume *: "k = 0 \<and> accepts_all out \<and> roomy e" "n < of_nat (length data)"
      obtain e1 where "pushPacket out e [] = ((Ok, 0), e1)" "roomy e1"
        using * pushPacket_accepts_all [of out e "[]"] by auto
      with * body have "loop out e1 data k n = Some r" by (simp add: Let_def)
      with IH * \<open>roomy e1\<close> show False by blast
    qed
  qed
  with assms show ?thesis by (cases "pushPacket_chunk_loop out e data 0 n") auto
qed

section \<open>Sequences of calls\<close>

text \<open>
  How a client sends one packet against an output that may block or fail at any byte: as long as a
  call does not return \<open>Ok\<close> it calls \<open>pushPacket\<close> again with the bytes that are left, also when none
  are left; between the calls it may call \<open>flush\<close>. Every outcome of \<open>pushPacket\<close> has its rule. The
  number counts the calls that consumed all bytes left without returning \<open>Ok\<close>: such
  a result does not tell whether the END of the packet is committed.
\<close>

inductive push_session :: "'s OutputFn \<Rightarrow> 's Encoder \<Rightarrow> byte list \<Rightarrow> nat \<Rightarrow> 's Encoder \<Rightarrow> bool" for out where
  finished: "pushPacket out e data = ((Ok, n), e') \<Longrightarrow> push_session out e data 0 e'"
| again: "pushPacket out e data = ((st, n), e1) \<Longrightarrow> st \<noteq> Ok \<Longrightarrow> unat n < length data \<Longrightarrow>
    push_session out e1 (drop (unat n) data) k e' \<Longrightarrow> push_session out e data k e'"
| nothing_left: "pushPacket out e data = ((st, n), e1) \<Longrightarrow> st \<noteq> Ok \<Longrightarrow> unat n = length data \<Longrightarrow>
    push_session out e1 [] k e' \<Longrightarrow> push_session out e data (Suc k) e'"
| flushed: "flush out e = (st, e1) \<Longrightarrow> push_session out e1 data k e' \<Longrightarrow> push_session out e data k e'"

lemma flush_intended:
  assumes "enc_inv e" "flush out e = (st, e1)"
  shows "enc_inv e1" "same_config e e1" "stream e1 = stream e" "endPending e1 = endPending e" "intended e1 = intended e"
  using flush_sends [OF assms] sends_stream by (auto simp: sends_def intended_def)

lemma push_session_stream:
  assumes "push_session out e data k e'" "enc_inv e" "length data < 2 ^ 64"
  shows "enc_inv e' \<and> same_config e e' \<and> \<not> endPending e' \<and>
    (\<exists>j \<le> k. stream e' = intended e @ slip_encode data @ replicate j END)"
  using assms
proof (induction rule: push_session.induct)
  case (finished e data n e')
  then show ?case
    using pushPacket_spec [OF _ _ finished.hyps] by (auto simp: intended_def)
next
  case (again e data st n e1 k e')
  have 1: "enc_inv e1" "same_config e e1" "intended e1 = intended e @ slip_body (take (unat n) data)"
    using pushPacket_spec [OF again.prems again.hyps(1)] again.hyps(3) by auto
  have "length (drop (unat n) data) < 2 ^ 64" using again.prems(2) by simp
  from again.IH [OF 1(1) this] obtain j where 2: "enc_inv e'" "same_config e1 e'" "\<not> endPending e'" "j \<le> k"
    "stream e' = intended e1 @ slip_encode (drop (unat n) data) @ replicate j END" by blast
  have "slip_encode data = slip_body (take (unat n) data) @ slip_encode (drop (unat n) data)"
    by (simp add: slip_encode_def flip: append_assoc slip_body_append)
  then have "stream e' = intended e @ slip_encode data @ replicate j END"
    using 1(3) 2(5) by simp
  with 1(2) 2 show ?case by (blast intro: same_config_trans)
next
  case (nothing_left e data st n e1 k e')
  have 1: "enc_inv e1" "same_config e e1"
      "intended e1 = intended e @ slip_body data \<or> intended e1 = intended e @ slip_encode data"
    using pushPacket_spec [OF nothing_left.prems nothing_left.hyps(1)] nothing_left.hyps(3) by auto
  from nothing_left.IH [OF 1(1)] obtain j where 2: "enc_inv e'" "same_config e1 e'" "\<not> endPending e'" "j \<le> k"
    "stream e' = intended e1 @ slip_encode [] @ replicate j END" by auto
  have "\<exists>j \<le> Suc k. stream e' = intended e @ slip_encode data @ replicate j END"
    using 1(3)
  proof
    assume "intended e1 = intended e @ slip_body data"
    with 2 show ?thesis by (intro exI [of _ j]) (simp add: slip_encode_def)
  next
    assume "intended e1 = intended e @ slip_encode data"
    with 2 show ?thesis by (intro exI [of _ "Suc j"]) (simp add: slip_encode_def)
  qed
  with 1 2 show ?case by (blast intro: same_config_trans)
next
  case (flushed e st e1 data k e')
  note f = flush_intended [OF flushed.prems(1) flushed.hyps(1)]
  from flushed.IH [OF f(1) flushed.prems(2)] f(2,5) show ?case by (auto intro: same_config_trans)
qed

text \<open>The states of an encoder made with a buffer of \<open>n\<close> bytes.\<close>

inductive enc_reach :: "'s OutputFn \<Rightarrow> size_t \<Rightarrow> 's Encoder \<Rightarrow> bool" for out n where
  make: "enc_reach out n (mk_Encoder s n k)"
| do_flush: "enc_reach out n e \<Longrightarrow> enc_reach out n (snd (flush out e))"
| do_flush_ex: "enc_reach out n e \<Longrightarrow> enc_reach out n (snd (flush_ex out e))"
| do_push: "enc_reach out n e \<Longrightarrow> length data < 2 ^ 64 \<Longrightarrow> enc_reach out n (snd (pushPacket out e data))"
| do_push_ex: "enc_reach out n e \<Longrightarrow> length data < 2 ^ 64 \<Longrightarrow> enc_reach out n (snd (pushPacket_ex out e data))"
| do_chunk: "enc_reach out n e \<Longrightarrow> length data < 2 ^ 64 \<Longrightarrow> 0 < k \<Longrightarrow>
    pushPacket_chunk out e data k = Some (r, e') \<Longrightarrow> enc_reach out n e'"
| do_set: "enc_reach out n e \<Longrightarrow> enc_reach out n (setMaxSendChunk e k)"

lemma enc_inv_make: "enc_inv (mk_Encoder s n k)" "cap_of (mk_Encoder s n k) = unat n"
  using unat_size_less [of n] by (auto simp: enc_inv_def mk_Encoder_def cap_of_def)

lemma maxSendChunk_upd [simp]:
  "enc_inv (e\<lparr>maxSendChunk := k\<rparr>) = enc_inv e" "cap_of (e\<lparr>maxSendChunk := k\<rparr>) = cap_of e"
  by (simp_all add: enc_inv_def cap_of_def)

lemma enc_reach_inv: "enc_reach out n e \<Longrightarrow> enc_inv e \<and> cap_of e = unat n"
proof (induction rule: enc_reach.induct)
  case (make s k)
  then show ?case by (simp add: enc_inv_make)
next
  case (do_flush e)
  then show ?case
    using flush_writes [of e out] by (cases "flush out e") (auto simp: writes_def same_config_def)
next
  case (do_flush_ex e)
  then show ?case
    using flush_writes [of e out] flush_ex_agrees(1) [of out e]
    by (cases "flush_ex out e") (auto simp: writes_def same_config_def)
next
  case (do_push e data)
  then show ?case
    using pushPacket_spec [of e data out] by (cases "pushPacket out e data") (auto simp: same_config_def)
next
  case (do_push_ex e data)
  then show ?case
    using pushPacket_spec [of e data out] pushPacket_ex_state [of e out data]
    by (cases "pushPacket_ex out e data") (auto simp: same_config_def)
next
  case (do_chunk e data k r e')
  then show ?case
    using pushPacket_chunk_loop_spec [of data k e 0 out] by (auto simp: pushPacket_chunk_def same_config_def)
next
  case (do_set e k)
  then show ?case by (simp add: setMaxSendChunk_def)
qed

section \<open>Properties\<close>

text \<open>
  Outputs for the witnesses: one that accepts every byte, one that accepts a number of bytes
  and then blocks (the sink of the unit tests), and one that fails.
\<close>

definition open_sink :: "unit OutputFn" where
  "open_sink s b = (Ok, s)"

definition credit_sink :: "nat OutputFn" where
  "credit_sink n b = (if n = 0 then (RetryLater, 0) else (Ok, n - 1))"

definition failing_sink :: "unit OutputFn" where
  "failing_sink s b = (Error, s)"

lemma open_sink_accepts: "accepts_all open_sink"
  by (simp add: accepts_all_def open_sink_def)

definition sample_encoder :: "'s \<Rightarrow> 's Encoder" where
  "sample_encoder s = mk_Encoder s 4 2"

lemma sample_encoder_inv:
  "enc_inv (sample_encoder s)" "cap_of (sample_encoder s) = 4" "roomy (sample_encoder s)"
  "intended (sample_encoder s) = []" "endPending (sample_encoder s) = False" "queue (sample_encoder s) = []"
  "maxSendChunk (sample_encoder s) = 2" "accepted (sample_encoder s) = []"
  using enc_inv_make [of s 4 2]
  by (simp_all add: sample_encoder_def roomy_def intended_def stream_def queue_def mk_Encoder_def)

text \<open>
  C4: Conservation. Whatever the output does, a call of \<open>pushPacket\<close> keeps the invariant and the
  settings, and the committed stream (bytes accepted by the output, bytes queued, a pending
  END) grows by exactly the escaped form of the payload bytes reported as consumed, or, with
  all of them consumed, by the whole frame. It is the whole frame if the status is \<open>Ok\<close>.
\<close>
theorem pushPacket_conserves:
  assumes "enc_inv e" "length data < 2 ^ 64" "pushPacket out e data = ((st, n), e')"
  shows "enc_inv e' \<and> same_config e e' \<and> unat n \<le> length data \<and>
    (st = Ok \<longrightarrow> unat n = length data \<and> \<not> endPending e' \<and> intended e' = intended e @ slip_encode data) \<and>
    (intended e' = intended e @ slip_body (take (unat n) data) \<or>
     unat n = length data \<and> intended e' = intended e @ slip_encode data)"
  using pushPacket_spec [OF assms] .

theorem pushPacket_conserves_witness:
  "pushPacket credit_sink (sample_encoder 2) [1, 0xC0, 2] =
     ((RetryLater, 2), snd (pushPacket credit_sink (sample_encoder 2) [1, 0xC0, 2])) \<and>
   intended (snd (pushPacket credit_sink (sample_encoder 2) [1, 0xC0, 2])) = [1, 0xDB, 0xDC]"
proof -
  let ?r = "pushPacket credit_sink (sample_encoder 2) [1, 0xC0, 2]"
  have "fst ?r = (RetryLater, 2)" by code_simp
  then have r: "?r = ((RetryLater, 2), snd ?r)" by (simp add: prod_eq_iff)
  show ?thesis
    using r pushPacket_conserves [OF sample_encoder_inv(1) _ r]
    by (simp add: sample_encoder_inv slip_encode_def slip_escape_def slip_consts)
qed

text \<open>
  C5: A packet sent by a client that calls \<open>pushPacket\<close> again with the bytes not yet consumed until
  a call returns \<open>Ok\<close> (the relation \<open>push_session\<close>), against an output that may block or fail at any byte.
  The stream grows by exactly the frame of the packet, followed by at most as many
  further END bytes, that is empty frames, as there were calls that consumed all bytes left without
  returning \<open>Ok\<close>. Without such a call it grows by exactly the frame. No payload byte is lost,
  repeated or changed in any case.
\<close>
theorem push_session_correct:
  assumes "push_session out e data k e'" "enc_inv e" "length data < 2 ^ 64"
  shows "enc_inv e' \<and> \<not> endPending e' \<and>
    (\<exists>j \<le> k. stream e' = intended e @ slip_encode data @ replicate j END) \<and>
    (k = 0 \<longrightarrow> stream e' = intended e @ slip_encode data)"
  using push_session_stream [OF assms] by auto

text \<open>An output that accepts two bytes, blocks once, and accepts everything afterwards.\<close>

definition stalling_sink :: "nat OutputFn" where
  "stalling_sink n b = (if n = 2 then (RetryLater, 3) else (Ok, n + 1))"

lemma stalled_session:
  "push_session stalling_sink (sample_encoder 0) [1, 0xC0, 2]
     0 (snd (pushPacket stalling_sink (snd (pushPacket stalling_sink (sample_encoder 0) [1, 0xC0, 2])) [2]))"
proof -
  let ?r1 = "pushPacket stalling_sink (sample_encoder 0) [1, 0xC0, 2]"
  let ?r2 = "pushPacket stalling_sink (snd ?r1) [2]"
  have "fst ?r1 = (RetryLater, 2)" "fst ?r2 = (Ok, 1)" by code_simp+
  then have r: "?r1 = ((RetryLater, 2), snd ?r1)" "?r2 = ((Ok, 1), snd ?r2)" by (simp_all add: prod_eq_iff)
  have "push_session stalling_sink (snd ?r1) [2] 0 (snd ?r2)"
    by (rule push_session.finished [OF r(2)])
  then show ?thesis
    by (intro push_session.again [OF r(1)]) simp_all
qed

text \<open>The output blocks behind the END of the packet: the call that follows adds an empty frame.\<close>

lemma stalled_end_session:
  "push_session stalling_sink (sample_encoder 0) [1, 2]
     1 (snd (pushPacket stalling_sink (snd (pushPacket stalling_sink (sample_encoder 0) [1, 2])) []))"
proof -
  let ?r1 = "pushPacket stalling_sink (sample_encoder 0) [1, 2]"
  let ?r2 = "pushPacket stalling_sink (snd ?r1) []"
  have "fst ?r1 = (RetryLater, 2)" "fst ?r2 = (Ok, 0)" by code_simp+
  then have r: "?r1 = ((RetryLater, 2), snd ?r1)" "?r2 = ((Ok, 0), snd ?r2)" by (simp_all add: prod_eq_iff)
  have "push_session stalling_sink (snd ?r1) [] 0 (snd ?r2)"
    by (rule push_session.finished [OF r(2)])
  then show ?thesis
    unfolding One_nat_def by (intro push_session.nothing_left [OF r(1)]) simp_all
qed

theorem push_session_correct_witness:
  "(\<exists>e'. push_session stalling_sink (sample_encoder 0) [1, 0xC0, 2] 0 e' \<and> stream e' = [1, 0xDB, 0xDC, 2, 0xC0]) \<and>
   (\<exists>e'. push_session stalling_sink (sample_encoder 0) [1, 2] 1 e' \<and> (\<exists>j \<le> 1. stream e' = [1, 2, 0xC0] @ replicate j END))"
  using push_session_correct [OF stalled_session sample_encoder_inv(1)] stalled_session
    push_session_correct [OF stalled_end_session sample_encoder_inv(1)] stalled_end_session
  by (auto simp: sample_encoder_inv slip_encode_def slip_escape_def slip_consts)

text \<open>
  C15: Progress. With an output that accepts every byte, a buffer of at least two bytes and leave to
  send at least two bytes per flush, \<open>pushPacket\<close> consumes every packet in one call and
  returns \<open>Ok\<close>, however full the queue was before.
\<close>
theorem pushPacket_progress:
  assumes "accepts_all out" "enc_inv e" "2 \<le> cap_of e" "2 \<le> maxSendChunk e" "length data < 2 ^ 64"
  shows "\<exists>e'. pushPacket out e data = ((Ok, of_nat (length data)), e') \<and>
    stream e' = intended e @ slip_encode data"
proof -
  have "roomy e" using assms by (simp add: roomy_def)
  from pushPacket_accepts_all [OF assms(1) this assms(5)] obtain e' where
    "pushPacket out e data = ((Ok, of_nat (length data)), e')" "\<not> endPending e'"
    "intended e' = intended e @ slip_encode data" .
  then show ?thesis by (intro exI [of _ e']) (simp add: intended_def)
qed

theorem pushPacket_progress_witness:
  "\<exists>e'. pushPacket open_sink (sample_encoder ()) [0xC0, 0xDB, 0xC0] = ((Ok, 3), e') \<and>
     stream e' = [0xDB, 0xDC, 0xDB, 0xDD, 0xDB, 0xDC, 0xC0]"
  using pushPacket_progress [OF open_sink_accepts sample_encoder_inv(1), of "()" "[0xC0, 0xDB, 0xC0]"]
  by (simp add: sample_encoder_inv slip_encode_def slip_escape_def slip_consts)

text \<open>
  C16: A flush hands the first k bytes of the queue to the output in order and removes exactly
  those, with k at most \<open>maxSendChunk\<close>, and k the smaller of \<open>maxSendChunk\<close> and the length
  of the queue if it returns \<open>Ok\<close>. Nothing else changes.
\<close>
theorem flush_sends_prefix:
  assumes "enc_inv e" "flush out e = (st, e')"
  shows "\<exists>k \<le> unat (maxSendChunk e). enc_inv e' \<and> queue e' = drop k (queue e) \<and>
    accepted e' = accepted e @ take k (queue e) \<and> same_config e e' \<and> endPending e' = endPending e \<and>
    (st = Ok \<longrightarrow> k = min (length (queue e)) (unat (maxSendChunk e)))"
  using flush_sends [OF assms] by (auto simp: sends_def)

definition full_encoder :: "nat \<Rightarrow> nat Encoder" where
  "full_encoder n = foldl (\<lambda>e b. snd (queueByte e b)) (sample_encoder n) [7, 8, 9]"

lemma full_encoder_inv: "enc_inv (full_encoder n)" "queue (full_encoder n) = [7, 8, 9]"
  using ring.enq_list [OF sample_encoder_inv(1) [of n], of "[7, 8, 9]"]
  by (simp_all add: full_encoder_def sample_encoder_inv Let_def del: foldl_Cons foldl_Nil)

theorem flush_sends_prefix_witness:
  "\<exists>k \<le> 2. queue (snd (flush credit_sink (full_encoder 5))) = drop k [7, 8, 9]"
proof -
  have "maxSendChunk (full_encoder 5) = 2" by code_simp
  then show ?thesis
    using flush_sends_prefix [OF full_encoder_inv(1), of credit_sink 5, OF surjective_pairing]
    by (auto simp: full_encoder_inv)
qed

text \<open>
  C17: The ring buffer is a bounded queue: \<open>queueByte\<close> appends a byte at the end exactly if the
  queue is shorter than the buffer, and otherwise changes nothing; \<open>dequeueByte\<close> takes the
  byte at the front exactly if there is one, and otherwise changes nothing.
\<close>
theorem ring_buffer_fifo:
  assumes "enc_inv e"
  shows "(\<exists>ok e'. queueByte e b = (ok, e') \<and> enc_inv e' \<and> cap_of e' = cap_of e \<and>
      ok = (length (queue e) < cap_of e) \<and> queue e' = (if ok then queue e @ [b] else queue e)) \<and>
    (\<exists>ok x e'. dequeueByte e b = (ok, x, e') \<and> enc_inv e' \<and> cap_of e' = cap_of e \<and>
      (case queue e of [] \<Rightarrow> \<not> ok \<and> x = b \<and> e' = e | y # ys \<Rightarrow> ok \<and> x = y \<and> queue e' = ys))"
proof
  show "\<exists>ok e'. queueByte e b = (ok, e') \<and> enc_inv e' \<and> cap_of e' = cap_of e \<and>
      ok = (length (queue e) < cap_of e) \<and> queue e' = (if ok then queue e @ [b] else queue e)"
    using ring.enq_room [OF assms, of b] ring.enq_full [OF assms, of b] ring.bounded [OF assms] assms
    by (cases "length (queue e) < cap_of e") auto
  show "\<exists>ok x e'. dequeueByte e b = (ok, x, e') \<and> enc_inv e' \<and> cap_of e' = cap_of e \<and>
      (case queue e of [] \<Rightarrow> \<not> ok \<and> x = b \<and> e' = e | y # ys \<Rightarrow> ok \<and> x = y \<and> queue e' = ys)"
    using ring.deq_empty [OF assms, of b] ring.deq_some [OF assms, of _ _ b] assms
    by (cases "queue e") auto
qed

theorem ring_buffer_fifo_witness: "fst (snd (dequeueByte (full_encoder 0) 0)) = 7"
  using ring_buffer_fifo [OF full_encoder_inv(1), of 0 0] by (auto simp: full_encoder_inv)

text \<open>
  C18: Invariant. However an encoder is used, its indices stay inside its buffer, the number of
  queued bytes it reports is the length of its queue and does not exceed the capacity it
  was made with, and the reported free space is the difference.
\<close>
theorem encoder_invariant:
  assumes "enc_reach out n e"
  shows "enc_inv e \<and> unat (capacity e) = unat n \<and> unat (queued e) = length (queue e) \<and>
    unat (queued e) \<le> unat n \<and> unat (free e) = unat n - length (queue e)"
proof -
  have inv: "enc_inv e" and cap: "cap_of e = unat n" using enc_reach_inv [OF assms] by simp_all
  have "txSize e \<le> of_nat (length (txBuf e))"
    using unat_cap [OF inv] txSize_le_cap [OF inv] by (simp add: word_le_nat_alt)
  then have "unat (free e) = unat n - unat (txSize e)"
    using unat_cap [OF inv] cap by (simp add: free_def unat_sub)
  then show ?thesis
    using inv cap unat_cap [OF inv] txSize_le_cap [OF inv] by (simp add: capacity_def queued_def)
qed

theorem encoder_invariant_witness:
  "unat (queued (snd (pushPacket credit_sink (mk_Encoder 2 4 2) [1, 0xC0, 2]))) \<le> 4"
  using encoder_invariant [OF enc_reach.do_push [OF enc_reach.make], of "[1, 0xC0, 2]" credit_sink 2 4 2] by simp

text \<open>
  C21: The error-reporting \<open>pushPacket_ex\<close> does exactly what \<open>pushPacket\<close> does: the same status, the
  same count and the same encoder. In particular its branch that answers any failure to
  find room for the END with \<open>RetryLater\<close> is never taken for an error of the output.
\<close>
theorem pushPacket_ex_agrees:
  assumes "enc_inv e"
  shows "pushPacket out e data =
    (case pushPacket_ex out e data of (r, e') \<Rightarrow> ((pstatus r, pconsumed r), e'))"
  using pushPacket_ex_state [OF assms] by (cases "pushPacket_ex out e data") simp

theorem pushPacket_ex_agrees_witness:
  "pstatus (fst (pushPacket_ex failing_sink (sample_encoder ()) [1, 2])) = Error"
proof -
  have "fst (pushPacket failing_sink (sample_encoder ()) [1, 2]) = (Error, 1)" by code_simp
  then show ?thesis
    using pushPacket_ex_agrees [OF sample_encoder_inv(1), of failing_sink "()" "[1, 2]"]
    by (auto split: prod.splits)
qed

text \<open>
  With a buffer and leave to send at least one byte, no call leaves a pending END behind: the flush
  before the END is appended makes room for it. The flag is only ever set by an
  encoder that cannot send at all.
\<close>
theorem no_pending_end:
  assumes "enc_inv e" "0 < cap_of e" "0 < maxSendChunk e" "\<not> endPending e" "length data < 2 ^ 64"
  shows "\<not> endPending (snd (pushPacket out e data))"
proof -
  obtain st1 e1 where 1: "flush out e = (st1, e1)" by fastforce
  have w1: "writes [] e e1" using flush_writes [OF assms(1) 1] .
  have 2: "pushPacket_pending out e1 = (Ok, e1)"
    using w1 assms(4) by (simp add: pushPacket_pending_def writes_def)
  obtain st3 n e3 where 3: "pushPacket_loop out e1 data 0 = (st3, n, e3)" using prod_cases3 by blast
  have w3: "\<not> endPending e3" "same_config e e3" "enc_inv e3"
    using pushPacket_loop_writes [OF writes_inv [OF w1] _ assms(5) 3] w1 assms(4)
    by (auto simp: writes_def intro: same_config_trans)
  obtain st4 e4 where 4: "pushPacket_end out e3 = (st4, e4)" by fastforce
  have "\<not> endPending e4" if "st1 = Ok" "st3 = Ok"
  proof -
    have "relaxed e3"
      using flush_Ok_relaxed [OF assms(1)] pushPacket_loop_relaxed 1 3 that by blast
    with w3(2) assms(2,3) have "unat (txSize e3) < cap_of e3" by (auto simp: relaxed_def same_config_def)
    with pushPacket_end_room [OF \<open>relaxed e3\<close> this, of out] 4 w3(1) show ?thesis by simp
  qed
  with pushPacket_stages [OF 1 2 3 4] w1 w3(1) assms(4) show ?thesis
    by (auto simp: writes_def)
qed

theorem no_pending_end_witness:
  "\<not> endPending (snd (pushPacket credit_sink (sample_encoder 1) [1, 2, 3]))"
  using no_pending_end [OF sample_encoder_inv(1), of 1 "[1, 2, 3]" credit_sink]
  by (simp add: sample_encoder_inv)

text \<open>
  C32: A buffer of fewer than two bytes cannot hold an escape sequence: a packet that starts with an
  END or ESC byte is never accepted, whatever the output does; the call consumes nothing
  and does not return \<open>Ok\<close>, and so does every repetition of it.
\<close>
theorem small_buffer_never_encodes:
  assumes "enc_inv e" "cap_of e < 2" "x = END \<or> x = ESC" "length (x # xs) < 2 ^ 64"
    "pushPacket out e (x # xs) = ((st, n), e')"
  shows "st \<noteq> Ok \<and> n = 0 \<and> enc_inv e' \<and> cap_of e' < 2"
proof -
  obtain st1 e1 where 1: "flush out e = (st1, e1)" by fastforce
  obtain st2 e2 where 2: "pushPacket_pending out e1 = (st2, e2)" by fastforce
  obtain st3 n3 e3 where 3: "pushPacket_loop out e2 (x # xs) 0 = (st3, n3, e3)" using prod_cases3 by blast
  obtain st4 e4 where 4: "pushPacket_end out e3 = (st4, e4)" by fastforce
  have e2: "enc_inv e2" "cap_of e2 < 2"
    using pushPacket_pending_spec [OF writes_inv [OF flush_writes [OF assms(1) 1]] 2] flush_writes [OF assms(1) 1]
      assms(2) by (auto simp: writes_def same_config_def)
  obtain st5 e5 where 5: "ensureFree out e2 2 = (st5, e5)" by fastforce
  have "st5 \<noteq> Ok"
    using ensureFree_writes [OF e2(1) 5] e2(2) by (auto simp: writes_def same_config_def)
  then have "fst (encodeOne out e2 (x # xs)) \<noteq> Ok"
    using encodeOne_status [OF e2(1), of out x xs] 5 assms(3) by simp
  moreover have "0 < (of_nat (length (x # xs)) :: size_t)"
    using assms(4) by (simp only: word_less_nat_alt unat_of_nat_size [OF assms(4)]) simp
  ultimately have "st3 \<noteq> Ok" "n3 = 0"
    using 3 by (auto simp: pushPacket_loop.simps [of out e2 "x # xs" 0] split: prod.splits)
  with pushPacket_stages [OF 1 2 3 4] assms(5) pushPacket_spec [OF assms(1,4,5)] assms(2) show ?thesis
    by (auto simp: same_config_def split: if_splits)
qed

theorem small_buffer_never_encodes_witness:
  "fst (pushPacket open_sink (mk_Encoder () 1 64) [0xC0]) = (RetryLater, 0)"
proof -
  let ?r = "pushPacket open_sink (mk_Encoder () 1 64) [0xC0]"
  have "fst (fst ?r) = RetryLater" by code_simp
  moreover have "?r = ((fst (fst ?r), snd (fst ?r)), snd ?r)" by simp
  ultimately show ?thesis
    using small_buffer_never_encodes [OF enc_inv_make(1), of "()" 1 64 "0xC0" "[]" open_sink]
    by (simp add: enc_inv_make slip_consts prod_eq_iff)
qed

text \<open>
  C31: With a positive chunk size, \<open>pushPacket_chunk\<close> terminates; if it returns \<open>Ok\<close>, all bytes are
  consumed and the stream has grown by one frame per chunk; otherwise the count covers
  the chunks before the one that failed, whose frame may have been started or even
  completed without being counted. \<open>pushPacket_chunk_ex\<close> returns the same status and count
  and leaves the same encoder.
\<close>
theorem pushPacket_chunk_correct:
  assumes "enc_inv e" "0 < chunk_size" "length data < 2 ^ 64"
  shows "\<exists>st n e'. pushPacket_chunk out e data chunk_size = Some ((st, of_nat n), e') \<and> enc_inv e' \<and>
    chunk_outcome (unat chunk_size) (intended e) data st n (intended e') \<and>
    (\<exists>r. pushPacket_chunk_ex out e data chunk_size = Some (r, e') \<and> pstatus r = st \<and> pconsumed r = of_nat n)"
proof -
  obtain st n e' where "pushPacket_chunk out e data chunk_size = Some ((st, of_nat n), e')" "enc_inv e'"
      "chunk_outcome (unat chunk_size) (intended e) data st n (intended e')"
    using pushPacket_chunk_loop_spec [OF assms(3,2,1), of 0 out] by (auto simp: pushPacket_chunk_def)
  moreover from this(1) have "\<exists>r. pushPacket_chunk_ex out e data chunk_size = Some (r, e') \<and>
      pstatus r = st \<and> pconsumed r = of_nat n"
    using pushPacket_chunk_ex_loop_agrees [OF assms(3,2,1), of 0 out]
    by (cases "pushPacket_chunk_ex_loop out e data chunk_size 0")
      (auto simp: pushPacket_chunk_def pushPacket_chunk_ex_def)
  ultimately show ?thesis by blast
qed

theorem pushPacket_chunk_correct_witness:
  "\<exists>st n e'. pushPacket_chunk open_sink (sample_encoder ()) [1, 2, 3] 2 = Some ((st, of_nat n), e') \<and>
     chunk_outcome 2 [] [1, 2, 3] st n (intended e')"
  using pushPacket_chunk_correct [OF sample_encoder_inv(1), of 2 "[1, 2, 3]" open_sink "()"]
  by (auto simp: sample_encoder_inv)

text \<open>
  With chunk size 0 and an output that accepts everything, \<open>pushPacket_chunk\<close> never returns: it
  keeps sending empty frames.
\<close>
theorem pushPacket_chunk_zero_diverges:
  assumes "accepts_all out" "enc_inv e" "2 \<le> cap_of e" "2 \<le> maxSendChunk e" "data \<noteq> []" "length data < 2 ^ 64"
  shows "pushPacket_chunk out e data 0 = None"
proof -
  have "0 < (of_nat (length data) :: size_t)"
    using assms(5,6) by (simp add: word_less_nat_alt unat_of_nat_size)
  with assms show ?thesis
    unfolding pushPacket_chunk_def by (intro pushPacket_chunk_loop_diverges) (simp_all add: roomy_def)
qed

theorem pushPacket_chunk_zero_diverges_witness:
  "pushPacket_chunk open_sink (sample_encoder ()) [1] 0 = None"
  using pushPacket_chunk_zero_diverges [OF open_sink_accepts sample_encoder_inv(1), of "()" "[1]"]
  by (simp add: sample_encoder_inv)

text \<open>
  The result (RetryLater, size) does not tell the client where it stands: with an output that
  blocks at once the frame still lacks its END, and with one that accepts one byte more the
  END is already queued, with the same result and no pending END in either case. Sending the
  next packet merges the two frames in the first case; calling again with no
  bytes left adds an empty frame in the second.
\<close>
theorem pushPacket_retry_ambiguous:
  "fst (pushPacket credit_sink (mk_Encoder 0 16 4) [1]) = (RetryLater, 1) \<and>
   fst (pushPacket credit_sink (mk_Encoder 1 16 4) [1]) = (RetryLater, 1) \<and>
   intended (snd (pushPacket credit_sink (mk_Encoder 0 16 4) [1])) = [1] \<and>
   intended (snd (pushPacket credit_sink (mk_Encoder 1 16 4) [1])) = [1, END] \<and>
   stream (snd (pushPacket credit_sink ((snd (pushPacket credit_sink (mk_Encoder 0 16 4) [1]))\<lparr>sink := 9\<rparr>) [2])) =
     [1, 2, END] \<and>
   stream (snd (pushPacket credit_sink ((snd (pushPacket credit_sink (mk_Encoder 1 16 4) [1]))\<lparr>sink := 9\<rparr>) [])) =
     [1, END, END]"
  by (intro conjI) code_simp+

end
