(* ===== verification/Slip_Sink.thy ===== *)
theory Slip_Sink
  imports Slip_Encoder
begin

text \<open>
  Contracts of output callbacks, and what the encoder delivers to an output that keeps
  them. An output with credit accepts a known number of further bytes: an encoder
  with an empty queue hands it each packet as a whole frame. An output with
  patience blocks only a bounded number of times: a client that calls again with
  the bytes that are left gets rid of all of them in a bounded number of calls.
\<close>

section \<open>Outputs with credit\<close>

text \<open>The state of the output after it has been given the bytes.\<close>

definition feed :: "'s OutputFn \<Rightarrow> 's \<Rightarrow> byte list \<Rightarrow> 's" where
  "feed out s bs = foldl (\<lambda>s b. snd (out s b)) s bs"

lemma feed_simps [simp]: "feed out s [] = s" "feed out s (b # bs) = feed out (snd (out s b)) bs"
  "feed out s (as @ bs) = feed out (feed out s as) bs"
  by (simp_all add: feed_def)

text \<open>An encoder that has sent everything it was given.\<close>

definition drained :: "'s Encoder \<Rightarrow> bool" where
  "drained e \<longleftrightarrow> roomy e \<and> queue e = [] \<and> \<not> endPending e"

text \<open>From \<open>e\<close> to \<open>e'\<close> exactly the bytes \<open>bs\<close> were handed to the output.\<close>

definition delivers :: "'s OutputFn \<Rightarrow> byte list \<Rightarrow> 's Encoder \<Rightarrow> 's Encoder \<Rightarrow> bool" where
  "delivers out bs e e' \<longleftrightarrow> drained e' \<and> same_config e e' \<and> accepted e' = accepted e @ bs \<and>
     sink e' = feed out (sink e) bs"

lemma delivers_refl: "drained e \<Longrightarrow> delivers out [] e e"
  by (simp add: delivers_def)

lemma delivers_trans: "delivers out as e e1 \<Longrightarrow> delivers out bs e1 e2 \<Longrightarrow> delivers out (as @ bs) e e2"
  by (auto simp: delivers_def intro: same_config_trans)

lemma drained_make: "2 \<le> n \<Longrightarrow> 2 \<le> k \<Longrightarrow> drained (mk_Encoder s n k)"
  using enc_inv_make [of s n k] by (auto simp: drained_def roomy_def mk_Encoder_def queue_def word_le_nat_alt)

lemma drained_txSize: "drained e \<Longrightarrow> txSize e = 0"
  using length_queue [of e] by (simp add: drained_def unat_eq_zero)

lemma drained_flush: "drained e \<Longrightarrow> flush out e = (Ok, e)"
  by (simp add: flush_def flush_loop.simps [of out e] drained_txSize)

lemma drained_ensureFree: "drained e \<Longrightarrow> n = 1 \<or> n = 2 \<Longrightarrow> ensureFree out e n = (Ok, e)"
  using drained_txSize [of e] free_ge_iff [of e n] by (auto simp: ensureFree_def drained_def roomy_def)

lemma drained_sink [simp]: "drained (e\<lparr>sink := s\<rparr>) = drained e"
  by (simp add: drained_def roomy_def enc_inv_def cap_of_def queue_def)

lemma queueByte_frame:
  "sink (snd (queueByte e b)) = sink e" "accepted (snd (queueByte e b)) = accepted e"
  by (simp_all add: queueByte_def)

lemma queueByte_frames:
  assumes "queueByte e b = (ok, e1)"
  shows "sink e1 = sink e \<and> accepted e1 = accepted e"
  using queueByte_frame [of e b] assms by simp

text \<open>An escaped byte in the queue of an encoder that was drained.\<close>

definition loaded :: "byte list \<Rightarrow> 's Encoder \<Rightarrow> 's Encoder \<Rightarrow> bool" where
  "loaded bs e e1 \<longleftrightarrow> writes bs e e1 \<and> sink e1 = sink e \<and> accepted e1 = accepted e"

lemma loaded_queue: "drained e \<Longrightarrow> loaded bs e e1 \<Longrightarrow> queue e1 = bs"
  by (auto simp: loaded_def writes_def stream_def drained_def)

lemma drained_encodeOne:
  assumes "drained e"
  obtains e1 where "encodeOne out e (x # xs) = (Ok, 1, e1)" "loaded (slip_escape x) e e1"
proof -
  have inv: "enc_inv e" using assms by (simp add: drained_def roomy_def)
  obtain st c e1 where 1: "encodeOne out e (x # xs) = (st, c, e1)" using prod_cases3 by blast
  have "st = Ok"
    using encodeOne_status [OF inv, of out x xs] 1 drained_ensureFree [OF assms] by (simp split: if_splits)
  moreover have "sink e1 = sink e \<and> accepted e1 = accepted e"
    using 1 drained_ensureFree [OF assms, of 1 out] drained_ensureFree [OF assms, of 2 out]
    by (auto simp: encodeOne_def split: if_splits prod.splits dest!: queueByte_frames)
  ultimately show thesis
    using that encodeOne_writes [OF inv 1] 1 by (simp add: loaded_def)
qed

locale credit =
  fixes out :: "'s OutputFn" and credit :: "'s \<Rightarrow> nat \<Rightarrow> bool"
  assumes accept: "credit s (Suc n) \<Longrightarrow> fst (out s b) = Ok \<and> credit (snd (out s b)) n"
begin

lemma flush_loop_drains:
  assumes "enc_inv e" "length (queue e) + unat sent \<le> unat (maxSendChunk e)"
    and "credit (sink e) (length (queue e) + k)"
  shows "\<exists>e'. flush_loop out e sent = (Ok, e') \<and> sends (length (queue e)) e e' \<and>
    sink e' = feed out (sink e) (queue e) \<and> credit (sink e') k"
  using assms
proof (induction "length (queue e)" arbitrary: e sent)
  case 0
  from 0(1) have q: "queue e = []" by (metis length_0_conv)
  then have "txSize e = 0" using length_queue [of e] by (simp add: unat_eq_zero)
  with q show ?case
    using 0 sends_0 [of e] by (simp add: flush_loop.simps [of out e])
next
  case (Suc n)
  define b where "b = txBuf e ! unat (txHead e)"
  have pos: "0 < txSize e" using Suc.hyps(2) by (simp add: word_less_nat_alt)
  obtain ys where q: "queue e = b # ys"
    using queue_Cons [OF Suc.prems(1) pos] by (auto simp: b_def)
  have acc: "fst (out (sink e) b) = Ok" "credit (snd (out (sink e) b)) (length ys + k)"
    using accept [of "sink e" "length ys + k" b] Suc.prems(3) q by simp_all
  obtain e1 where 1: "call_output out e b = (Ok, e1)" "sink e1 = snd (out (sink e) b)"
    using acc(1) by (cases "out (sink e) b") (simp add: call_output_def)
  define e2 where "e2 = snd (snd (dequeueByte e1 b))"
  have s: "sends 1 e e2"
    using sends_1 [of e out e1 b] Suc.prems(1) pos 1 by (simp add: e2_def b_def)
  have e2: "queue e2 = ys" "enc_inv e2" "maxSendChunk e2 = maxSendChunk e" "sink e2 = sink e1"
    using s q by (simp_all add: sends_def same_config_def e2_def dequeueByte_def)
  have less: "sent < maxSendChunk e" "unat (sent + 1) = Suc (unat sent)"
    using Suc.prems(2) q unat_inc [of sent "maxSendChunk e"] by (simp_all add: word_less_nat_alt)
  have loop: "flush_loop out e sent = flush_loop out e2 (sent + 1)"
    using pos less 1 by (simp add: flush_loop.simps [of out e sent] Let_def e2_def flip: b_def)
  obtain e' where e': "flush_loop out e2 (sent + 1) = (Ok, e')" "sends (length ys) e2 e'"
      "sink e' = feed out (sink e2) ys" "credit (sink e') k"
    using Suc.hyps(1) [of e2 "sent + 1"] Suc.hyps(2) Suc.prems(2) acc(2) q e2 less(2) 1(2) by auto
  then show ?case
    using loop sends_trans [OF s e'(2)] q e2(4) 1(2) by simp
qed

lemma flush_delivers:
  assumes "drained e" "loaded bs e e1" "length bs \<le> 2" "credit (sink e) (length bs + k)"
  obtains e2 where "flush out e1 = (Ok, e2)" "delivers out bs e e2" "credit (sink e2) k"
proof -
  have e1: "queue e1 = bs" "enc_inv e1" "same_config e e1" "sink e1 = sink e" "accepted e1 = accepted e"
      "endPending e1 = endPending e"
    using assms(2) loaded_queue [OF assms(1,2)] by (simp_all add: loaded_def writes_def)
  have "length (queue e1) + unat (0 :: size_t) \<le> unat (maxSendChunk e1)"
    using assms(1,3) e1 by (simp add: drained_def roomy_def same_config_def word_le_nat_alt)
  moreover have "credit (sink e1) (length (queue e1) + k)"
    using assms(4) by (simp only: e1)
  ultimately obtain e2 where
    e2: "flush_loop out e1 0 = (Ok, e2)" "sends (length bs) e1 e2" "sink e2 = feed out (sink e) bs" "credit (sink e2) k"
    using flush_loop_drains [OF e1(2), of 0 k, unfolded e1(1,4)] e1(1,4) by metis
  have "drained e2"
    using assms(1) e1 e2(2) roomy_config [of e e2] by (auto simp: drained_def sends_def intro: same_config_trans)
  then have "delivers out bs e e2"
    using e1 e2 by (auto simp: delivers_def sends_def intro: same_config_trans)
  with e2(1,4) show thesis by (intro that) (simp_all only: flush_def)
qed

lemma pushPacket_loop_delivers:
  assumes "drained e" "length data < 2 ^ 64" "unat n \<le> length data"
    and "credit (sink e) (length (slip_body (drop (unat n) data)) + k)"
  shows "\<exists>e'. pushPacket_loop out e data n = (Ok, of_nat (length data), e') \<and>
    delivers out (slip_body (drop (unat n) data)) e e' \<and> credit (sink e') k"
  using assms(1,3,4)
proof (induction "length data - unat n" arbitrary: e n)
  case 0
  then have "unat n = length data" by simp
  moreover from this have "n = of_nat (length data)" by (metis of_nat_unat ucast_id)
  ultimately show ?case
    using 0 by (simp add: pushPacket_loop.simps [of out e data] delivers_refl)
next
  case (Suc j)
  have n: "unat n < length data" "n < of_nat (length data)"
    using Suc.hyps(2) assms(2) by (simp_all add: word_less_nat_alt unat_of_nat_size)
  define x where "x = data ! unat n"
  have x: "drop (unat n) data = x # drop (Suc (unat n)) data"
    using n(1) by (simp add: Cons_nth_drop_Suc x_def)
  obtain e1 where 1: "encodeOne out e (drop (unat n) data) = (Ok, 1, e1)" "loaded (slip_escape x) e e1"
    using drained_encodeOne [OF Suc.prems(1), of out x] x by metis
  have len: "length (slip_escape x) \<le> 2" by (simp add: length_slip_escape)
  obtain e2 where 2: "flush out e1 = (Ok, e2)" "delivers out (slip_escape x) e e2"
      "credit (sink e2) (length (slip_body (drop (Suc (unat n)) data)) + k)"
    using flush_delivers [OF Suc.prems(1) 1(2) len] Suc.prems(3) by (auto simp: x add.assoc)
  have n1: "unat (n + 1) = Suc (unat n)" using unat_inc [OF n(2)] .
  obtain e' where e': "pushPacket_loop out e2 data (n + 1) = (Ok, of_nat (length data), e')"
      "delivers out (slip_body (drop (Suc (unat n)) data)) e2 e'" "credit (sink e') k"
  proof -
    have "drained e2" using 2(2) by (simp add: delivers_def)
    moreover have "j = length data - Suc (unat n)" using Suc.hyps(2) by simp
    ultimately show thesis
      using that Suc.hyps(1) [of "n + 1" e2, unfolded n1] n(1) 2(3) by auto
  qed
  then show ?case
    using pushPacket_loop_step [OF n(2) 1(1) 2(1)] delivers_trans [OF 2(2) e'(2)] x by simp
qed

text \<open>A whole packet: everything is consumed and the output has received the frame.\<close>

lemma pushPacket_delivers:
  assumes "drained e" "length data < 2 ^ 64" "credit (sink e) (length (slip_encode data) + k)"
  obtains e' where "pushPacket out e data = ((Ok, of_nat (length data)), e')"
    "delivers out (slip_encode data) e e'" "credit (sink e') k"
proof -
  have "credit (sink e) (length (slip_body (drop (unat 0) data)) + Suc k)"
    using assms(3) by simp
  from pushPacket_loop_delivers [OF assms(1,2) _ this] obtain e3 where
    3: "pushPacket_loop out e data 0 = (Ok, of_nat (length data), e3)" "delivers out (slip_body data) e e3" "credit (sink e3) (Suc k)"
    by auto
  have d3: "drained e3" using 3(2) by (simp add: delivers_def)
  have "unat (txSize e3) < cap_of e3" "enc_inv e3"
    using d3 drained_txSize [OF d3] by (simp_all add: drained_def roomy_def)
  then obtain e4 where 4: "queueByte e3 END = (True, e4)" "writes [END] e3 e4"
    using queueByte_writes by metis
  then have l: "loaded [END] e3 e4" using queueByte_frames [OF 4(1)] by (simp add: loaded_def)
  obtain e5 where 5: "flush out e4 = (Ok, e5)" "delivers out [END] e3 e5" "credit (sink e5) k"
    using flush_delivers [OF d3 l, of k] 3(3) by auto
  have pend: "pushPacket_end out e3 = (Ok, e5)"
    using drained_ensureFree [OF d3, of 1] 4(1) 5(1) by (simp add: pushPacket_end_def)
  have nopend: "pushPacket_pending out e = (Ok, e)"
    using assms(1) by (simp add: pushPacket_pending_def drained_def)
  show thesis
    using pushPacket_stages [OF drained_flush [OF assms(1)] nopend 3(1) pend] delivers_trans [OF 3(2) 5(2)] 5(3)
    by (intro that [of e5]) (simp_all add: slip_encode_def)
qed

end

section \<open>Outputs with patience\<close>

text \<open>Behind a flush that returns \<open>Ok\<close> there is room for an escape sequence.\<close>

lemma flush_Ok_room:
  assumes "roomy e" "flush out e = (Ok, e')"
  shows "unat (txSize e') + 2 \<le> cap_of e'"
proof -
  have inv: "enc_inv e" using assms(1) by (simp add: roomy_def)
  obtain k where k: "sends k e e'" "k = min (length (queue e)) (unat (maxSendChunk e))"
    using flush_sends [OF inv assms(2)] by blast
  then show ?thesis
    using sends_txSize [OF k(1)] assms(1) txSize_le_cap [OF inv]
    by (auto simp: roomy_def sends_def same_config_def min_def word_le_nat_alt split: if_splits)
qed

lemma ensureFree_cases:
  assumes "roomy e" "n = 1 \<or> n = 2"
  shows "ensureFree out e n = (Ok, e) \<or> ensureFree out e n = flush out e"
proof (cases "of_nat (length (txBuf e)) - txSize e \<ge> n")
  case True
  then show ?thesis by (simp add: ensureFree_def)
next
  case False
  obtain st e1 where 1: "flush out e = (st, e1)" by fastforce
  have inv: "enc_inv e1"
    using flush_writes [OF _ 1] assms(1) by (auto simp: roomy_def writes_def)
  have "of_nat (length (txBuf e1)) - txSize e1 \<ge> n" if "st = Ok"
    using flush_Ok_room [OF assms(1), of out e1] 1 that assms(2) free_ge_iff [OF inv, of n] by auto
  with False 1 show ?thesis by (auto simp: ensureFree_def)
qed

lemma encodeOne_sink:
  assumes "encodeOne out e (x # xs) = (st, c, e1)"
  shows "sink e1 = sink (snd (ensureFree out e (if x = END \<or> x = ESC then 2 else 1)))"
  using assms by (auto simp: encodeOne_def split: if_splits prod.splits dest!: queueByte_frames)

text \<open>
  A client of a blocking output as a function: it calls \<open>pushPacket\<close> with the bytes that are left until a
  call returns \<open>Ok\<close>, and afterwards \<open>flush\<close> until nothing is queued. The number bounds the
  calls; \<open>None\<close> is an error of the output or a bound that was too small.
\<close>

fun push_remaining :: "'s OutputFn \<Rightarrow> nat \<Rightarrow> 's Encoder \<Rightarrow> byte list \<Rightarrow> 's Encoder option" where
  "push_remaining out 0 e data = None"
| "push_remaining out (Suc f) e data =
     (case pushPacket out e data of ((st, n), e1) \<Rightarrow>
        if st = Error then None
        else if st = Ok then Some e1
        else push_remaining out f e1 (drop (unat n) data))"

fun flush_all :: "'s OutputFn \<Rightarrow> nat \<Rightarrow> 's Encoder \<Rightarrow> 's Encoder option" where
  "flush_all out 0 e = (if queued e = 0 then Some e else None)"
| "flush_all out (Suc f) e =
     (if queued e = 0 then Some e
      else case flush out e of (st, e1) \<Rightarrow> if st = Error then None else flush_all out f e1)"

locale patient =
  fixes out :: "'s OutputFn" and patience :: "'s \<Rightarrow> nat"
  assumes no_error: "fst (out s b) \<noteq> Error"
    and accept: "fst (out s b) = Ok \<Longrightarrow> patience (snd (out s b)) \<le> patience s"
    and block: "fst (out s b) = RetryLater \<Longrightarrow> patience (snd (out s b)) < patience s"
begin

text \<open>An operation that fails only by spending patience.\<close>

definition waits :: "'s Encoder \<Rightarrow> WriteStatus \<Rightarrow> 's Encoder \<Rightarrow> bool" where
  "waits e st e' \<longleftrightarrow> st \<noteq> Error \<and> patience (sink e') \<le> patience (sink e) \<and>
     (st = RetryLater \<longrightarrow> patience (sink e') < patience (sink e))"

lemma waits_refl: "waits e Ok e"
  by (simp add: waits_def)

lemma waits_trans: "waits e Ok e1 \<Longrightarrow> waits e1 st e2 \<Longrightarrow> waits e st e2"
  by (auto simp: waits_def)

lemma waits_cong: "waits e st e1 \<Longrightarrow> sink e2 = sink e1 \<Longrightarrow> waits e st e2"
  by (simp add: waits_def)

lemma flush_loop_waits: "flush_loop out e sent = (st, e') \<Longrightarrow> waits e st e'"
proof (induction "unat (txSize e)" arbitrary: e sent rule: less_induct)
  case less
  define b where "b = txBuf e ! unat (txHead e)"
  obtain st1 e1 where 1: "call_output out e b = (st1, e1)" by fastforce
  have w: "waits e st1 e1"
    using 1 no_error [of "sink e" b] accept [of "sink e" b] block [of "sink e" b]
    by (cases "out (sink e) b"; cases "fst (out (sink e) b)") (auto simp: call_output_def waits_def)
  have s: "sink (snd (snd (dequeueByte e1 b))) = sink e1"
    by (simp add: dequeueByte_def)
  show ?case
  proof (cases "0 < txSize e \<and> sent < maxSendChunk e")
    case False
    then have "flush_loop out e sent = (Ok, e)"
      by (simp only: flush_loop.simps [of out e sent] if_False)
    with less.prems show ?thesis by (simp add: waits_refl)
  next
    case True
    have "unat (txSize (snd (snd (dequeueByte e1 b)))) < unat (txSize e)"
      using dequeueByte_txSize [of e1 b] call_output_frame(8) [OF 1] True by simp
    note IH = less.hyps [OF this]
    show ?thesis
    proof (cases "st1 = Ok")
      case ok: True
      then have "flush_loop out (snd (snd (dequeueByte e1 b))) (sent + 1) = (st, e')"
        using less.prems True 1 by (simp add: flush_loop.simps [of out e sent] Let_def flip: b_def)
      from IH [OF this] show ?thesis
        using w ok s by (auto simp: waits_def)
    next
      case False
      with w have "st1 = RetryLater" by (cases st1) (simp_all add: waits_def)
      with less.prems True 1 w show ?thesis
        by (simp add: flush_loop.simps [of out e sent] Let_def flip: b_def)
    qed
  qed
qed

lemma flush_waits: "flush out e = (st, e') \<Longrightarrow> waits e st e'"
  by (simp add: flush_def flush_loop_waits)

lemma ensureFree_waits:
  assumes "roomy e" "n = 1 \<or> n = 2" "ensureFree out e n = (st, e')"
  shows "waits e st e'"
  using ensureFree_cases [OF assms(1,2), of out] assms(3) flush_waits waits_refl by auto

lemma encodeOne_waits:
  assumes "roomy e" "encodeOne out e (x # xs) = (st, c, e1)"
  shows "waits e st e1"
proof -
  define k :: size_t where "k = (if x = END \<or> x = ESC then 2 else 1)"
  have inv: "enc_inv e" using assms(1) by (simp add: roomy_def)
  obtain st0 e0 where 0: "ensureFree out e k = (st0, e0)" by fastforce
  have "waits e st0 e0"
    by (rule ensureFree_waits [OF assms(1) _ 0]) (simp add: k_def)
  moreover have "st = st0" "sink e1 = sink e0"
    using encodeOne_status [OF inv, of out x xs] encodeOne_sink [OF assms(2)] assms(2) 0
    by (simp_all flip: k_def)
  ultimately show ?thesis using waits_cong by blast
qed

lemma pushPacket_loop_waits:
  assumes "roomy e" "pushPacket_loop out e data n = (st, n', e')"
  shows "waits e st e'"
  using assms
proof (induction "unat (of_nat (length data) - n)" arbitrary: e n rule: less_induct)
  case less
  show ?case
  proof (cases "n < of_nat (length data)")
    case False
    with less.prems show ?thesis by (simp add: pushPacket_loop.simps [of out e data n] waits_refl)
  next
    case True
    obtain x xs where x: "drop (unat n) data = x # xs"
      using word_less_of_nat_length [OF True] by (cases "drop (unat n) data") auto
    have inv: "enc_inv e" using less.prems by (simp add: roomy_def)
    obtain st1 c e1 where 1: "encodeOne out e (drop (unat n) data) = (st1, c, e1)" using prod_cases3 by blast
    obtain st2 e2 where 2: "flush out e1 = (st2, e2)" by fastforce
    have w1: "waits e st1 e1"
      using 1 by (intro encodeOne_waits [OF less.prems(1)]) (simp only: x)
    note w2 = flush_waits [OF 2]
    show ?thesis
    proof (cases "st1 = Ok \<and> st2 = Ok")
      case False
      then show ?thesis
        using pushPacket_loop_step [OF True 1 2] less.prems(2) w1 waits_trans [OF _ w2, of e] by (auto split: if_splits)
    next
      case ok: True
      have "writes (slip_escape x) e e1"
        using encodeOne_writes [OF inv, of out x xs st1 c e1] 1 x ok by simp
      then have "writes (slip_escape x @ []) e e2"
        using flush_writes [OF _ 2] writes_trans writes_inv by blast
      then have "roomy e2" using less.prems(1) roomy_config by (auto simp: writes_def)
      moreover have "unat (of_nat (length data) - (n + c)) < unat (of_nat (length data) - n)"
        using encodeOne_progress [OF True] 1 ok by blast
      ultimately have "waits e2 st e'"
        using less.hyps pushPacket_loop_step [OF True 1 2] less.prems(2) ok by simp
      with w1 w2 ok show ?thesis using waits_trans by blast
    qed
  qed
qed

lemma pushPacket_pending_waits:
  assumes "roomy e" "pushPacket_pending out e = (st, e')"
  shows "waits e st e'"
proof (cases "endPending e")
  case False
  with assms(2) show ?thesis by (simp add: pushPacket_pending_def waits_refl)
next
  case True
  obtain st1 e1 where 1: "ensureFree out e 1 = (st1, e1)" by fastforce
  note w1 = ensureFree_waits [OF assms(1) _ 1, simplified]
  define e2 where "e2 = (snd (queueByte e1 END))\<lparr>endPending := False\<rparr>"
  have "sink e2 = sink e1" by (simp add: e2_def queueByte_frame)
  then show ?thesis
    using assms(2) True 1 w1 flush_waits [of e2 st e'] waits_cong [OF w1, of e2] waits_trans
    by (auto simp: pushPacket_pending_def e2_def split: if_splits)
qed

lemma pushPacket_end_waits:
  assumes "roomy e" "pushPacket_end out e = (st, e')"
  shows "waits e st e'"
proof -
  obtain st1 e1 where 1: "ensureFree out e 1 = (st1, e1)" by fastforce
  note w1 = ensureFree_waits [OF assms(1) _ 1, simplified]
  define e2 where "e2 = snd (queueByte e1 END)"
  have "sink e2 = sink e1" by (simp add: e2_def queueByte_frame)
  then show ?thesis
    using assms(2) 1 w1 flush_waits [of e2 st e'] waits_cong [OF w1, of e2] waits_cong [OF w1, of e'] waits_trans
    by (auto simp: pushPacket_end_def e2_def split: if_splits)
qed

lemma pushPacket_waits:
  assumes "roomy e" "length data < 2 ^ 64" "pushPacket out e data = ((st, n), e')"
  shows "waits e st e'"
proof -
  obtain st1 e1 where 1: "flush out e = (st1, e1)" by fastforce
  obtain st2 e2 where 2: "pushPacket_pending out e1 = (st2, e2)" by fastforce
  obtain st3 n3 e3 where 3: "pushPacket_loop out e2 data 0 = (st3, n3, e3)" using prod_cases3 by blast
  obtain st4 e4 where 4: "pushPacket_end out e3 = (st4, e4)" by fastforce
  have r1: "roomy e1"
    using flush_writes [OF _ 1] roomy_config [OF assms(1)] assms(1) by (auto simp: writes_def roomy_def)
  have r2: "roomy e2"
    using pushPacket_pending_spec [OF _ 2] r1 roomy_config [OF r1] by (simp add: roomy_def)
  have r3: "roomy e3"
    using pushPacket_loop_writes [OF _ _ assms(2) 3] r2 roomy_config [OF r2] by (simp add: roomy_def writes_def)
  show ?thesis
    using pushPacket_stages [OF 1 2 3 4] assms(3) flush_waits [OF 1] pushPacket_pending_waits [OF r1 2]
      pushPacket_loop_waits [OF r2 3] pushPacket_end_waits [OF r3 4] waits_trans
    by (auto split: if_splits)
qed

text \<open>The client is done within the patience of the output, and its calls form a session.\<close>

lemma push_remaining_completes:
  assumes "roomy e" "length data < 2 ^ 64" "patience (sink e) < f"
  shows "\<exists>k e'. push_remaining out f e data = Some e' \<and> roomy e' \<and> push_session out e data k e' \<and> k \<le> patience (sink e)"
  using assms
proof (induction f arbitrary: e data)
  case 0
  then show ?case by simp
next
  case (Suc f)
  obtain st n e1 where 1: "pushPacket out e data = ((st, n), e1)" by (metis prod.exhaust)
  have inv: "enc_inv e" using Suc.prems(1) by (simp add: roomy_def)
  note spec = pushPacket_spec [OF inv Suc.prems(2) 1]
  have w: "waits e st e1" using pushPacket_waits [OF Suc.prems(1,2) 1] .
  have r: "roomy e1" using spec roomy_config [OF Suc.prems(1)] by blast
  show ?case
  proof (cases "st = Ok")
    case True
    with 1 r push_session.finished [of out e data n e1] show ?thesis by auto
  next
    case False
    with w have retry: "st = RetryLater" by (cases st) (auto simp: waits_def)
    with w have less: "patience (sink e1) < patience (sink e)" by (simp add: waits_def)
    have len: "length (drop (unat n) data) < 2 ^ 64" using Suc.prems(2) by simp
    obtain k e' where 2: "push_remaining out f e1 (drop (unat n) data) = Some e'" "roomy e'"
        "push_session out e1 (drop (unat n) data) k e'" "k \<le> patience (sink e1)"
      using Suc.IH [OF r len] less Suc.prems(3) by auto
    have "\<exists>k \<le> patience (sink e). push_session out e data k e'"
    proof (cases "unat n < length data")
      case True
      with push_session.again [OF 1 False True 2(3)] 2(4) less show ?thesis by (intro exI [of _ k]) simp
    next
      case n: False
      then have "unat n = length data" using spec by simp
      from push_session.nothing_left [OF 1 False this] 2(3,4) this less show ?thesis
        by (intro exI [of _ "Suc k"]) simp
    qed
    with 1 2 retry show ?thesis by auto
  qed
qed

lemma flush_all_completes:
  assumes "roomy e" "patience (sink e) + length (queue e) \<le> f"
  shows "\<exists>e'. flush_all out f e = Some e' \<and> queue e' = [] \<and> accepted e' = stream e \<and> endPending e' = endPending e"
  using assms
proof (induction f arbitrary: e)
  case 0
  then have q: "queue e = []" using length_0_conv [of "queue e"] by simp
  then have "txSize e = 0" using length_queue [of e] by (simp add: unat_eq_zero)
  with q show ?case by (simp add: queued_def stream_def)
next
  case (Suc f)
  show ?case
  proof (cases "queued e = 0")
    case True
    then have "queue e = []" using length_0_conv [of "queue e"] by (simp add: queued_def)
    with True show ?thesis by (simp add: stream_def)
  next
    case False
    obtain st e1 where 1: "flush out e = (st, e1)" by fastforce
    have inv: "enc_inv e" using Suc.prems(1) by (simp add: roomy_def)
    obtain k where k: "sends k e e1" "st = Ok \<longrightarrow> k = min (length (queue e)) (unat (maxSendChunk e))"
      using flush_sends [OF inv 1] by blast
    have w: "waits e st e1" by (rule flush_waits [OF 1])
    have "0 < length (queue e)" "0 < unat (maxSendChunk e)"
      using False Suc.prems(1) by (auto simp: queued_def roomy_def word_le_nat_alt unat_gt_0)
    then have "st = Ok \<longrightarrow> 0 < k" using k(2) by simp
    moreover have "length (queue e1) = length (queue e) - k" "k \<le> length (queue e)"
      using k(1) by (simp_all add: sends_def del: length_queue)
    ultimately have "patience (sink e1) + length (queue e1) < patience (sink e) + length (queue e)"
      using w by (cases st) (auto simp: waits_def simp del: length_queue)
    moreover have "roomy e1" "stream e1 = stream e" "endPending e1 = endPending e"
      using k(1) sends_stream [OF k(1)] roomy_config [OF Suc.prems(1)] by (auto simp: sends_def)
    ultimately show ?thesis
      using Suc.IH [of e1] Suc.prems(2) 1 False w by (cases st) (auto simp: waits_def)
  qed
qed

end

section \<open>Properties\<close>

interpretation stalling: patient stalling_sink "\<lambda>n. if n \<le> 2 then 1 else 0"
  by unfold_locales (auto simp: stalling_sink_def split: if_splits)

interpretation open_credit: credit open_sink "\<lambda>_ _. True"
  by unfold_locales (simp add: open_sink_def)

text \<open>
  C6: Bounded completion against a blocking output. The encoder has a buffer of at least two bytes and may
  send at least two bytes per flush (a smaller buffer never accepts a special byte). The output never
  fails and blocks a bounded number of times: each block lowers a natural number \<open>patience\<close>
  that accepted bytes do not raise. Then a client that calls \<open>pushPacket\<close> again with the bytes left
  over gets the status \<open>Ok\<close> after at most \<open>patience + 1\<close> calls. By then the stream has grown by
  the complete frame of the packet, with its END, followed by at most \<open>patience\<close> further END bytes.
  Flushing until nothing is queued ends within the remaining patience plus
  the number of queued bytes, and then the output has accepted the whole stream.
\<close>
theorem patient_output_completes:
  assumes "\<And>s b. fst (out s b) \<noteq> Error"
    and "\<And>s b. fst (out s b) = Ok \<Longrightarrow> patience (snd (out s b)) \<le> (patience s :: nat)"
    and "\<And>s b. fst (out s b) = RetryLater \<Longrightarrow> patience (snd (out s b)) < patience s"
    and "enc_inv e" "2 \<le> cap_of e" "2 \<le> maxSendChunk e" "length data < 2 ^ 64"
  shows "\<exists>e' j. push_remaining out (Suc (patience (sink e))) e data = Some e' \<and> j \<le> patience (sink e) \<and>
    stream e' = intended e @ slip_encode data @ replicate j END \<and>
    (\<exists>e''. flush_all out (patience (sink e') + length (queue e')) e' = Some e'' \<and> queue e'' = [] \<and> accepted e'' = stream e')"
proof -
  have p: "patient out patience"
    by unfold_locales (use assms in auto)
  have r: "roomy e" using assms by (simp add: roomy_def)
  obtain k e' where 1: "push_remaining out (Suc (patience (sink e))) e data = Some e'" "roomy e'"
      "push_session out e data k e'" "k \<le> patience (sink e)"
    using patient.push_remaining_completes [OF p r assms(7) lessI] by blast
  obtain j where "j \<le> k" "stream e' = intended e @ slip_encode data @ replicate j END"
    using push_session_stream [OF 1(3) assms(4,7)] by blast
  with 1 patient.flush_all_completes [OF p 1(2) order_refl] show ?thesis
    by (intro exI [of _ e'] exI [of _ j]) auto
qed

theorem patient_output_completes_witness:
  "\<exists>e' j. push_remaining stalling_sink 2 (sample_encoder 0) [1, 0xC0, 2] = Some e' \<and> j \<le> 1 \<and>
     stream e' = [1, 0xDB, 0xDC, 2, 0xC0] @ replicate j END"
proof -
  let ?p = "\<lambda>n :: nat. if n \<le> 2 then 1 else 0 :: nat"
  have n: "?p (sink (sample_encoder (0 :: nat))) = 1"
    by (simp add: sample_encoder_def mk_Encoder_def)
  have f: "slip_encode [1, 0xC0, 2] = [1, 0xDB, 0xDC, 2, 0xC0]" "Suc 1 = 2"
    by (simp_all add: slip_encode_def slip_escape_def slip_consts)
  have "2 \<le> cap_of (sample_encoder (0 :: nat))" "2 \<le> maxSendChunk (sample_encoder (0 :: nat))"
      "length [1, 0xC0, 2 :: byte] < 2 ^ 64"
    by (simp_all add: sample_encoder_inv)
  from patient_output_completes [of stalling_sink ?p, OF stalling.no_error stalling.accept stalling.block
      sample_encoder_inv(1) this]
  show ?thesis
    unfolding n f sample_encoder_inv append_Nil by blast
qed

end
