(* ===== verification/Slip_Results.thy ===== *)
theory Slip_Results
  imports Slip_Buffer Slip_Decoder Slip_Encoder
begin

text \<open>
  The result structures of the functions with error information carry a code, a position
  and a message beside their value, count or status. Conformance says that these fields
  agree: a success carries no error, an error carries a message, a code that belongs to
  the operation, and no value. Every function with error information returns
  conforming results only, whatever its arguments and the state of the object.
\<close>

section \<open>Conformance\<close>

definition Result_conforms :: "ErrorCode list \<Rightarrow> size_t Result \<Rightarrow> bool" where
  "Result_conforms cs r \<longleftrightarrow>
     (if Result_is_success r then error r = ErrorInfo_of_code Success
      else code (error r) \<in> set cs \<and> message (error r) \<noteq> [] \<and> val r = 0)"

definition ConsumeResult_conforms :: "ConsumeResult \<Rightarrow> bool" where
  "ConsumeResult_conforms r \<longleftrightarrow>
     (if has_error r then code (cerror r) \<in> {RXBufferOverflow, DecodeInvalidEscapeSequence} \<and> message (cerror r) \<noteq> []
      else cerror r = ErrorInfo_of_code Success)"

definition WriteResult_conforms :: "WriteResult \<Rightarrow> bool" where
  "WriteResult_conforms r \<longleftrightarrow>
     (if WriteResult_is_error r then code (werror r) = EncodeInternalError \<and> message (werror r) \<noteq> []
      else werror r = ErrorInfo_of_code Success)"

definition PushPacketResult_conforms :: "PushPacketResult \<Rightarrow> bool" where
  "PushPacketResult_conforms r \<longleftrightarrow>
     (if PushPacketResult_is_error r then code (perror r) = EncodeInternalError \<and> message (perror r) \<noteq> []
      else perror r = ErrorInfo_of_code Success)"

lemma Result_conforms_ok [intro!, simp]: "Result_conforms cs (Result_ok v)"
  by (simp add: Result_conforms_def error_defs)

lemma Result_conforms_err [intro!, simp]:
  "c \<in> set cs \<Longrightarrow> msg \<noteq> [] \<Longrightarrow> c \<noteq> Success \<Longrightarrow> Result_conforms cs (Result_err c pos msg)"
  by (simp add: Result_conforms_def error_defs)

lemma ConsumeResult_conforms_simps [simp]:
  "ConsumeResult_conforms (ConsumeResult_ok n)"
  "ConsumeResult_conforms (ConsumeResult_err c n pos msg) \<longleftrightarrow>
     c \<in> {RXBufferOverflow, DecodeInvalidEscapeSequence} \<and> msg \<noteq> []"
  by (simp_all add: ConsumeResult_conforms_def ConsumeResult_ok_def ConsumeResult_err_def error_defs)

lemma WriteResult_conforms_simps [simp]:
  "st \<noteq> Error \<Longrightarrow> WriteResult_conforms (WriteResult_of st)"
  "WriteResult_conforms (WriteResult_err c pos msg) \<longleftrightarrow> c = EncodeInternalError \<and> msg \<noteq> []"
  by (simp_all add: WriteResult_conforms_def WriteResult_of_def WriteResult_err_def WriteResult_is_error_def error_defs)

lemma PushPacketResult_conforms_simps [simp]:
  "st \<noteq> Error \<Longrightarrow> PushPacketResult_conforms (PushPacketResult_of st n)"
  "PushPacketResult_conforms (PushPacketResult_err c n pos msg) \<longleftrightarrow> c = EncodeInternalError \<and> msg \<noteq> []"
  by (simp_all add: PushPacketResult_conforms_def PushPacketResult_of_def PushPacketResult_err_def
      PushPacketResult_is_error_def error_defs)

section \<open>The buffer API\<close>

lemma encode_packet_ex_loop_conforms:
  "snd (encode_packet_ex_loop m p pend out outend pos) = Inl r \<Longrightarrow> Result_conforms [EncodeBufferTooSmall] r"
proof (induction "pend - p" arbitrary: m p out pos rule: less_induct)
  case less
  have IH: "snd (encode_packet_ex_loop m' (p + 1) pend out' outend pos') = Inl r \<Longrightarrow>
      Result_conforms [EncodeBufferTooSmall] r" if "p < pend" for m' out' pos'
    using that by (intro less.hyps) auto
  show ?case
    using less.prems IH by (auto simp: encode_packet_ex_loop.simps [of m p] split: if_splits)
qed

lemma encode_packet_ex_conforms:
  "Result_conforms [EncodeBufferTooSmall] (snd (encode_packet_ex m inp inlen out outlen))"
  using encode_packet_ex_loop_conforms [of m inp "inp + unat inlen" out "out + unat outlen" 0]
  by (auto simp: encode_packet_ex_def Let_def split: prod.splits sum.splits)

abbreviation scan_errors :: "ErrorCode list" where
  "scan_errors \<equiv> [DecodeNoEndMarker, DecodeInvalidEscapeSequence, DecodeTruncatedEscape]"

lemma decoded_length_ex_loop_conforms:
  "decoded_length_ex_loop m p pend k pos = Inl r \<Longrightarrow> Result_conforms scan_errors r"
proof (induction "pend - p" arbitrary: p k pos rule: less_induct)
  case less
  have IH: "decoded_length_ex_loop m p' pend k' pos' = Inl r \<Longrightarrow> Result_conforms scan_errors r"
    if "p < p'" "p < pend" for p' k' pos'
    using that by (intro less.hyps) auto
  show ?case
    using less.prems IH [of "p + 1"] IH [of "p + 2"]
    by (auto simp: decoded_length_ex_loop.simps [of m p] split: if_splits)
qed

lemma decoded_length_ex_conforms: "Result_conforms scan_errors (decoded_length_ex m inp inlen)"
  using decoded_length_ex_loop_conforms [of m inp "inp + unat inlen" 0 0]
  by (auto simp: decoded_length_ex_def split: prod.splits sum.splits)

lemma decode_packet_ex_loop_conforms:
  "snd (decode_packet_ex_loop m p pend w wend pos) = Inl r \<Longrightarrow> Result_conforms (DecodeBufferTooSmall # scan_errors) r"
proof (induction "pend - p" arbitrary: m p w pos rule: less_induct)
  case less
  have IH: "snd (decode_packet_ex_loop m' p' pend w' wend pos') = Inl r \<Longrightarrow>
      Result_conforms (DecodeBufferTooSmall # scan_errors) r" if "p < p'" "p < pend" for m' p' w' pos'
    using that by (intro less.hyps) auto
  show ?case
    using less.prems IH [of "p + 1"] IH [of "p + 2"]
    by (auto simp: decode_packet_ex_loop.simps [of m p] split: if_splits)
qed

lemma decode_packet_ex_conforms:
  "Result_conforms (DecodeBufferTooSmall # scan_errors) (snd (decode_packet_ex m inp inlen out outlen))"
  using decode_packet_ex_loop_conforms [of m inp "inp + unat inlen" out "out + unat outlen" 0]
  by (auto simp: decode_packet_ex_def split: prod.splits sum.splits)

section \<open>The decoder\<close>

lemma consume_ex_byte_conforms: "ConsumeResult_conforms (snd (consume_ex_byte d c))"
  by (simp add: consume_ex_byte_def Let_def)

text \<open>Passing on an error with another count keeps conformance.\<close>

lemma ConsumeResult_conforms_again:
  "ConsumeResult_conforms r \<Longrightarrow> has_error r \<Longrightarrow>
     ConsumeResult_conforms (ConsumeResult_err (code (cerror r)) n pos (message (cerror r)))"
  by (simp add: ConsumeResult_conforms_def [of r])

lemma consume_ex_loop_conforms: "ConsumeResult_conforms (snd (consume_ex_loop d data n))"
proof (induction data arbitrary: d n)
  case Nil
  then show ?case by simp
next
  case (Cons c cs)
  obtain d' r where 1: "consume_ex_byte d c = (d', r)" by fastforce
  with consume_ex_byte_conforms [of d c] Cons.IH show ?case
    by (simp add: ConsumeResult_conforms_again del: ConsumeResult_conforms_simps)
qed

lemma consume_ex_conforms: "ConsumeResult_conforms (snd (consume_ex d data))"
  by (simp add: consume_ex_def consume_ex_loop_conforms)

lemma consume_ex_conformsD: "consume_ex d data = (d', r) \<Longrightarrow> ConsumeResult_conforms r"
  using consume_ex_conforms [of d data] by simp

lemma consume_chunk_ex_conforms:
  assumes "consume_chunk_ex d data k = Some y"
  shows "ConsumeResult_conforms (snd y)"
proof -
  have "consume_chunk_ex_loop d data k 0 = Some y"
    using assms by (simp add: consume_chunk_ex_def)
  then show ?thesis
    by (rule consume_chunk_ex_loop.raw_induct
        [where P = "\<lambda>d data k n y. ConsumeResult_conforms (snd y)", rotated])
      (fastforce simp: Let_def ConsumeResult_conforms_again simp del: ConsumeResult_conforms_simps(2)
        split: if_splits prod.splits dest: consume_ex_conformsD)
qed

section \<open>The encoder\<close>

lemma flush_ex_loop_conforms: "WriteResult_conforms (fst (flush_ex_loop out e sent))"
proof (induction "unat (txSize e)" arbitrary: e sent rule: less_induct)
  case less
  define b where "b = txBuf e ! unat (txHead e)"
  obtain st e1 where 1: "call_output out e b = (st, e1)" by fastforce
  have "unat (txSize (snd (snd (dequeueByte e1 b)))) < unat (txSize e)" if "0 < txSize e"
    using dequeueByte_txSize [of e1 b] call_output_frame(8) [OF 1] that by simp
  from less.hyps [OF this, of "sent + 1"] 1 show ?case
    by (simp add: flush_ex_loop.simps [of out e sent] Let_def flip: b_def)
qed

lemma flush_ex_conforms: "WriteResult_conforms (fst (flush_ex out e))"
  by (simp add: flush_ex_def flush_ex_loop_conforms)

lemma flush_outcome_conforms:
  assumes "flush_ex out e = (wr, e')" "flush_outcome wr n = Some r"
  shows "PushPacketResult_conforms r"
  using assms flush_ex_conforms [of out e]
  by (auto simp: flush_outcome_def WriteResult_conforms_def split: if_splits)

lemma pushPacket_ex_loop_conforms:
  "pushPacket_ex_loop out e data n = (Some r, n', e') \<Longrightarrow> PushPacketResult_conforms r"
proof (induction "unat (of_nat (length data) - n)" arbitrary: e n rule: less_induct)
  case less
  show ?case
  proof (cases "n < of_nat (length data)")
    case False
    with less.prems show ?thesis by (simp add: pushPacket_ex_loop.simps [of out e data n])
  next
    case True
    obtain st c e1 where 1: "encodeOne out e (drop (unat n) data) = (st, c, e1)" using prod_cases3 by blast
    obtain wr e2 where 2: "flush_ex out e1 = (wr, e2)" by fastforce
    show ?thesis
    proof (cases "st = Ok \<and> flush_outcome wr (n + c) = None")
      case ok: True
      then have "pushPacket_ex_loop out e2 data (n + c) = (Some r, n', e')"
        using less.prems True 1 2 by (simp add: pushPacket_ex_loop.simps [of out e data n])
      then show ?thesis
        using less.hyps encodeOne_progress [OF True] 1 ok by blast
    next
      case False
      with less.prems True 1 2 flush_outcome_conforms [OF 2] show ?thesis
        by (auto simp: pushPacket_ex_loop.simps [of out e data n] split: if_splits option.splits)
    qed
  qed
qed

lemma pushPacket_ex_pending_conforms:
  "pushPacket_ex_pending out e = (Some r, e') \<Longrightarrow> PushPacketResult_conforms r"
  by (auto simp: pushPacket_ex_pending_def split: if_splits prod.splits dest: flush_outcome_conforms)

lemma pushPacket_ex_end_conforms: "PushPacketResult_conforms (fst (pushPacket_ex_end out e n))"
  by (auto simp: pushPacket_ex_end_def split: if_splits prod.splits option.splits dest: flush_outcome_conforms)

lemma pushPacket_ex_conforms: "PushPacketResult_conforms (fst (pushPacket_ex out e data))"
proof -
  obtain wr e1 where 1: "flush_ex out e = (wr, e1)" by fastforce
  obtain early2 e2 where 2: "pushPacket_ex_pending out e1 = (early2, e2)" by fastforce
  obtain early3 n e3 where 3: "pushPacket_ex_loop out e2 data 0 = (early3, n, e3)" using prod_cases3 by blast
  show ?thesis
    using 1 2 3 flush_outcome_conforms [OF 1] pushPacket_ex_pending_conforms [of out e1]
      pushPacket_ex_loop_conforms [of out e2 data 0] pushPacket_ex_end_conforms [of out e3 n]
    by (auto simp: pushPacket_ex_def split: option.splits)
qed

lemma pushPacket_ex_conformsD: "pushPacket_ex out e data = (r, e') \<Longrightarrow> PushPacketResult_conforms r"
  using pushPacket_ex_conforms [of out e data] by simp

lemma PushPacketResult_conforms_again:
  "PushPacketResult_conforms r \<Longrightarrow> PushPacketResult_is_error r \<Longrightarrow>
     PushPacketResult_conforms (PushPacketResult_err (code (perror r)) n pos (message (perror r)))"
  by (simp add: PushPacketResult_conforms_def [of r])

lemma pushPacket_chunk_ex_conforms:
  assumes "pushPacket_chunk_ex out e data k = Some y"
  shows "PushPacketResult_conforms (fst y)"
proof -
  have "pushPacket_chunk_ex_loop out e data k 0 = Some y"
    using assms by (simp add: pushPacket_chunk_ex_def)
  then show ?thesis
    by (rule pushPacket_chunk_ex_loop.raw_induct
        [where P = "\<lambda>out e data k n y. PushPacketResult_conforms (fst y)", rotated])
      (fastforce simp: Let_def PushPacketResult_conforms_again simp del: PushPacketResult_conforms_simps(2)
        split: if_splits prod.splits dest: pushPacket_ex_conformsD)
qed

section \<open>Properties\<close>

text \<open>
  C28: Results are well formed. Every function with error information returns a result whose
  fields agree, for all arguments and in every state: a success carries no error; an
  error carries a message, the value 0 where there is a value, and a code of its
  operation only, which is \<open>EncodeBufferTooSmall\<close> for encoding into a buffer,
  \<open>EncodeInternalError\<close> for the encoder, the scan errors and \<open>DecodeBufferTooSmall\<close> for
  decoding a buffer, and \<open>RXBufferOverflow\<close> or \<open>DecodeInvalidEscapeSequence\<close> for the
  decoder. So the codes \<open>DecodeInternalError\<close> and \<open>UnknownError\<close> never occur.
\<close>
theorem results_conform:
  "Result_conforms [] (encoded_length_ex m inp inlen) \<and>
   Result_conforms [EncodeBufferTooSmall] (snd (encode_packet_ex m inp inlen outp outlen)) \<and>
   Result_conforms [DecodeNoEndMarker, DecodeInvalidEscapeSequence, DecodeTruncatedEscape] (decoded_length_ex m inp inlen) \<and>
   Result_conforms [DecodeBufferTooSmall, DecodeNoEndMarker, DecodeInvalidEscapeSequence, DecodeTruncatedEscape]
     (snd (decode_packet_ex m inp inlen outp outlen)) \<and>
   ConsumeResult_conforms (snd (consume_ex_byte d c)) \<and> ConsumeResult_conforms (snd (consume_ex d data)) \<and>
   pred_option (\<lambda>y. ConsumeResult_conforms (snd y)) (consume_chunk_ex d data k) \<and>
   WriteResult_conforms (fst (flush_ex out e)) \<and> PushPacketResult_conforms (fst (pushPacket_ex out e data)) \<and>
   pred_option (\<lambda>y. PushPacketResult_conforms (fst y)) (pushPacket_chunk_ex out e data k)"
  using encode_packet_ex_conforms decoded_length_ex_conforms decode_packet_ex_conforms consume_ex_byte_conforms
    consume_ex_conforms consume_chunk_ex_conforms [of d data k] flush_ex_conforms pushPacket_ex_conforms
    pushPacket_chunk_ex_conforms [of out e data k]
  by (auto simp: encoded_length_ex_def option.pred_set)

end
