(* ===== verification/Slip_Heap.thy ===== *)
theory Slip_Heap
  imports Slip_Prelude
begin

text \<open>
  Objects in memory for the benchmarks.
  The memory allocator is not part of the repository: it is a parameter \<open>new\<close> from the blocks in
  use and a size to an address, of which the theorems assume that it returns a block that
  is not null and overlaps no block in use.
\<close>

type_synonym allocator = "(addr \<times> nat) list \<Rightarrow> nat \<Rightarrow> addr"

definition allocates :: "allocator \<Rightarrow> bool" where
  "allocates new \<longleftrightarrow> (\<forall>bs k. new bs k \<noteq> nullptr \<and> (\<forall>(p, j) \<in> set bs. disjoint_ranges (new bs k) k p j))"

record heap =
  hmem :: mem
  blocks :: "(addr \<times> nat) list"

text \<open>A block of \<open>k\<close> bytes that is not initialised; the latest block comes first.\<close>

definition new_block :: "allocator \<Rightarrow> nat \<Rightarrow> heap \<Rightarrow> addr \<times> heap" where
  "new_block new k h = (let p = new (blocks h) k in (p, h\<lparr>blocks := (p, k) # blocks h\<rparr>))"

text \<open>An array with its initial bytes, and \<open>std::vector<uint8_t> v(k)\<close>, whose bytes are zeros.\<close>

definition new_array :: "allocator \<Rightarrow> byte list \<Rightarrow> heap \<Rightarrow> addr \<times> heap" where
  "new_array new xs h =
     (case new_block new (length xs) h of (p, h1) \<Rightarrow> (p, h1\<lparr>hmem := mem_write (hmem h1) p xs\<rparr>))"

definition new_vector :: "allocator \<Rightarrow> nat \<Rightarrow> heap \<Rightarrow> addr \<times> heap" where
  "new_vector new k h = new_array new (replicate k 0) h"

text \<open>The contents of the object made \<open>i\<close> places before the latest one.\<close>

definition vector_contents :: "heap \<Rightarrow> nat \<Rightarrow> byte list" where
  "vector_contents h i = (case blocks h ! i of (p, k) \<Rightarrow> mem_range (hmem h) p k)"

definition memcpy :: "mem \<Rightarrow> addr \<Rightarrow> addr \<Rightarrow> nat \<Rightarrow> mem" where
  "memcpy m dst src k = mem_write m dst (mem_range m src k)"

section \<open>Lemmas\<close>

text \<open>What an array holds and where it lies.\<close>

lemma new_array_mem:
  assumes "new_array new xs h = (p, h1)"
  shows "p = new (blocks h) (length xs)" "blocks h1 = (p, length xs) # blocks h"
    "hmem h1 = mem_write (hmem h) p xs" "mem_range (hmem h1) p (length xs) = xs"
  using assms by (auto simp: new_array_def new_block_def Let_def)

lemma new_block_fresh:
  assumes "allocates new" "p = new (blocks h) k"
  shows "p \<noteq> nullptr"
    and "(q, j) \<in> set (blocks h) \<Longrightarrow> disjoint_ranges p k q j \<and> disjoint_ranges q j p k"
  using assms by (fastforce simp: allocates_def disjoint_ranges_def)+

lemma new_array_fresh:
  assumes "allocates new" "new_array new xs h = (p, h1)"
  shows "p \<noteq> nullptr"
    and "(q, j) \<in> set (blocks h) \<Longrightarrow> disjoint_ranges p (length xs) q j \<and> disjoint_ranges q j p (length xs)"
    and "(q, j) \<in> set (blocks h) \<Longrightarrow> mem_range (hmem h1) q j = mem_range (hmem h) q j"
proof -
  note mem = new_array_mem [OF assms(2)] and fresh = new_block_fresh [OF assms(1) new_array_mem(1) [OF assms(2)]]
  show "p \<noteq> nullptr" by (rule fresh)
  show "disjoint_ranges p (length xs) q j \<and> disjoint_ranges q j p (length xs)" if "(q, j) \<in> set (blocks h)"
    using that by (rule fresh)
  show "mem_range (hmem h1) q j = mem_range (hmem h) q j" if "(q, j) \<in> set (blocks h)"
    using fresh(2) [OF that] mem(3) by (auto simp: disjoint_ranges_def intro: mem_range_write_outside)
qed

text \<open>An allocator for the witnesses: the block behind the last one in use.\<close>

definition bump :: allocator where
  "bump bs k = Suc (foldr (\<lambda>(p, j). max (p + j)) bs 0)"

lemma bump_bound: "(p :: nat, j) \<in> set bs \<Longrightarrow> p + j \<le> foldr (\<lambda>(p, j). max (p + j)) bs 0"
  by (induction bs) (auto simp: le_max_iff_disj)

lemma bump_allocates: "allocates bump"
  using bump_bound by (fastforce simp: allocates_def bump_def disjoint_ranges_def nullptr_def)

definition empty_heap :: heap where
  "empty_heap = \<lparr>hmem = (\<lambda>_. 0), blocks = []\<rparr>"

end
