(* ===== verification/Slip_Bench.thy ===== *)
theory Slip_Bench
  imports Slip_Heap Slip_Spec
begin

text \<open>
  What the benchmark programs of \<open>src/bench\<close> share: the two loops that fill a vector with
  test bytes, and the measured loop. The benchmark framework is not part of the
  repository: the number of iterations that \<open>benchmark::State\<close> asks for is a
  parameter. The values passed to \<open>DoNotOptimize\<close> or discarded by the benchmarks are kept,
  one entry per iteration.
\<close>

section \<open>Test data\<close>

definition special_byte :: "size_t \<Rightarrow> byte" where
  "special_byte i = (if i mod 2 = 0 then 0xC0 else 0xDB)"

definition ascii_byte :: "size_t \<Rightarrow> byte" where
  "ascii_byte i = ucast (0x20 + i mod (0x7E - 0x20 + 1))"

text \<open>\<open>for (size_t i = 0; i < data.size(); i++) data[i] = f(i);\<close>\<close>

function fill_loop :: "(size_t \<Rightarrow> byte) \<Rightarrow> byte list \<Rightarrow> size_t \<Rightarrow> byte list" where
  "fill_loop f v i =
     (if i < of_nat (length v) then fill_loop f (v[unat i := f i]) (i + 1) else v)"
  by pat_completeness auto
termination
  by (relation "measure (\<lambda>(f, v, i). unat (of_nat (length v) - i))") (auto simp: measure_dec_size)

declare fill_loop.simps [simp del]

text \<open>The bytes of a benchmark's data vector: zeros, or the result of its fill loop.\<close>

definition test_data :: "(size_t \<Rightarrow> byte) option \<Rightarrow> nat \<Rightarrow> byte list" where
  "test_data fill k =
     (case fill of None \<Rightarrow> replicate k 0 | Some f \<Rightarrow> fill_loop f (replicate k 0) 0)"

definition data_vector :: "allocator \<Rightarrow> (size_t \<Rightarrow> byte) option \<Rightarrow> nat \<Rightarrow> heap \<Rightarrow> addr \<times> heap" where
  "data_vector new fill k h =
     (case new_vector new k h of (p, h1) \<Rightarrow>
        (p, case fill of
              None \<Rightarrow> h1
            | Some f \<Rightarrow> h1\<lparr>hmem := mem_write (hmem h1) p (fill_loop f (mem_range (hmem h1) p k) 0)\<rparr>))"

section \<open>The measured loop\<close>

fun iterations :: "nat \<Rightarrow> ('s \<Rightarrow> 'r \<times> 's) \<Rightarrow> 's \<Rightarrow> 'r list \<times> 's" where
  "iterations 0 body s = ([], s)"
| "iterations (Suc n) body s =
     (case body s of (r, s1) \<Rightarrow> case iterations n body s1 of (rs, s2) \<Rightarrow> (r # rs, s2))"

record ('r, 's) bench =
  results :: "'r list"
  bytes_processed :: size_t
  final :: 's

definition measure_loop :: "nat \<Rightarrow> size_t \<Rightarrow> ('s \<Rightarrow> 'r \<times> 's) \<Rightarrow> 's \<Rightarrow> ('r, 's) bench" where
  "measure_loop n bytes body s =
     (case iterations n body s of (rs, s1) \<Rightarrow>
        \<lparr>results = rs, bytes_processed = of_nat n * bytes, final = s1\<rparr>)"

text \<open>The result of a benchmark whose local state is left behind.\<close>

definition with_final :: "('s \<Rightarrow> 't) \<Rightarrow> ('r, 's) bench \<Rightarrow> ('r, 't) bench" where
  "with_final f b = \<lparr>results = results b, bytes_processed = bytes_processed b, final = f (final b)\<rparr>"

text \<open>The measured loop over a body that may not return (\<open>None\<close>).\<close>

fun iterations_option :: "nat \<Rightarrow> ('s \<Rightarrow> ('r \<times> 's) option) \<Rightarrow> 's \<Rightarrow> ('r list \<times> 's) option" where
  "iterations_option 0 body s = Some ([], s)"
| "iterations_option (Suc n) body s =
     (case body s of
        None \<Rightarrow> None
      | Some (r, s1) \<Rightarrow>
          (case iterations_option n body s1 of None \<Rightarrow> None | Some (rs, s2) \<Rightarrow> Some (r # rs, s2)))"

definition measure_loop_option :: "nat \<Rightarrow> size_t \<Rightarrow> ('s \<Rightarrow> ('r \<times> 's) option) \<Rightarrow> 's \<Rightarrow> ('r, 's) bench option" where
  "measure_loop_option n bytes body s =
     (case iterations_option n body s of
        None \<Rightarrow> None
      | Some (rs, s1) \<Rightarrow> Some \<lparr>results = rs, bytes_processed = of_nat n * bytes, final = s1\<rparr>)"

section \<open>Lemmas\<close>

lemma results_with_final [simp]: "results (with_final f b) = results b" "final (with_final f b) = f (final b)"
  by (simp_all add: with_final_def)

lemma measure_loop_option_total:
  assumes "\<And>s. body s = Some (f s)"
  shows "measure_loop_option n b body s = Some (measure_loop n b f s)"
proof -
  have "iterations_option n body s = Some (iterations n f s)"
    using assms by (induction n arbitrary: s) (simp_all split: prod.splits)
  then show ?thesis
    by (simp add: measure_loop_option_def measure_loop_def split: prod.splits)
qed

text \<open>
  A measured loop whose body keeps an invariant \<open>I\<close>, in which it returns always the same
  result \<open>r\<close> and establishes \<open>J\<close>.
\<close>

locale steady =
  fixes I :: "'s \<Rightarrow> bool" and J :: "'s \<Rightarrow> bool" and body :: "'s \<Rightarrow> 'r \<times> 's" and r :: 'r
  assumes result: "I s \<Longrightarrow> fst (body s) = r"
    and keeps: "I s \<Longrightarrow> I (snd (body s))"
    and establishes: "I s \<Longrightarrow> J (snd (body s))"
begin

lemma iterations_steady:
  "I s \<Longrightarrow> fst (iterations n body s) = replicate n r \<and> I (snd (iterations n body s)) \<and>
    (0 < n \<longrightarrow> J (snd (iterations n body s)))"
proof (induction n arbitrary: s)
  case 0
  then show ?case by simp
next
  case (Suc n)
  obtain s1 where 1: "body s = (r, s1)"
    using result [OF Suc.prems] by (cases "body s") simp
  then have "I s1" "J s1"
    using keeps [OF Suc.prems] establishes [OF Suc.prems] by simp_all
  then show ?case
    using Suc.IH [of s1] 1 by (cases n) (auto split: prod.splits)
qed

lemma measure_loop_steady:
  assumes "I s"
  shows "results (measure_loop n b body s) = replicate n r"
    and "bytes_processed (measure_loop n b body s) = of_nat n * b"
    and "I (final (measure_loop n b body s))"
    and "0 < n \<Longrightarrow> J (final (measure_loop n b body s))"
  using iterations_steady [OF assms, of n]
  by (auto simp: measure_loop_def split: prod.splits)

end

lemma fill_loop_eq:
  assumes "length v < 2 ^ 64" "j \<le> length v"
  shows "fill_loop f v (of_nat j) = take j v @ map (\<lambda>i. f (of_nat i)) [j..<length v]"
  using assms
proof (induction "length v - j" arbitrary: j v)
  case 0
  then show ?case by (simp add: fill_loop.simps [of f v])
next
  case (Suc n)
  have w: "unat (of_nat j :: size_t) = j" "unat (of_nat (length v) :: size_t) = length v"
    using Suc.hyps(2) Suc.prems by (simp_all add: unat_of_nat_size)
  have less: "(of_nat j :: size_t) < of_nat (length v)"
    using w Suc.hyps(2) by (simp add: word_less_nat_alt)
  have "fill_loop f (v[j := f (of_nat j)]) (of_nat (Suc j)) =
      take (Suc j) (v[j := f (of_nat j)]) @ map (\<lambda>i. f (of_nat i)) [Suc j..<length v]"
    using Suc.hyps(1) [of "v[j := f (of_nat j)]" "Suc j"] Suc.hyps(2) Suc.prems by simp
  moreover have "take (Suc j) (v[j := f (of_nat j)]) = take j v @ [f (of_nat j)]"
    using Suc.hyps(2) by (simp add: take_Suc_conv_app_nth)
  moreover have "[j..<length v] = j # [Suc j..<length v]"
    using Suc.hyps(2) by (intro upt_conv_Cons) simp
  ultimately show ?case
    using less w by (simp add: fill_loop.simps [of f v] add.commute)
qed

lemma test_data_eq:
  "k < 2 ^ 64 \<Longrightarrow> test_data (Some f) k = map (\<lambda>i. f (of_nat i)) [0..<k]"
  "test_data None k = replicate k 0"
  using fill_loop_eq [of "replicate k 0" 0 f] by (simp_all add: test_data_def)

lemma length_test_data [simp]: "k < 2 ^ 64 \<Longrightarrow> length (test_data fill k) = k"
  by (cases fill) (simp_all add: test_data_eq)

lemma length_slip_body_const:
  assumes "\<And>x. x \<in> set xs \<Longrightarrow> length (slip_escape x) = c"
  shows "length (slip_body xs) = c * length xs"
  using assms by (induction xs) simp_all

lemma length_escape_ascii: "length (slip_escape (ascii_byte i)) = 1"
proof -
  have "unat (i mod (0x7E - 0x20 + 1)) < 95"
    by (simp add: unat_mod)
  then have "unat (0x20 + i mod (0x7E - 0x20 + 1)) < 127"
    by (simp add: unat_word_ariths)
  moreover have "unat (ascii_byte i) \<le> unat (0x20 + i mod (0x7E - 0x20 + 1))"
    by (simp add: ascii_byte_def unsigned_ucast_eq)
  ultimately have "unat (ascii_byte i) < 127"
    by linarith
  then have "ascii_byte i \<noteq> END" "ascii_byte i \<noteq> ESC"
    by (auto simp: slip_consts)
  then show ?thesis by (simp add: length_slip_escape)
qed

lemma length_encode_test_data:
  assumes "k < 2 ^ 64"
  shows "length (slip_encode (test_data None k)) = k + 1"
    and "length (slip_encode (test_data (Some ascii_byte) k)) = k + 1"
    and "length (slip_encode (test_data (Some special_byte) k)) = 2 * k + 1"
proof -
  show "length (slip_encode (test_data None k)) = k + 1"
    using length_slip_body_const [of "replicate k (0 :: byte)" 1]
    by (simp add: slip_encode_def test_data_eq slip_escape_def slip_consts)
  show "length (slip_encode (test_data (Some ascii_byte) k)) = k + 1"
    using length_slip_body_const [of "test_data (Some ascii_byte) k" 1] assms
    by (fastforce simp: slip_encode_def test_data_eq length_escape_ascii)
  show "length (slip_encode (test_data (Some special_byte) k)) = 2 * k + 1"
    using length_slip_body_const [of "test_data (Some special_byte) k" 2] assms
    by (fastforce simp: slip_encode_def test_data_eq special_byte_def slip_escape_def slip_consts)
qed

text \<open>What a data vector holds and where it lies.\<close>

lemma new_vector_data_vector: "new_vector new k h = data_vector new None k h"
  by (simp add: data_vector_def split: prod.splits)

lemma data_vector_array:
  assumes "data_vector new fill k h = (p, h1)"
  obtains h0 where "new_array new (replicate k 0) h = (p, h0)" "blocks h1 = blocks h0"
    "hmem h1 = (if fill = None then hmem h0 else mem_write (hmem h0) p (test_data fill k))"
proof -
  obtain h0 where 0: "new_array new (replicate k 0) h = (p, h0)"
    using assms by (auto simp: data_vector_def new_vector_def split: prod.splits)
  then have "mem_range (hmem h0) p k = replicate k 0"
    using new_array_mem(4) [OF 0] by simp
  with 0 assms show thesis
    by (intro that [OF 0]) (auto simp: data_vector_def new_vector_def test_data_def split: option.splits)
qed

lemma data_vector_mem:
  assumes "data_vector new fill k h = (p, h1)" "k < 2 ^ 64"
  shows "blocks h1 = (p, k) # blocks h" "mem_range (hmem h1) p k = test_data fill k"
proof -
  obtain h0 where 0: "new_array new (replicate k 0) h = (p, h0)" "blocks h1 = blocks h0"
    "hmem h1 = (if fill = None then hmem h0 else mem_write (hmem h0) p (test_data fill k))"
    using data_vector_array [OF assms(1)] .
  note mem = new_array_mem [OF 0(1)]
  show "blocks h1 = (p, k) # blocks h" using mem(2) 0(2) by simp
  show "mem_range (hmem h1) p k = test_data fill k"
    using mem(4) 0(3) mem_range_mem_write_length [OF length_test_data [OF assms(2)]]
    by (simp add: test_data_def)
qed

lemma data_vector_fresh:
  assumes "allocates new" "data_vector new fill k h = (p, h1)" "k < 2 ^ 64"
  shows "p \<noteq> nullptr"
    and "(q, j) \<in> set (blocks h) \<Longrightarrow> disjoint_ranges p k q j \<and> disjoint_ranges q j p k"
    and "(q, j) \<in> set (blocks h) \<Longrightarrow> mem_range (hmem h1) q j = mem_range (hmem h) q j"
proof -
  obtain h0 where 0: "new_array new (replicate k 0) h = (p, h0)"
    "hmem h1 = (if fill = None then hmem h0 else mem_write (hmem h0) p (test_data fill k))"
    using data_vector_array [OF assms(2)] .
  note fresh = new_array_fresh [OF assms(1) 0(1)]
  show "p \<noteq> nullptr" by (rule fresh)
  show d: "disjoint_ranges p k q j \<and> disjoint_ranges q j p k" if "(q, j) \<in> set (blocks h)" for q j
    using fresh(2) [OF that] by simp
  show "mem_range (hmem h1) q j = mem_range (hmem h) q j" if "(q, j) \<in> set (blocks h)"
    using d [OF that] fresh(3) [OF that] 0(2) assms(3)
      mem_range_write_outside [of q j p "test_data fill k" "hmem h0"]
    by (auto simp: disjoint_ranges_def)
qed

end
