(* ===== verification/Slip_Bench_Buffer.thy ===== *)
theory Slip_Bench_Buffer
  imports Slip_Bench Slip_Buffer
begin

text \<open>
  The benchmarks of the buffer API, \<open>src/bench/bench_buffer.cpp\<close>. Functions that differ in
  their sizes and test data only are instances of one definition; the result of an
  iteration is the list of the lengths returned by the calls in it.
\<close>

section \<open>Definitions\<close>

type_synonym buffer_bench = "allocator \<Rightarrow> nat \<Rightarrow> heap \<Rightarrow> (size_t list, heap) bench"

text \<open>The bodies of the measured loops.\<close>

definition encoded_length_body :: "addr \<Rightarrow> nat \<Rightarrow> heap \<Rightarrow> size_t list \<times> heap" where
  "encoded_length_body data k h = ([encoded_length (hmem h) data (of_nat k)], h)"

definition encode_body :: "addr \<Rightarrow> nat \<Rightarrow> addr \<Rightarrow> nat \<Rightarrow> heap \<Rightarrow> size_t list \<times> heap" where
  "encode_body data k out j h =
     (case encode_packet (hmem h) data (of_nat k) out (of_nat j) of (m, len) \<Rightarrow> ([len], h\<lparr>hmem := m\<rparr>))"

definition decode_body :: "addr \<Rightarrow> size_t \<Rightarrow> addr \<Rightarrow> nat \<Rightarrow> heap \<Rightarrow> size_t list \<times> heap" where
  "decode_body encoded encoded_len out k h =
     (case decode_packet (hmem h) encoded encoded_len out (of_nat k) of (m, len) \<Rightarrow> ([len], h\<lparr>hmem := m\<rparr>))"

definition roundtrip_body :: "addr \<Rightarrow> nat \<Rightarrow> addr \<Rightarrow> nat \<Rightarrow> addr \<Rightarrow> heap \<Rightarrow> size_t list \<times> heap" where
  "roundtrip_body data k encoded j decoded h =
     (case encode_packet (hmem h) data (of_nat k) encoded (of_nat j) of (m1, enc_len) \<Rightarrow>
        case decode_packet m1 encoded enc_len decoded (of_nat k) of (m2, dec_len) \<Rightarrow>
          ([enc_len, dec_len], h\<lparr>hmem := m2\<rparr>))"

text \<open>
  The benchmark functions: the sizes of the data and of the output vector and the fill
  loop, if there is one, are arguments.
\<close>

definition bench_encoded_length :: "nat \<Rightarrow> buffer_bench" where
  "bench_encoded_length k new n h =
     (case new_vector new k h of (data, h1) \<Rightarrow>
        measure_loop n (of_nat k) (encoded_length_body data k) h1)"

definition bench_encode :: "(size_t \<Rightarrow> byte) option \<Rightarrow> nat \<Rightarrow> nat \<Rightarrow> buffer_bench" where
  "bench_encode fill k j new n h =
     (case data_vector new fill k h of (data, h1) \<Rightarrow>
        case new_vector new j h1 of (out, h2) \<Rightarrow>
          measure_loop n (of_nat k) (encode_body data k out j) h2)"

definition bench_decode :: "(size_t \<Rightarrow> byte) option \<Rightarrow> nat \<Rightarrow> nat \<Rightarrow> buffer_bench" where
  "bench_decode fill k j new n h =
     (case data_vector new fill k h of (data, h1) \<Rightarrow>
        case new_vector new j h1 of (encoded, h2) \<Rightarrow>
          case encode_packet (hmem h2) data (of_nat k) encoded (of_nat j) of (m, encoded_len) \<Rightarrow>
            case new_vector new k (h2\<lparr>hmem := m\<rparr>) of (out, h3) \<Rightarrow>
              measure_loop n (of_nat k) (decode_body encoded encoded_len out k) h3)"

definition bench_roundtrip :: "(size_t \<Rightarrow> byte) option \<Rightarrow> nat \<Rightarrow> nat \<Rightarrow> buffer_bench" where
  "bench_roundtrip fill k j new n h =
     (case data_vector new fill k h of (data, h1) \<Rightarrow>
        case new_vector new j h1 of (encoded, h2) \<Rightarrow>
          case new_vector new k h2 of (decoded, h3) \<Rightarrow>
            measure_loop n (of_nat k) (roundtrip_body data k encoded j decoded) h3)"

definition BM_Buffer_EncodedLength_Small :: buffer_bench where
  "BM_Buffer_EncodedLength_Small = bench_encoded_length 16"

definition BM_Buffer_EncodedLength_Medium :: buffer_bench where
  "BM_Buffer_EncodedLength_Medium = bench_encoded_length 256"

definition BM_Buffer_EncodedLength_Large :: buffer_bench where
  "BM_Buffer_EncodedLength_Large = bench_encoded_length 1024"

definition BM_Buffer_Encode_Small :: buffer_bench where
  "BM_Buffer_Encode_Small = bench_encode None 16 32"

definition BM_Buffer_Encode_Medium :: buffer_bench where
  "BM_Buffer_Encode_Medium = bench_encode None 256 512"

definition BM_Buffer_Encode_Large :: buffer_bench where
  "BM_Buffer_Encode_Large = bench_encode None 1024 2048"

definition BM_Buffer_Decode_Small :: buffer_bench where
  "BM_Buffer_Decode_Small = bench_decode None 16 32"

definition BM_Buffer_Decode_Medium :: buffer_bench where
  "BM_Buffer_Decode_Medium = bench_decode None 256 512"

definition BM_Buffer_Decode_Large :: buffer_bench where
  "BM_Buffer_Decode_Large = bench_decode None 1024 2048"

definition BM_Buffer_Roundtrip_Small :: buffer_bench where
  "BM_Buffer_Roundtrip_Small = bench_roundtrip None 16 32"

definition BM_Buffer_Roundtrip_Medium :: buffer_bench where
  "BM_Buffer_Roundtrip_Medium = bench_roundtrip None 256 512"

definition BM_Buffer_Roundtrip_Large :: buffer_bench where
  "BM_Buffer_Roundtrip_Large = bench_roundtrip None 1024 2048"

definition BM_Buffer_Encode_WithSpecialBytes :: buffer_bench where
  "BM_Buffer_Encode_WithSpecialBytes = bench_encode (Some special_byte) 256 1024"

definition BM_Buffer_Decode_WithSpecialBytes :: buffer_bench where
  "BM_Buffer_Decode_WithSpecialBytes = bench_decode (Some special_byte) 256 1024"

definition BM_Buffer_Encode_ASCII_Small :: buffer_bench where
  "BM_Buffer_Encode_ASCII_Small = bench_encode (Some ascii_byte) 16 32"

definition BM_Buffer_Encode_ASCII_Medium :: buffer_bench where
  "BM_Buffer_Encode_ASCII_Medium = bench_encode (Some ascii_byte) 256 512"

definition BM_Buffer_Encode_ASCII_Large :: buffer_bench where
  "BM_Buffer_Encode_ASCII_Large = bench_encode (Some ascii_byte) 1024 2048"

definition BM_Buffer_Decode_ASCII_Small :: buffer_bench where
  "BM_Buffer_Decode_ASCII_Small = bench_decode (Some ascii_byte) 16 32"

definition BM_Buffer_Decode_ASCII_Medium :: buffer_bench where
  "BM_Buffer_Decode_ASCII_Medium = bench_decode (Some ascii_byte) 256 512"

definition BM_Buffer_Decode_ASCII_Large :: buffer_bench where
  "BM_Buffer_Decode_ASCII_Large = bench_decode (Some ascii_byte) 1024 2048"

definition BM_Buffer_Roundtrip_ASCII_Small :: buffer_bench where
  "BM_Buffer_Roundtrip_ASCII_Small = bench_roundtrip (Some ascii_byte) 16 32"

definition BM_Buffer_Roundtrip_ASCII_Medium :: buffer_bench where
  "BM_Buffer_Roundtrip_ASCII_Medium = bench_roundtrip (Some ascii_byte) 256 512"

definition BM_Buffer_Roundtrip_ASCII_Large :: buffer_bench where
  "BM_Buffer_Roundtrip_ASCII_Large = bench_roundtrip (Some ascii_byte) 1024 2048"

lemmas buffer_bench_defs =
  BM_Buffer_EncodedLength_Small_def BM_Buffer_EncodedLength_Medium_def BM_Buffer_EncodedLength_Large_def
  BM_Buffer_Encode_Small_def BM_Buffer_Encode_Medium_def BM_Buffer_Encode_Large_def
  BM_Buffer_Decode_Small_def BM_Buffer_Decode_Medium_def BM_Buffer_Decode_Large_def
  BM_Buffer_Roundtrip_Small_def BM_Buffer_Roundtrip_Medium_def BM_Buffer_Roundtrip_Large_def
  BM_Buffer_Encode_WithSpecialBytes_def BM_Buffer_Decode_WithSpecialBytes_def
  BM_Buffer_Encode_ASCII_Small_def BM_Buffer_Encode_ASCII_Medium_def BM_Buffer_Encode_ASCII_Large_def
  BM_Buffer_Decode_ASCII_Small_def BM_Buffer_Decode_ASCII_Medium_def BM_Buffer_Decode_ASCII_Large_def
  BM_Buffer_Roundtrip_ASCII_Small_def BM_Buffer_Roundtrip_ASCII_Medium_def
  BM_Buffer_Roundtrip_ASCII_Large_def

section \<open>The loop bodies\<close>

text \<open>
  The state in front of every iteration: the blocks are those of the setup, the vectors
  are disjoint and the input vector holds its bytes.
\<close>

definition encode_ready :: "(addr \<times> nat) list \<Rightarrow> addr \<Rightarrow> nat \<Rightarrow> addr \<Rightarrow> nat \<Rightarrow> byte list \<Rightarrow> heap \<Rightarrow> bool" where
  "encode_ready bs data k out j xs h \<longleftrightarrow> blocks h = bs \<and> disjoint_ranges data k out j \<and>
     k < 2 ^ 64 \<and> j < 2 ^ 64 \<and> length (slip_encode xs) \<le> j \<and> mem_range (hmem h) data k = xs"

definition decode_ready :: "(addr \<times> nat) list \<Rightarrow> addr \<Rightarrow> size_t \<Rightarrow> addr \<Rightarrow> nat \<Rightarrow> byte list \<Rightarrow> heap \<Rightarrow> bool" where
  "decode_ready bs encoded len out k xs h \<longleftrightarrow> blocks h = bs \<and> disjoint_ranges encoded (unat len) out k \<and>
     k < 2 ^ 64 \<and> k = length xs \<and> mem_range (hmem h) encoded (unat len) = slip_encode xs"

lemma encode_packet_ready:
  assumes "encode_ready bs data k out j xs h"
  shows "encode_packet (hmem h) data (of_nat k) out (of_nat j) =
    (mem_write (hmem h) out (slip_encode xs), of_nat (length (slip_encode xs)))"
  using assms encode_packet_fits [of data "of_nat k" out "of_nat j" "hmem h"]
  by (simp add: encode_ready_def encoded_length_eq unat_of_nat_size)

lemma decode_packet_ready:
  assumes "decode_ready bs encoded len out k xs h"
  shows "decode_packet (hmem h) encoded len out (of_nat k) = (mem_write (hmem h) out xs, of_nat k)"
proof -
  have "decode_alias_ok encoded len out"
    using assms by (auto simp: decode_ready_def decode_alias_ok_def disjoint_ranges_def)
  moreover have "slip_decode (mem_range (hmem h) encoded (unat len)) = Inr xs"
    using assms slip_decode_body [of xs "[]"] by (simp add: decode_ready_def slip_encode_def)
  ultimately show ?thesis
    using assms decode_packet_ok [of encoded len out "hmem h" xs "of_nat k"]
    by (simp add: decode_ready_def unat_of_nat_size)
qed

text \<open>An encoded vector, cut to the length that the encoding returned, is ready to be decoded.\<close>

lemma decode_ready_frame:
  assumes "mem_range (hmem h) encoded (length (slip_encode xs)) = slip_encode xs"
    and "length (slip_encode xs) \<le> j" "j < 2 ^ 64" "disjoint_ranges encoded j out k" "length xs = k"
  shows "decode_ready (blocks h) encoded (of_nat (length (slip_encode xs))) out k xs h"
proof -
  have "unat (of_nat (length (slip_encode xs)) :: size_t) = length (slip_encode xs)"
    using assms(2,3) by (intro unat_of_nat_size) simp
  moreover have "k < 2 ^ 64"
    using assms(2,3,5) length_slip_body_ge [of xs] by simp
  ultimately show ?thesis
    using assms by (auto simp: decode_ready_def disjoint_ranges_def)
qed

lemma encode_ready_write:
  assumes "encode_ready bs data k out j xs h"
  shows "encode_ready bs data k out j xs (h\<lparr>hmem := mem_write (hmem h) out (slip_encode xs)\<rparr>)"
  using assms mem_range_write_outside [of data k out "slip_encode xs" "hmem h"]
  by (auto simp: encode_ready_def disjoint_ranges_def)

lemma decode_ready_write:
  assumes "decode_ready bs encoded len out k xs h"
  shows "decode_ready bs encoded len out k xs (h\<lparr>hmem := mem_write (hmem h) out xs\<rparr>)"
  using assms mem_range_write_outside [of encoded "unat len" out xs "hmem h"]
  by (auto simp: decode_ready_def disjoint_ranges_def)

interpretation len_loop: steady "\<lambda>h. blocks h = bs \<and> k < 2 ^ 64 \<and> mem_range (hmem h) data k = xs" "\<lambda>h. True"
  "encoded_length_body data k" "[of_nat (length (slip_encode xs))]" for bs data k xs
  by unfold_locales (auto simp: encoded_length_body_def encoded_length_eq unat_of_nat_size)

interpretation enc_loop: steady "encode_ready bs data k out j xs"
  "\<lambda>h. mem_range (hmem h) out (length (slip_encode xs)) = slip_encode xs"
  "encode_body data k out j" "[of_nat (length (slip_encode xs))]" for bs data k out j xs
  by unfold_locales (simp_all add: encode_body_def encode_packet_ready encode_ready_write del: length_slip_encode)

interpretation dec_loop: steady "decode_ready bs encoded len out k xs"
  "\<lambda>h. mem_range (hmem h) out k = xs" "decode_body encoded len out k" "[of_nat k]"
  for bs encoded len out k xs
  by unfold_locales (auto simp: decode_body_def decode_packet_ready decode_ready_write, simp add: decode_ready_def)

text \<open>The body of a round trip is an encoding followed by a decoding.\<close>

definition roundtrip_ready ::
    "(addr \<times> nat) list \<Rightarrow> addr \<Rightarrow> nat \<Rightarrow> addr \<Rightarrow> nat \<Rightarrow> addr \<Rightarrow> byte list \<Rightarrow> heap \<Rightarrow> bool" where
  "roundtrip_ready bs data k encoded j decoded xs h \<longleftrightarrow> encode_ready bs data k encoded j xs h \<and>
     disjoint_ranges data k decoded k \<and> disjoint_ranges encoded j decoded k"

lemma roundtrip_body_ready:
  assumes "roundtrip_ready bs data k encoded j decoded xs h"
  shows "roundtrip_body data k encoded j decoded h =
    ([of_nat (length (slip_encode xs)), of_nat k],
     h\<lparr>hmem := mem_write (mem_write (hmem h) encoded (slip_encode xs)) decoded xs\<rparr>)"
proof -
  let ?h = "h\<lparr>hmem := mem_write (hmem h) encoded (slip_encode xs)\<rparr>"
  have e: "encode_ready bs data k encoded j xs h"
    using assms by (simp add: roundtrip_ready_def)
  have "decode_ready (blocks ?h) encoded (of_nat (length (slip_encode xs))) decoded k xs ?h"
    using assms by (intro decode_ready_frame [where j = j]) (auto simp: roundtrip_ready_def encode_ready_def
      mem_range_mem_write_length)
  from decode_packet_ready [OF this] encode_packet_ready [OF e] show ?thesis
    by (simp add: roundtrip_body_def)
qed

lemma roundtrip_ready_write:
  assumes "roundtrip_ready bs data k encoded j decoded xs h"
  shows "roundtrip_ready bs data k encoded j decoded xs
    (h\<lparr>hmem := mem_write (mem_write (hmem h) encoded (slip_encode xs)) decoded xs\<rparr>)"
  using assms encode_ready_write [of bs data k encoded j xs h]
    mem_range_write_outside [of data k decoded xs "mem_write (hmem h) encoded (slip_encode xs)"]
  by (auto simp: roundtrip_ready_def encode_ready_def disjoint_ranges_def)

interpretation trip_loop: steady "roundtrip_ready bs data k encoded j decoded xs"
  "\<lambda>h. mem_range (hmem h) decoded k = xs" "roundtrip_body data k encoded j decoded"
  "[of_nat (length (slip_encode xs)), of_nat k]" for bs data k encoded j decoded xs
  by unfold_locales
    (simp_all add: roundtrip_body_ready roundtrip_ready_write,
     auto simp: roundtrip_ready_def encode_ready_def mem_range_mem_write_length)

section \<open>Whole benchmarks\<close>

lemma bench_encoded_length_results:
  assumes "k < 2 ^ 64"
  shows "results (bench_encoded_length k new n h) = replicate n [of_nat (length (slip_encode (test_data None k)))]"
proof -
  obtain data h1 where 1: "data_vector new None k h = (data, h1)" by fastforce
  with data_vector_mem(2) [OF 1 assms] assms show ?thesis
    by (simp add: bench_encoded_length_def new_vector_data_vector len_loop.measure_loop_steady(1) [where bs = "blocks h1"])
qed

lemma bench_encode_results:
  assumes "allocates new" "k < 2 ^ 64" "j < 2 ^ 64" "length (slip_encode (test_data fill k)) \<le> j"
  shows "results (bench_encode fill k j new n h) = replicate n [of_nat (length (slip_encode (test_data fill k)))]"
    and "0 < n \<Longrightarrow> \<exists>rest. vector_contents (final (bench_encode fill k j new n h)) 0 = slip_encode (test_data fill k) @ rest"
proof -
  let ?xs = "test_data fill k"
  obtain data h1 where 1: "data_vector new fill k h = (data, h1)" by fastforce
  obtain out h2 where 2: "data_vector new None j h1 = (out, h2)" by fastforce
  note d = data_vector_mem [OF 1 assms(2)]
  note o = data_vector_fresh(2,3) [OF assms(1) 2 assms(3), of data k] data_vector_mem(1) [OF 2 assms(3)]
  have b: "bench_encode fill k j new n h = measure_loop n (of_nat k) (encode_body data k out j) h2"
    using 1 2 by (simp add: bench_encode_def new_vector_data_vector)
  have "encode_ready (blocks h2) data k out j ?xs h2"
    using assms(2-4) d o by (simp add: encode_ready_def)
  note loop = enc_loop.measure_loop_steady [OF this, of n "of_nat k", folded b]
  show "results (bench_encode fill k j new n h) = replicate n [of_nat (length (slip_encode ?xs))]"
    by (rule loop(1))
  show "\<exists>rest. vector_contents (final (bench_encode fill k j new n h)) 0 = slip_encode ?xs @ rest" if "0 < n"
  proof -
    let ?h = "final (bench_encode fill k j new n h)"
    have "vector_contents ?h 0 = mem_range (hmem ?h) out j"
      using loop(3) o(3) by (simp add: vector_contents_def encode_ready_def)
    moreover have "take (length (slip_encode ?xs)) (mem_range (hmem ?h) out j) = slip_encode ?xs"
      using loop(4) [OF that] assms(4) by (simp only: take_mem_range)
    ultimately show ?thesis
      by (metis append_take_drop_id)
  qed
qed

lemma bench_decode_results:
  assumes "allocates new" "k < 2 ^ 64" "j < 2 ^ 64" "length (slip_encode (test_data fill k)) \<le> j"
  shows "results (bench_decode fill k j new n h) = replicate n [of_nat k]"
    and "0 < n \<Longrightarrow> vector_contents (final (bench_decode fill k j new n h)) 0 = test_data fill k"
proof -
  let ?xs = "test_data fill k"
  let ?len = "of_nat (length (slip_encode ?xs)) :: size_t"
  obtain data h1 where 1: "data_vector new fill k h = (data, h1)" by fastforce
  obtain encoded h2 where 2: "data_vector new None j h1 = (encoded, h2)" by fastforce
  let ?h = "h2\<lparr>hmem := mem_write (hmem h2) encoded (slip_encode ?xs)\<rparr>"
  obtain out h3 where 3: "data_vector new None k ?h = (out, h3)" by fastforce
  note d = data_vector_mem [OF 1 assms(2)]
  note e = data_vector_fresh(2,3) [OF assms(1) 2 assms(3), of data k] data_vector_mem(1) [OF 2 assms(3)]
  note o = data_vector_fresh(2,3) [OF assms(1) 3 assms(2), of encoded j] data_vector_mem(1) [OF 3 assms(2)]
  have r: "encode_ready (blocks h2) data k encoded j ?xs h2"
    using assms(2-4) d e by (simp add: encode_ready_def)
  have b: "bench_decode fill k j new n h = measure_loop n (of_nat k) (decode_body encoded ?len out k) h3"
    using 1 2 3 encode_packet_ready [OF r] by (simp add: bench_decode_def new_vector_data_vector)
  have "take (length (slip_encode ?xs)) (mem_range (hmem h3) encoded j) =
      take (length (slip_encode ?xs)) (mem_range (hmem ?h) encoded j)"
    using o(2) e(3) by simp
  then have "mem_range (hmem h3) encoded (length (slip_encode ?xs)) = slip_encode ?xs"
    using assms(4) by (simp add: take_mem_range mem_range_mem_write_length)
  then have "decode_ready (blocks h3) encoded ?len out k ?xs h3"
    using assms(2-4) o(1) e(3) by (intro decode_ready_frame [where j = j]) simp_all
  note loop = dec_loop.measure_loop_steady [OF this, of n "of_nat k", folded b]
  show "results (bench_decode fill k j new n h) = replicate n [of_nat k]"
    by (rule loop(1))
  show "vector_contents (final (bench_decode fill k j new n h)) 0 = ?xs" if "0 < n"
    using loop(3) loop(4) [OF that] o(3) by (auto simp: vector_contents_def decode_ready_def)
qed

lemma bench_roundtrip_results:
  assumes "allocates new" "k < 2 ^ 64" "j < 2 ^ 64" "length (slip_encode (test_data fill k)) \<le> j"
  shows "results (bench_roundtrip fill k j new n h) =
      replicate n [of_nat (length (slip_encode (test_data fill k))), of_nat k]"
    and "0 < n \<Longrightarrow> vector_contents (final (bench_roundtrip fill k j new n h)) 0 = test_data fill k"
proof -
  let ?xs = "test_data fill k"
  obtain data h1 where 1: "data_vector new fill k h = (data, h1)" by fastforce
  obtain encoded h2 where 2: "data_vector new None j h1 = (encoded, h2)" by fastforce
  obtain decoded h3 where 3: "data_vector new None k h2 = (decoded, h3)" by fastforce
  note d = data_vector_mem [OF 1 assms(2)]
  note e = data_vector_fresh(2,3) [OF assms(1) 2 assms(3), of data k] data_vector_mem(1) [OF 2 assms(3)]
  note o = data_vector_fresh(2,3) [OF assms(1) 3 assms(2), of encoded j]
    data_vector_fresh(2,3) [OF assms(1) 3 assms(2), of data k] data_vector_mem(1) [OF 3 assms(2)]
  have b: "bench_roundtrip fill k j new n h =
      measure_loop n (of_nat k) (roundtrip_body data k encoded j decoded) h3"
    using 1 2 3 by (simp add: bench_roundtrip_def new_vector_data_vector)
  have "roundtrip_ready (blocks h3) data k encoded j decoded ?xs h3"
    using assms(2-4) d e o by (simp add: roundtrip_ready_def encode_ready_def)
  note loop = trip_loop.measure_loop_steady [OF this, of n "of_nat k", folded b]
  show "results (bench_roundtrip fill k j new n h) = replicate n [of_nat (length (slip_encode ?xs)), of_nat k]"
    by (rule loop(1))
  show "vector_contents (final (bench_roundtrip fill k j new n h)) 0 = ?xs" if "0 < n"
    using loop(3) loop(4) [OF that] o(5) by (auto simp: vector_contents_def roundtrip_ready_def encode_ready_def)
qed

section \<open>Properties\<close>

text \<open>
  C37: No call in a benchmark of the buffer API fails, with any allocator and for any number of
  iterations: every iteration returns the same lengths, which are those listed here for
  each benchmark (16, 256 or 1024 bytes without special bytes gain one END; 256 special bytes
  double), so the output vectors are large enough. After at least one iteration
  the output vector of an encoding starts with the frame of the test data and the output vector
  of a decoding or round trip holds the test data.
\<close>
theorem bench_buffer_correct:
  assumes "allocates new"
  shows "(\<forall>(bm, r) \<in> set
      [(BM_Buffer_EncodedLength_Small, [17]), (BM_Buffer_EncodedLength_Medium, [257]), (BM_Buffer_EncodedLength_Large, [1025]),
       (BM_Buffer_Encode_Small, [17]), (BM_Buffer_Encode_Medium, [257]), (BM_Buffer_Encode_Large, [1025]),
       (BM_Buffer_Encode_WithSpecialBytes, [513]),
       (BM_Buffer_Encode_ASCII_Small, [17]), (BM_Buffer_Encode_ASCII_Medium, [257]), (BM_Buffer_Encode_ASCII_Large, [1025]),
       (BM_Buffer_Decode_Small, [16]), (BM_Buffer_Decode_Medium, [256]), (BM_Buffer_Decode_Large, [1024]),
       (BM_Buffer_Decode_WithSpecialBytes, [256]),
       (BM_Buffer_Decode_ASCII_Small, [16]), (BM_Buffer_Decode_ASCII_Medium, [256]), (BM_Buffer_Decode_ASCII_Large, [1024]),
       (BM_Buffer_Roundtrip_Small, [17, 16]), (BM_Buffer_Roundtrip_Medium, [257, 256]), (BM_Buffer_Roundtrip_Large, [1025, 1024]),
       (BM_Buffer_Roundtrip_ASCII_Small, [17, 16]), (BM_Buffer_Roundtrip_ASCII_Medium, [257, 256]),
       (BM_Buffer_Roundtrip_ASCII_Large, [1025, 1024])].
      results (bm new n h) = replicate n r) \<and>
    (\<forall>(bm, fill, k) \<in> set
      [(BM_Buffer_Encode_Small, None, 16), (BM_Buffer_Encode_Medium, None, 256), (BM_Buffer_Encode_Large, None, 1024),
       (BM_Buffer_Encode_WithSpecialBytes, Some special_byte, 256), (BM_Buffer_Encode_ASCII_Small, Some ascii_byte, 16),
       (BM_Buffer_Encode_ASCII_Medium, Some ascii_byte, 256), (BM_Buffer_Encode_ASCII_Large, Some ascii_byte, 1024)].
      0 < n \<longrightarrow> (\<exists>rest. vector_contents (final (bm new n h)) 0 = slip_encode (test_data fill k) @ rest)) \<and>
    (\<forall>(bm, fill, k) \<in> set
      [(BM_Buffer_Decode_Small, None, 16), (BM_Buffer_Decode_Medium, None, 256), (BM_Buffer_Decode_Large, None, 1024),
       (BM_Buffer_Decode_WithSpecialBytes, Some special_byte, 256), (BM_Buffer_Decode_ASCII_Small, Some ascii_byte, 16),
       (BM_Buffer_Decode_ASCII_Medium, Some ascii_byte, 256), (BM_Buffer_Decode_ASCII_Large, Some ascii_byte, 1024),
       (BM_Buffer_Roundtrip_Small, None, 16), (BM_Buffer_Roundtrip_Medium, None, 256), (BM_Buffer_Roundtrip_Large, None, 1024),
       (BM_Buffer_Roundtrip_ASCII_Small, Some ascii_byte, 16), (BM_Buffer_Roundtrip_ASCII_Medium, Some ascii_byte, 256),
       (BM_Buffer_Roundtrip_ASCII_Large, Some ascii_byte, 1024)].
      0 < n \<longrightarrow> vector_contents (final (bm new n h)) 0 = test_data fill k)"
  by (simp add: buffer_bench_defs bench_encoded_length_results bench_encode_results [OF assms]
    bench_decode_results [OF assms] bench_roundtrip_results [OF assms] length_encode_test_data
    del: length_slip_encode)

theorem bench_buffer_correct_witness:
  "results (BM_Buffer_Roundtrip_ASCII_Small bump 3 empty_heap) = [[17, 16], [17, 16], [17, 16]] \<and>
   vector_contents (final (BM_Buffer_Roundtrip_ASCII_Small bump 3 empty_heap)) 0 = test_data (Some ascii_byte) 16"
  using bench_buffer_correct [OF bump_allocates, of 3 empty_heap]
  by (simp add: numeral_3_eq_3)

end
