(* ===== verification/Slip_Bench_CRC32.thy ===== *)
theory Slip_Bench_CRC32
  imports Slip_Bench Slip_CRC32
begin

text \<open>
  The benchmarks of the checksum functions, \<open>src/bench/bench_crc32.cpp\<close>. The result of an
  iteration is the list of what the calls in it return; for an extraction with the
  variable behind the out-parameter.
\<close>

section \<open>Definitions\<close>

datatype crc_call =
    Calculated uint32
  | Appended size_t
  | Verified bool
  | Extracted size_t "uint32 option"

type_synonym crc_bench = "allocator \<Rightarrow> nat \<Rightarrow> heap \<Rightarrow> (crc_call list, heap) bench"

definition calculate_body :: "addr \<Rightarrow> nat \<Rightarrow> heap \<Rightarrow> crc_call list \<times> heap" where
  "calculate_body data k h = ([Calculated (calculate_crc32 (hmem h) data (of_nat k))], h)"

definition append_body :: "addr \<Rightarrow> addr \<Rightarrow> nat \<Rightarrow> heap \<Rightarrow> crc_call list \<times> heap" where
  "append_body data payload k h =
     (case append_crc32 (memcpy (hmem h) data payload k) data (of_nat k) of (m, len) \<Rightarrow>
        ([Appended len], h\<lparr>hmem := m\<rparr>))"

definition verify_body :: "addr \<Rightarrow> nat \<Rightarrow> heap \<Rightarrow> crc_call list \<times> heap" where
  "verify_body data k h = ([Verified (verify_crc32 (hmem h) data (of_nat k + 4))], h)"

definition extract_body :: "addr \<Rightarrow> nat \<Rightarrow> heap \<times> uint32 option \<Rightarrow> crc_call list \<times> heap \<times> uint32 option" where
  "extract_body data k s =
     (case extract_crc32 (hmem (fst s)) data (of_nat k + 4) (snd s) of (len, crc) \<Rightarrow>
        ([Extracted len crc], fst s, crc))"

definition crc_roundtrip_body :: "addr \<Rightarrow> addr \<Rightarrow> nat \<Rightarrow> heap \<Rightarrow> crc_call list \<times> heap" where
  "crc_roundtrip_body data payload k h =
     (case append_crc32 (memcpy (hmem h) data payload k) data (of_nat k) of (m, new_len) \<Rightarrow>
        ([Appended new_len, Verified (verify_crc32 m data new_len)], h\<lparr>hmem := m\<rparr>))"

text \<open>The benchmark functions, for a payload of \<open>k\<close> bytes in a vector of \<open>j\<close> bytes.\<close>

definition bench_calculate :: "nat \<Rightarrow> crc_bench" where
  "bench_calculate k new n h =
     (case new_vector new k h of (data, h1) \<Rightarrow> measure_loop n (of_nat k) (calculate_body data k) h1)"

definition bench_append :: "nat \<Rightarrow> nat \<Rightarrow> crc_bench" where
  "bench_append j k new n h =
     (case new_vector new j h of (data, h1) \<Rightarrow>
        case new_vector new k h1 of (payload, h2) \<Rightarrow>
          measure_loop n (of_nat k) (append_body data payload k) h2)"

text \<open>The preparation of the verification and extraction benchmarks: one append.\<close>

definition bench_verify :: "nat \<Rightarrow> nat \<Rightarrow> crc_bench" where
  "bench_verify j k new n h =
     (case new_vector new j h of (data, h1) \<Rightarrow>
        case new_vector new k h1 of (payload, h2) \<Rightarrow>
          case append_body data payload k h2 of (_, h3) \<Rightarrow>
            measure_loop n (of_nat k) (verify_body data k) h3)"

text \<open>
  The variable \<open>crc\<close> is declared without an initial value; the first extraction overwrites
  it, so the 0 of the model is never read.
\<close>

definition bench_extract :: "nat \<Rightarrow> nat \<Rightarrow> crc_bench" where
  "bench_extract j k new n h =
     (case new_vector new j h of (data, h1) \<Rightarrow>
        case new_vector new k h1 of (payload, h2) \<Rightarrow>
          case append_body data payload k h2 of (_, h3) \<Rightarrow>
            with_final fst (measure_loop n (of_nat k) (extract_body data k) (h3, Some 0)))"

definition bench_crc_roundtrip :: "nat \<Rightarrow> nat \<Rightarrow> crc_bench" where
  "bench_crc_roundtrip j k new n h =
     (case new_vector new j h of (data, h1) \<Rightarrow>
        case new_vector new k h1 of (payload, h2) \<Rightarrow>
          measure_loop n (of_nat k) (crc_roundtrip_body data payload k) h2)"

definition BM_CRC32_Calculate_Small :: crc_bench where
  "BM_CRC32_Calculate_Small = bench_calculate 16"

definition BM_CRC32_Calculate_Medium :: crc_bench where
  "BM_CRC32_Calculate_Medium = bench_calculate 256"

definition BM_CRC32_Calculate_Large :: crc_bench where
  "BM_CRC32_Calculate_Large = bench_calculate 1024"

definition BM_CRC32_Calculate_VeryLarge :: crc_bench where
  "BM_CRC32_Calculate_VeryLarge = bench_calculate 8192"

definition BM_CRC32_Append_Small :: crc_bench where
  "BM_CRC32_Append_Small = bench_append 32 16"

definition BM_CRC32_Append_Medium :: crc_bench where
  "BM_CRC32_Append_Medium = bench_append 512 256"

definition BM_CRC32_Append_Large :: crc_bench where
  "BM_CRC32_Append_Large = bench_append 2048 1024"

definition BM_CRC32_Verify_Small :: crc_bench where
  "BM_CRC32_Verify_Small = bench_verify 32 16"

definition BM_CRC32_Verify_Medium :: crc_bench where
  "BM_CRC32_Verify_Medium = bench_verify 512 256"

definition BM_CRC32_Verify_Large :: crc_bench where
  "BM_CRC32_Verify_Large = bench_verify 2048 1024"

definition BM_CRC32_Extract_Small :: crc_bench where
  "BM_CRC32_Extract_Small = bench_extract 32 16"

definition BM_CRC32_Extract_Medium :: crc_bench where
  "BM_CRC32_Extract_Medium = bench_extract 512 256"

definition BM_CRC32_Extract_Large :: crc_bench where
  "BM_CRC32_Extract_Large = bench_extract 2048 1024"

definition BM_CRC32_Roundtrip_Small :: crc_bench where
  "BM_CRC32_Roundtrip_Small = bench_crc_roundtrip 32 16"

definition BM_CRC32_Roundtrip_Medium :: crc_bench where
  "BM_CRC32_Roundtrip_Medium = bench_crc_roundtrip 512 256"

definition BM_CRC32_Roundtrip_Large :: crc_bench where
  "BM_CRC32_Roundtrip_Large = bench_crc_roundtrip 2048 1024"

lemmas crc_bench_defs =
  BM_CRC32_Calculate_Small_def BM_CRC32_Calculate_Medium_def BM_CRC32_Calculate_Large_def
  BM_CRC32_Calculate_VeryLarge_def
  BM_CRC32_Append_Small_def BM_CRC32_Append_Medium_def BM_CRC32_Append_Large_def
  BM_CRC32_Verify_Small_def BM_CRC32_Verify_Medium_def BM_CRC32_Verify_Large_def
  BM_CRC32_Extract_Small_def BM_CRC32_Extract_Medium_def BM_CRC32_Extract_Large_def
  BM_CRC32_Roundtrip_Small_def BM_CRC32_Roundtrip_Medium_def BM_CRC32_Roundtrip_Large_def

section \<open>The loop bodies\<close>

text \<open>
  In front of an append the two vectors are disjoint, the checksum has room behind the
  payload; behind it the data vector starts with the sealed payload.
\<close>

definition append_ready :: "addr \<Rightarrow> nat \<Rightarrow> addr \<Rightarrow> nat \<Rightarrow> byte list \<Rightarrow> heap \<Rightarrow> bool" where
  "append_ready data j payload k xs h \<longleftrightarrow> data \<noteq> nullptr \<and> disjoint_ranges data j payload k \<and>
     0 < k \<and> k + 4 \<le> j \<and> j < 2 ^ 64 \<and> mem_range (hmem h) payload k = xs"

definition sealed :: "addr \<Rightarrow> nat \<Rightarrow> byte list \<Rightarrow> heap \<Rightarrow> bool" where
  "sealed data k xs h \<longleftrightarrow> data \<noteq> nullptr \<and> 0 < k \<and> k + 4 < 2 ^ 64 \<and> length xs = k \<and>
     mem_range (hmem h) data (k + 4) = xs @ le_bytes (crc_of xs)"

lemma append_copy:
  assumes "append_ready data j payload k xs h"
  shows "append_crc32 (memcpy (hmem h) data payload k) data (of_nat k) =
    (mem_write (hmem h) data (xs @ le_bytes (crc_of xs)), of_nat k + 4)"
proof -
  have xs: "length xs = k" "mem_range (hmem h) payload k = xs"
    using assms by (auto simp: append_ready_def)
  have "unat (of_nat k :: size_t) = k"
    using assms by (intro unat_of_nat_size) (simp add: append_ready_def)
  then show ?thesis
    using append_crc32_eq [of data "of_nat k" "memcpy (hmem h) data payload k"] assms xs
    by (simp add: append_ready_def memcpy_def mem_range_mem_write_length mem_write_append)
qed

lemma append_sealed:
  assumes "append_ready data j payload k xs h"
  defines "h1 \<equiv> h\<lparr>hmem := mem_write (hmem h) data (xs @ le_bytes (crc_of xs))\<rparr>"
  shows "append_ready data j payload k xs h1" "sealed data k xs h1"
proof -
  have xs: "length xs = k" using assms(1) by (auto simp: append_ready_def)
  then show "append_ready data j payload k xs h1"
    using assms(1) mem_range_write_outside [of payload k data "xs @ le_bytes (crc_of xs)" "hmem h"]
    by (auto simp: append_ready_def h1_def disjoint_ranges_def)
  show "sealed data k xs h1"
    using assms(1) xs by (auto simp: append_ready_def sealed_def h1_def mem_range_mem_write_length)
qed

lemma sealed_length:
  assumes "sealed data k xs h"
  shows "unat (of_nat k + 4 :: size_t) = k + 4" "(4 :: size_t) \<le> of_nat k + 4" "(of_nat k + 4 :: size_t) - 4 = of_nat k"
proof -
  show u: "unat (of_nat k + 4 :: size_t) = k + 4"
    using assms unat_of_nat_size [of "k + 4"] by (simp add: sealed_def)
  then show "(4 :: size_t) \<le> of_nat k + 4" by (simp add: word_le_nat_alt)
qed simp

lemma sealed_verify:
  assumes "sealed data k xs h"
  shows "verify_crc32 (hmem h) data (of_nat k + 4)"
  using assms verify_crc32_list [of data "hmem h" "of_nat k + 4" xs "le_bytes (crc_of xs)"]
  by (auto simp: sealed_def sealed_length(1) [OF assms] le32_le_bytes)

lemma sealed_extract:
  assumes "sealed data k xs h"
  shows "extract_crc32 (hmem h) data (of_nat k + 4) (Some c) = (of_nat k, Some (crc_of xs))"
proof -
  have "mem_range (hmem h) (data + k) 4 = le_bytes (crc_of xs)"
    using assms mem_range_add [of "hmem h" data k 4] by (auto simp: sealed_def)
  then show ?thesis
    using assms extract_crc32_eq [of data "of_nat k + 4" "hmem h" c] sealed_length [OF assms]
    by (simp add: sealed_def le32_le_bytes)
qed

interpretation calc_loop: steady "\<lambda>h. k < 2 ^ 64 \<and> mem_range (hmem h) data k = xs" "\<lambda>_. True"
  "calculate_body data k" "[Calculated (crc_of xs)]" for data k xs
  by unfold_locales (auto simp: calculate_body_def calculate_crc32_eq unat_of_nat_size)

interpretation append_loop: steady "append_ready data j payload k xs" "sealed data k xs"
  "append_body data payload k" "[Appended (of_nat k + 4)]" for data j payload k xs
  by unfold_locales (simp_all add: append_body_def append_copy append_sealed)

interpretation verify_loop: steady "sealed data k xs" "\<lambda>_. True" "verify_body data k" "[Verified True]"
  for data k xs
  by unfold_locales (simp_all add: verify_body_def sealed_verify)

interpretation extract_loop: steady "\<lambda>s. sealed data k xs (fst s) \<and> snd s \<noteq> None" "\<lambda>s. snd s = Some (crc_of xs)"
  "extract_body data k" "[Extracted (of_nat k) (Some (crc_of xs))]" for data k xs
  by unfold_locales (auto simp: extract_body_def sealed_extract)

interpretation seal_loop: steady "append_ready data j payload k xs" "sealed data k xs"
  "crc_roundtrip_body data payload k" "[Appended (of_nat k + 4), Verified True]" for data j payload k xs
  using append_sealed(2) sealed_verify
  by unfold_locales (fastforce simp: crc_roundtrip_body_def append_copy append_sealed)+

section \<open>Whole benchmarks\<close>

lemma append_setup:
  assumes "allocates new" "0 < k" "k + 4 \<le> j" "j < 2 ^ 64"
    and "new_vector new j h = (data, h1)" "new_vector new k h1 = (payload, h2)"
  shows "append_ready data j payload k (replicate k 0) h2"
proof -
  have k: "k < 2 ^ 64" using assms(3,4) by simp
  note 1 = assms(5) [unfolded new_vector_data_vector] and 2 = assms(6) [unfolded new_vector_data_vector]
  show ?thesis
    using assms(2-4) data_vector_fresh(1) [OF assms(1) 1 assms(4)] data_vector_mem(1) [OF 1 assms(4)]
      data_vector_fresh(2) [OF assms(1) 2 k, of data j] data_vector_mem(2) [OF 2 k]
    by (simp add: append_ready_def test_data_def)
qed

lemma bench_calculate_results:
  assumes "k < 2 ^ 64"
  shows "results (bench_calculate k new n h) = replicate n [Calculated (crc_of (replicate k 0))]"
proof -
  obtain data h1 where 1: "data_vector new None k h = (data, h1)" by fastforce
  have "k < 2 ^ 64 \<and> mem_range (hmem h1) data k = replicate k 0"
    using data_vector_mem(2) [OF 1 assms] assms by (simp add: test_data_def)
  from calc_loop.measure_loop_steady(1) [OF this] 1 show ?thesis
    by (simp add: bench_calculate_def new_vector_data_vector)
qed

lemma bench_crc_results:
  assumes "allocates new" "0 < k" "k + 4 \<le> j" "j < 2 ^ 64"
  shows "results (bench_append j k new n h) = replicate n [Appended (of_nat k + 4)]"
    and "results (bench_verify j k new n h) = replicate n [Verified True]"
    and "results (bench_extract j k new n h) = replicate n [Extracted (of_nat k) (Some (crc_of (replicate k 0)))]"
    and "results (bench_crc_roundtrip j k new n h) = replicate n [Appended (of_nat k + 4), Verified True]"
proof -
  obtain data h1 where 1: "new_vector new j h = (data, h1)" by fastforce
  obtain payload h2 where 2: "new_vector new k h1 = (payload, h2)" by fastforce
  note ready = append_setup [OF assms 1 2]
  obtain r h3 where 3: "append_body data payload k h2 = (r, h3)" by fastforce
  have sealed: "sealed data k (replicate k 0) h3"
    using append_loop.establishes [OF ready] 3 by simp
  then have "sealed data k (replicate k 0) (fst (h3, Some 0)) \<and> snd (h3, Some (0 :: uint32)) \<noteq> None"
    by simp
  note xtr = extract_loop.measure_loop_steady(1) [OF this]
  show "results (bench_append j k new n h) = replicate n [Appended (of_nat k + 4)]"
    using append_loop.measure_loop_steady(1) [OF ready] 1 2 by (simp add: bench_append_def)
  show "results (bench_verify j k new n h) = replicate n [Verified True]"
    using verify_loop.measure_loop_steady(1) [OF sealed] 1 2 3 by (simp add: bench_verify_def)
  show "results (bench_extract j k new n h) = replicate n [Extracted (of_nat k) (Some (crc_of (replicate k 0)))]"
    using xtr 1 2 3 by (simp add: bench_extract_def)
  show "results (bench_crc_roundtrip j k new n h) = replicate n [Appended (of_nat k + 4), Verified True]"
    using seal_loop.measure_loop_steady(1) [OF ready] 1 2 by (simp add: bench_crc_roundtrip_def)
qed

section \<open>Properties\<close>

text \<open>
  C38: The benchmarks of the checksum functions measure what they mean to, with any allocator and
  for any number of iterations: every append returns the payload length plus 4, every
  verification succeeds, and every extraction returns the payload length with the
  checksum of the payload of zeros, which is also the one calculated.
\<close>
theorem bench_crc32_correct:
  assumes "allocates new"
  shows "\<forall>(bm, r) \<in> set
      [(BM_CRC32_Calculate_Small, [Calculated (crc_of (replicate 16 0))]),
       (BM_CRC32_Calculate_Medium, [Calculated (crc_of (replicate 256 0))]),
       (BM_CRC32_Calculate_Large, [Calculated (crc_of (replicate 1024 0))]),
       (BM_CRC32_Calculate_VeryLarge, [Calculated (crc_of (replicate 8192 0))]),
       (BM_CRC32_Append_Small, [Appended 20]), (BM_CRC32_Append_Medium, [Appended 260]),
       (BM_CRC32_Append_Large, [Appended 1028]),
       (BM_CRC32_Verify_Small, [Verified True]), (BM_CRC32_Verify_Medium, [Verified True]),
       (BM_CRC32_Verify_Large, [Verified True]),
       (BM_CRC32_Extract_Small, [Extracted 16 (Some (crc_of (replicate 16 0)))]),
       (BM_CRC32_Extract_Medium, [Extracted 256 (Some (crc_of (replicate 256 0)))]),
       (BM_CRC32_Extract_Large, [Extracted 1024 (Some (crc_of (replicate 1024 0)))]),
       (BM_CRC32_Roundtrip_Small, [Appended 20, Verified True]),
       (BM_CRC32_Roundtrip_Medium, [Appended 260, Verified True]),
       (BM_CRC32_Roundtrip_Large, [Appended 1028, Verified True])].
      results (bm new n h) = replicate n r"
  by (simp add: crc_bench_defs bench_calculate_results bench_crc_results [OF assms])

theorem bench_crc32_correct_witness:
  "results (BM_CRC32_Roundtrip_Medium bump 2 empty_heap) = [[Appended 260, Verified True], [Appended 260, Verified True]]"
  using bench_crc32_correct [OF bump_allocates, of 2 empty_heap]
  by (simp add: numeral_2_eq_2)

end
