(* ===== verification/Slip_Bench_Encoder.thy ===== *)
theory Slip_Bench_Encoder
  imports Slip_Bench Slip_Sink
begin

text \<open>
  The benchmarks of the encoder, \<open>src/bench/bench_encoder.cpp\<close>. The output callback of all of
  them writes into a vector through an index, both captured by reference: they are its
  state. The result of an iteration lists what the calls of the encoder in it
  return, and the bytes the vector holds when the index is reset.
\<close>

section \<open>Definitions\<close>

record OutputVector =
  output_buffer :: "byte list"
  output_index :: size_t

definition output_fn :: "OutputVector OutputFn" where
  "output_fn s byte =
     (if output_index s < of_nat (length (output_buffer s)) then
        (Ok, s\<lparr>output_buffer := (output_buffer s)[unat (output_index s) := byte],
               output_index := output_index s + 1\<rparr>)
      else (RetryLater, s))"

datatype encoder_call = Pushed WriteStatus size_t | Flushed WriteStatus

type_synonym encoder_bench =
  "nat \<Rightarrow> (encoder_call list \<times> byte list, OutputVector Encoder) bench"

text \<open>The encoder of a benchmark: an output vector of \<open>j\<close> zeros, the index 0.\<close>

definition bench_encoder :: "nat \<Rightarrow> size_t \<Rightarrow> size_t \<Rightarrow> OutputVector Encoder" where
  "bench_encoder j txBufferSize chunk =
     mk_Encoder \<lparr>output_buffer = replicate j 0, output_index = 0\<rparr> txBufferSize chunk"

text \<open>\<open>output_index = 0;\<close>, which also yields what has been written up to there.\<close>

definition reset_output :: "OutputVector Encoder \<Rightarrow> byte list \<times> OutputVector Encoder" where
  "reset_output e =
     (take (unat (output_index (sink e))) (output_buffer (sink e)),
      e\<lparr>sink := (sink e)\<lparr>output_index := 0\<rparr>\<rparr>)"

fun push_times :: "nat \<Rightarrow> byte list \<Rightarrow> OutputVector Encoder \<Rightarrow> encoder_call list \<times> OutputVector Encoder" where
  "push_times 0 data e = ([], e)"
| "push_times (Suc i) data e =
     (case pushPacket output_fn e data of ((st, n), e1) \<Rightarrow>
        case push_times i data e1 of (cs, e2) \<Rightarrow> (Pushed st n # cs, e2))"

text \<open>The loop bodies: \<open>i\<close> packets and the reset, and the body of the flush benchmark.\<close>

definition push_body ::
    "nat \<Rightarrow> byte list \<Rightarrow> OutputVector Encoder \<Rightarrow> (encoder_call list \<times> byte list) \<times> OutputVector Encoder" where
  "push_body i data e =
     (case push_times i data e of (cs, e1) \<Rightarrow>
        case reset_output e1 of (written, e2) \<Rightarrow> ((cs, written), e2))"

definition flush_body ::
    "byte list \<Rightarrow> OutputVector Encoder \<Rightarrow> (encoder_call list \<times> byte list) \<times> OutputVector Encoder" where
  "flush_body data e =
     (case flush output_fn e of (st, e1) \<Rightarrow>
        case reset_output e1 of (written, e2) \<Rightarrow>
          case push_times 1 data e2 of (cs, e3) \<Rightarrow> ((Flushed st # cs, written), e3))"

definition bench_push ::
    "nat \<Rightarrow> size_t \<Rightarrow> size_t \<Rightarrow> nat \<Rightarrow> (size_t \<Rightarrow> byte) option \<Rightarrow> nat \<Rightarrow> encoder_bench" where
  "bench_push j txBufferSize chunk i fill k n =
     measure_loop n (of_nat k * of_nat i) (push_body i (test_data fill k)) (bench_encoder j txBufferSize chunk)"

definition BM_Encoder_PushPacket_Small :: encoder_bench where
  "BM_Encoder_PushPacket_Small = bench_push 1024 1024 64 1 None 16"

definition BM_Encoder_PushPacket_Medium :: encoder_bench where
  "BM_Encoder_PushPacket_Medium = bench_push 1024 1024 64 1 None 256"

definition BM_Encoder_PushPacket_Large :: encoder_bench where
  "BM_Encoder_PushPacket_Large = bench_push 4096 4096 256 1 None 1024"

definition BM_Encoder_Flush :: encoder_bench where
  "BM_Encoder_Flush n =
     (let data = test_data None 16
      in case push_times 1 data (bench_encoder 1024 1024 64) of (_, e) \<Rightarrow>
           measure_loop n 16 (flush_body data) e)"

definition BM_Encoder_PushPacket_WithSpecialBytes :: encoder_bench where
  "BM_Encoder_PushPacket_WithSpecialBytes = bench_push 2048 2048 64 1 (Some special_byte) 256"

definition BM_Encoder_MultiplePackets :: encoder_bench where
  "BM_Encoder_MultiplePackets = bench_push 4096 4096 64 10 None 32"

definition BM_Encoder_PushPacket_ASCII_Small :: encoder_bench where
  "BM_Encoder_PushPacket_ASCII_Small = bench_push 1024 1024 64 1 (Some ascii_byte) 16"

definition BM_Encoder_PushPacket_ASCII_Medium :: encoder_bench where
  "BM_Encoder_PushPacket_ASCII_Medium = bench_push 1024 1024 64 1 (Some ascii_byte) 256"

definition BM_Encoder_PushPacket_ASCII_Large :: encoder_bench where
  "BM_Encoder_PushPacket_ASCII_Large = bench_push 4096 4096 256 1 (Some ascii_byte) 1024"

section \<open>The output vector\<close>

text \<open>The output accepts as many bytes as there are places left in the vector.\<close>

definition room :: "OutputVector \<Rightarrow> nat \<Rightarrow> bool" where
  "room s n \<longleftrightarrow> unat (output_index s) + n \<le> length (output_buffer s) \<and> length (output_buffer s) < 2 ^ 64"

lemma output_fn_room:
  assumes "room s (Suc n)"
  shows "output_fn s b = (Ok, s\<lparr>output_buffer := (output_buffer s)[unat (output_index s) := b],
      output_index := output_index s + 1\<rparr>)"
    and "unat (output_index s + 1) = Suc (unat (output_index s))"
proof -
  have less: "output_index s < of_nat (length (output_buffer s))"
    using assms by (simp add: room_def word_less_nat_alt unat_of_nat_size)
  then show "output_fn s b = (Ok, s\<lparr>output_buffer := (output_buffer s)[unat (output_index s) := b],
      output_index := output_index s + 1\<rparr>)"
    by (simp add: output_fn_def)
  show "unat (output_index s + 1) = Suc (unat (output_index s))"
    using less by (rule unat_inc)
qed

interpretation vec: credit output_fn room
  by unfold_locales (auto simp: output_fn_room room_def)

lemma feed_vector:
  assumes "room s (length bs)"
  shows "length (output_buffer (feed output_fn s bs)) = length (output_buffer s) \<and>
    unat (output_index (feed output_fn s bs)) = unat (output_index s) + length bs \<and>
    take (unat (output_index s) + length bs) (output_buffer (feed output_fn s bs)) =
      take (unat (output_index s)) (output_buffer s) @ bs"
  using assms
proof (induction bs arbitrary: s)
  case (Cons b bs)
  let ?i = "unat (output_index s)"
  define s1 where "s1 = s\<lparr>output_buffer := (output_buffer s)[?i := b], output_index := output_index s + 1\<rparr>"
  have s1: "output_fn s b = (Ok, s1)" "unat (output_index s1) = Suc ?i"
    using output_fn_room [of s "length bs"] Cons.prems by (simp_all add: s1_def)
  have "room s1 (length bs)"
    using Cons.prems s1(2) by (simp add: room_def s1_def)
  note IH = Cons.IH [OF this]
  have "take (Suc ?i) (output_buffer s1) = take ?i (output_buffer s) @ [b]"
    using Cons.prems by (simp add: s1_def room_def take_Suc_conv_app_nth)
  moreover have "length (output_buffer s1) = length (output_buffer s)"
    by (simp add: s1_def)
  ultimately show ?case
    using IH s1 by simp
qed simp

section \<open>The loop bodies\<close>

text \<open>
  The encoder between two calls, for an output vector of \<open>j\<close> bytes: it is drained, and the
  bytes \<open>bs\<close> have been written since the last reset of the index.
\<close>

definition holds_output :: "nat \<Rightarrow> byte list \<Rightarrow> OutputVector Encoder \<Rightarrow> bool" where
  "holds_output j bs e \<longleftrightarrow> drained e \<and> unat (output_index (sink e)) = length bs \<and> length bs \<le> j \<and>
     take (length bs) (output_buffer (sink e)) = bs \<and> length (output_buffer (sink e)) = j \<and> j < 2 ^ 64"

lemma push_times_delivers:
  assumes "drained e" "length data < 2 ^ 64" "room (sink e) (i * length (slip_encode data) + k)"
  shows "\<exists>e'. push_times i data e = (replicate i (Pushed Ok (of_nat (length data))), e') \<and>
    delivers output_fn (concat (replicate i (slip_encode data))) e e' \<and> room (sink e') k"
  using assms
proof (induction i arbitrary: e)
  case 0
  then show ?case by (simp add: delivers_refl)
next
  case (Suc i)
  have "room (sink e) (length (slip_encode data) + (i * length (slip_encode data) + k))"
    using Suc.prems(3) by (simp add: algebra_simps)
  from vec.pushPacket_delivers [OF Suc.prems(1,2) this] obtain e1 where
    1: "pushPacket output_fn e data = ((Ok, of_nat (length data)), e1)"
      "delivers output_fn (slip_encode data) e e1" "room (sink e1) (i * length (slip_encode data) + k)" .
  then have "drained e1" by (simp add: delivers_def)
  from Suc.IH [OF this Suc.prems(2) 1(3)] obtain e' where
    2: "push_times i data e1 = (replicate i (Pushed Ok (of_nat (length data))), e')"
      "delivers output_fn (concat (replicate i (slip_encode data))) e1 e'" "room (sink e') k" by blast
  then show ?case
    using 1(1) delivers_trans [OF 1(2) 2(2)] by simp
qed

lemma push_times_output:
  assumes "holds_output j as e" "length data < 2 ^ 64" "length as + i * length (slip_encode data) \<le> j"
  shows "\<exists>e'. push_times i data e = (replicate i (Pushed Ok (of_nat (length data))), e') \<and>
    holds_output j (as @ concat (replicate i (slip_encode data))) e'"
proof -
  let ?bs = "concat (replicate i (slip_encode data))"
  have len: "length ?bs = i * length (slip_encode data)"
    by (induction i) simp_all
  have room: "room (sink e) (i * length (slip_encode data) + 0)" "room (sink e) (length ?bs)"
    using assms(1,3) len by (simp_all add: holds_output_def room_def)
  obtain e1 where 1: "push_times i data e = (replicate i (Pushed Ok (of_nat (length data))), e1)" "delivers output_fn ?bs e e1"
    using push_times_delivers [OF _ assms(2) room(1)] assms(1) by (auto simp: holds_output_def)
  have "holds_output j (as @ ?bs) e1"
    using feed_vector [OF room(2)] 1(2) assms(1,3) len by (simp add: delivers_def holds_output_def)
  with 1(1) show ?thesis by blast
qed

lemma reset_output_holds:
  assumes "holds_output j bs e"
  shows "fst (reset_output e) = bs" "holds_output j [] (snd (reset_output e))"
  using assms by (auto simp: holds_output_def reset_output_def)

definition fits :: "nat \<Rightarrow> nat \<Rightarrow> byte list \<Rightarrow> bool" where
  "fits j i data \<longleftrightarrow> length data < 2 ^ 64 \<and> i * length (slip_encode data) \<le> j"

lemma push_body_ready:
  assumes "holds_output j [] e" "fits j i data"
  shows "fst (push_body i data e) =
      (replicate i (Pushed Ok (of_nat (length data))), concat (replicate i (slip_encode data)))"
    and "holds_output j [] (snd (push_body i data e))"
proof -
  obtain e1 where 1: "push_times i data e = (replicate i (Pushed Ok (of_nat (length data))), e1)"
      "holds_output j (concat (replicate i (slip_encode data))) e1"
    using push_times_output [OF assms(1), of data i] assms(2) by (auto simp: fits_def)
  moreover obtain e2 where "reset_output e1 = (concat (replicate i (slip_encode data)), e2)" "holds_output j [] e2"
    using reset_output_holds [OF 1(2)] by (cases "reset_output e1") simp
  ultimately show "fst (push_body i data e) =
      (replicate i (Pushed Ok (of_nat (length data))), concat (replicate i (slip_encode data)))"
    "holds_output j [] (snd (push_body i data e))"
    by (simp_all add: push_body_def)
qed

lemma flush_body_ready:
  assumes "holds_output j (slip_encode data) e" "fits j 1 data"
  shows "fst (flush_body data e) = ([Flushed Ok, Pushed Ok (of_nat (length data))], slip_encode data)"
    and "holds_output j (slip_encode data) (snd (flush_body data e))"
proof -
  have 1: "flush output_fn e = (Ok, e)"
    using assms(1) by (simp add: holds_output_def drained_flush)
  obtain e2 where 2: "reset_output e = (slip_encode data, e2)" "holds_output j [] e2"
    using reset_output_holds [OF assms(1)] by (cases "reset_output e") simp
  obtain e3 where 3: "push_times 1 data e2 = ([Pushed Ok (of_nat (length data))], e3)" "holds_output j (slip_encode data) e3"
    using push_times_output [OF 2(2), of data 1] assms(2) by (auto simp: fits_def simp del: push_times.simps)
  show "fst (flush_body data e) = ([Flushed Ok, Pushed Ok (of_nat (length data))], slip_encode data)"
    "holds_output j (slip_encode data) (snd (flush_body data e))"
    using 1 2 3 by (simp_all add: flush_body_def del: push_times.simps One_nat_def)
qed

interpretation push_loop: steady "\<lambda>e. holds_output j [] e \<and> fits j i data" "holds_output j []" "push_body i data"
  "(replicate i (Pushed Ok (of_nat (length data))), concat (replicate i (slip_encode data)))" for j i data
  by unfold_locales (auto simp: push_body_ready)

interpretation flush_push: steady "\<lambda>e. holds_output j (slip_encode data) e \<and> fits j 1 data"
  "holds_output j (slip_encode data)" "flush_body data"
  "([Flushed Ok, Pushed Ok (of_nat (length data))], slip_encode data)" for j data
  by unfold_locales (auto simp: flush_body_ready)

section \<open>Whole benchmarks\<close>

lemma bench_encoder_output:
  assumes "j < 2 ^ 64" "2 \<le> b" "2 \<le> c"
  shows "holds_output j [] (bench_encoder j b c)"
  using assms drained_make [of b c] by (simp add: holds_output_def bench_encoder_def mk_Encoder_def)

lemma bench_push_results:
  assumes "j < 2 ^ 64" "2 \<le> b" "2 \<le> c" "k < 2 ^ 64" "i * length (slip_encode (test_data fill k)) \<le> j"
  shows "results (bench_push j b c i fill k n) =
      replicate n (replicate i (Pushed Ok (of_nat k)), concat (replicate i (slip_encode (test_data fill k))))"
proof -
  have "holds_output j [] (bench_encoder j b c) \<and> fits j i (test_data fill k)"
    using assms bench_encoder_output [OF assms(1-3)] by (simp add: fits_def)
  from push_loop.measure_loop_steady(1) [OF this] assms(4) show ?thesis
    by (simp add: bench_push_def)
qed

lemma bench_flush_results:
  "results (BM_Encoder_Flush n) =
     replicate n ([Flushed Ok, Pushed Ok 16], slip_encode (test_data None 16))"
proof -
  let ?xs = "test_data None 16"
  have fits: "fits 1024 1 ?xs"
    using length_encode_test_data(1) [of 16] by (simp add: fits_def)
  obtain e where e: "push_times 1 ?xs (bench_encoder 1024 1024 64) = ([Pushed Ok 16], e)"
      "holds_output 1024 (slip_encode ?xs) e"
    using push_times_output [OF bench_encoder_output, of 1024 1024 64 ?xs 1] fits
    by (auto simp: fits_def word_le_nat_alt simp del: push_times.simps)
  then have "holds_output 1024 (slip_encode ?xs) e \<and> fits 1024 1 ?xs"
    using fits by simp
  from flush_push.measure_loop_steady(1) [OF this] e(1) show ?thesis
    by (simp add: BM_Encoder_Flush_def Let_def del: push_times.simps One_nat_def)
qed

section \<open>Properties\<close>

text \<open>
  C35: No call in a benchmark of the encoder blocks: in every iteration each \<open>pushPacket\<close> returns \<open>Ok\<close>
  with the whole packet consumed and each \<open>flush\<close> returns \<open>Ok\<close>, and the output vector holds
  exactly the frame of the packet (ten frames for the benchmark of multiple packets)
  when the index is reset. So the vectors are large enough, and no iteration inherits
  bytes of another.
\<close>
theorem bench_encoder_correct:
  "\<forall>(bm, r) \<in> set
      [(BM_Encoder_PushPacket_Small, [Pushed Ok 16], slip_encode (test_data None 16)),
       (BM_Encoder_PushPacket_Medium, [Pushed Ok 256], slip_encode (test_data None 256)),
       (BM_Encoder_PushPacket_Large, [Pushed Ok 1024], slip_encode (test_data None 1024)),
       (BM_Encoder_Flush, [Flushed Ok, Pushed Ok 16], slip_encode (test_data None 16)),
       (BM_Encoder_PushPacket_WithSpecialBytes, [Pushed Ok 256], slip_encode (test_data (Some special_byte) 256)),
       (BM_Encoder_MultiplePackets, replicate 10 (Pushed Ok 32), concat (replicate 10 (slip_encode (test_data None 32)))),
       (BM_Encoder_PushPacket_ASCII_Small, [Pushed Ok 16], slip_encode (test_data (Some ascii_byte) 16)),
       (BM_Encoder_PushPacket_ASCII_Medium, [Pushed Ok 256], slip_encode (test_data (Some ascii_byte) 256)),
       (BM_Encoder_PushPacket_ASCII_Large, [Pushed Ok 1024], slip_encode (test_data (Some ascii_byte) 1024))].
      results (bm n) = replicate n r"
  by (simp add: BM_Encoder_PushPacket_Small_def BM_Encoder_PushPacket_Medium_def BM_Encoder_PushPacket_Large_def
    bench_flush_results BM_Encoder_PushPacket_WithSpecialBytes_def BM_Encoder_MultiplePackets_def
    BM_Encoder_PushPacket_ASCII_Small_def BM_Encoder_PushPacket_ASCII_Medium_def
    BM_Encoder_PushPacket_ASCII_Large_def bench_push_results length_encode_test_data word_le_nat_alt
    del: length_slip_encode)

theorem bench_encoder_correct_witness:
  "results (BM_Encoder_Flush 2) =
     [([Flushed Ok, Pushed Ok 16], slip_encode (test_data None 16)),
      ([Flushed Ok, Pushed Ok 16], slip_encode (test_data None 16))]"
  using bench_encoder_correct [of 2] by (simp add: numeral_2_eq_2)

end
