(* ===== verification/Slip_Bench_Decoder.thy ===== *)
theory Slip_Bench_Decoder
  imports Slip_Bench Slip_Sink Slip_Decoder
begin

text \<open>
  The benchmarks of the decoder, \<open>src/bench/bench_decoder.cpp\<close>. Their input is made by a helper
  that runs the encoder with an output that appends to a vector. The vector of received
  messages is the trace of the callback calls, emptied by \<open>clear\<close>; the result of an
  iteration is what it holds before that. The memory behind the receive buffer is a
  parameter. \<open>None\<close> is a benchmark that does not return.
\<close>

section \<open>Definitions\<close>

definition push_back_fn :: "byte list OutputFn" where
  "push_back_fn encoded_data byte = (Ok, encoded_data @ [byte])"

text \<open>\<open>output\<close> is the contents of the vector behind the pointer, returned updated.\<close>

definition encode_packet_helper :: "byte list \<Rightarrow> byte list \<Rightarrow> size_t \<Rightarrow> size_t \<times> byte list" where
  "encode_packet_helper data output output_size =
     (case pushPacket push_back_fn (mk_Encoder [] output_size 64) data of ((status, n), e1) \<Rightarrow>
        case flush push_back_fn e1 of (_, e2) \<Rightarrow>
          let encoded_data = sink e2
          in if of_nat (length encoded_data) > output_size then (0, output)
             else (of_nat (length encoded_data), encoded_data @ drop (length encoded_data) output))"

type_synonym decoder_bench = "mem \<Rightarrow> nat \<Rightarrow> (byte list list, mem) bench option"

text \<open>\<open>received_messages.clear()\<close>, which also yields the messages received up to there.\<close>

definition clear_messages :: "Decoder \<Rightarrow> byte list list \<times> Decoder" where
  "clear_messages d = (messages (calls d), d\<lparr>calls := []\<rparr>)"

text \<open>The loop bodies; \<open>encoded\<close> and \<open>len\<close> are the vector and the length from the helper.\<close>

definition consume_body :: "nat \<Rightarrow> byte list \<Rightarrow> size_t \<Rightarrow> Decoder \<Rightarrow> byte list list \<times> Decoder" where
  "consume_body i encoded len d = clear_messages (((\<lambda>d. consume d (take (unat len) encoded)) ^^ i) d)"

definition reset_body :: "size_t \<Rightarrow> byte list \<Rightarrow> size_t \<Rightarrow> mem \<Rightarrow> byte list list \<times> mem" where
  "reset_body rx_size encoded len rx =
     (case clear_messages (reset (consume (Decoder_log rx rx_size False) (take (unat len) encoded))) of
        (received, d) \<Rightarrow> (received, rxbuf d))"

definition single_byte_body :: "byte list \<Rightarrow> size_t \<Rightarrow> Decoder \<Rightarrow> byte list list \<times> Decoder" where
  "single_byte_body encoded len d =
     (case clear_messages (foldl (\<lambda>d i. consume_byte d (encoded ! i)) d [0..<unat len]) of
        (received, d1) \<Rightarrow> (received, reset d1))"

definition chunk_body :: "byte list \<Rightarrow> size_t \<Rightarrow> Decoder \<Rightarrow> (byte list list \<times> Decoder) option" where
  "chunk_body encoded len d =
     (case consume_chunk d (take (unat len) encoded) 4 of
        None \<Rightarrow> None
      | Some (d1, _) \<Rightarrow> (case clear_messages d1 of (received, d2) \<Rightarrow> Some (received, reset d2)))"

definition all_at_once_body :: "byte list \<Rightarrow> size_t \<Rightarrow> Decoder \<Rightarrow> byte list list \<times> Decoder" where
  "all_at_once_body encoded len d =
     (case clear_messages (consume d (take (unat len) encoded)) of
        (received, d1) \<Rightarrow> (received, reset d1))"

text \<open>The vector of \<open>r\<close> zero bytes for receiving, at the start of the memory \<open>m\<close>.\<close>

definition rx_vector :: "mem \<Rightarrow> nat \<Rightarrow> mem" where
  "rx_vector m r = mem_write m 0 (replicate r 0)"

definition bench_consume :: "nat \<Rightarrow> nat \<Rightarrow> (size_t \<Rightarrow> byte) option \<Rightarrow> nat \<Rightarrow> nat \<Rightarrow> decoder_bench" where
  "bench_consume r i fill k j m n =
     (case encode_packet_helper (test_data fill k) (replicate j 0) (of_nat j) of (len, encoded) \<Rightarrow>
        Some (with_final rxbuf (measure_loop n (of_nat k * of_nat i) (consume_body i encoded len)
          (Decoder_log (rx_vector m r) (of_nat r) False))))"

definition BM_Decoder_Consume_Small :: decoder_bench where
  "BM_Decoder_Consume_Small = bench_consume 512 1 None 16 32"

definition BM_Decoder_Consume_Medium :: decoder_bench where
  "BM_Decoder_Consume_Medium = bench_consume 1024 1 None 256 512"

definition BM_Decoder_Consume_Large :: decoder_bench where
  "BM_Decoder_Consume_Large = bench_consume 2048 1 None 1024 2048"

definition BM_Decoder_Consume_WithSpecialBytes :: decoder_bench where
  "BM_Decoder_Consume_WithSpecialBytes = bench_consume 2048 1 (Some special_byte) 256 1024"

definition BM_Decoder_Consume_MultiplePackets :: decoder_bench where
  "BM_Decoder_Consume_MultiplePackets = bench_consume 4096 10 None 32 64"

definition BM_Decoder_Reset :: decoder_bench where
  "BM_Decoder_Reset m n =
     (case encode_packet_helper (test_data None 16) (replicate 32 0) 32 of (len, encoded) \<Rightarrow>
        Some (measure_loop n 16 (reset_body 512 encoded len) (rx_vector m 512)))"

definition BM_Decoder_Consume_SingleByte :: decoder_bench where
  "BM_Decoder_Consume_SingleByte m n =
     (case encode_packet_helper (test_data None 256) (replicate 512 0) 512 of (len, encoded) \<Rightarrow>
        Some (with_final rxbuf (measure_loop n 256 (single_byte_body encoded len)
          (Decoder_log (rx_vector m 2048) 2048 False))))"

definition BM_Decoder_Consume_4ByteChunk :: decoder_bench where
  "BM_Decoder_Consume_4ByteChunk m n =
     (case encode_packet_helper (test_data None 256) (replicate 512 0) 512 of (len, encoded) \<Rightarrow>
        map_option (with_final rxbuf) (measure_loop_option n 256 (chunk_body encoded len)
          (Decoder_log (rx_vector m 2048) 2048 False)))"

definition BM_Decoder_Consume_AllAtOnce :: decoder_bench where
  "BM_Decoder_Consume_AllAtOnce m n =
     (case encode_packet_helper (test_data None 256) (replicate 512 0) 512 of (len, encoded) \<Rightarrow>
        Some (with_final rxbuf (measure_loop n 256 (all_at_once_body encoded len)
          (Decoder_log (rx_vector m 2048) 2048 False))))"

section \<open>The helper\<close>

interpretation push_back: credit push_back_fn "\<lambda>_ _. True"
  by unfold_locales (simp add: push_back_fn_def)

lemma feed_push_back: "feed push_back_fn v bs = v @ bs"
  by (induction bs arbitrary: v) (simp_all add: push_back_fn_def)

lemma encode_packet_helper_eq:
  assumes "length data < 2 ^ 64" "2 \<le> sz" "length (slip_encode data) \<le> unat sz"
  shows "encode_packet_helper data output sz =
    (of_nat (length (slip_encode data)), slip_encode data @ drop (length (slip_encode data)) output)"
proof -
  have d: "drained (mk_Encoder [] sz 64)"
    using assms(2) by (intro drained_make) (simp_all add: word_le_nat_alt)
  obtain e1 where 1: "pushPacket push_back_fn (mk_Encoder [] sz 64) data = ((Ok, of_nat (length data)), e1)"
      "delivers push_back_fn (slip_encode data) (mk_Encoder [] sz 64) e1"
    using push_back.pushPacket_delivers [OF d assms(1)] by blast
  then have e1: "drained e1" "sink e1 = slip_encode data"
    by (simp_all add: delivers_def feed_push_back mk_Encoder_def)
  have "unat (of_nat (length (slip_encode data)) :: size_t) = length (slip_encode data)"
    using assms(3) unat_size_less [of sz] by (intro unat_of_nat_size) linarith
  then have "\<not> of_nat (length (slip_encode data)) > sz"
    using assms(3) by (simp add: word_less_nat_alt)
  with 1(1) drained_flush [OF e1(1), of push_back_fn] e1(2) show ?thesis
    by (simp add: encode_packet_helper_def Let_def del: length_slip_encode)
qed

text \<open>The frame that the decoder is given.\<close>

definition holds_frame :: "byte list \<Rightarrow> byte list \<Rightarrow> size_t \<Rightarrow> bool" where
  "holds_frame xs encoded len \<longleftrightarrow> take (unat len) encoded = slip_encode xs \<and> unat len \<le> length encoded"

lemma helper_holds_frame:
  assumes "length data < 2 ^ 64" "j < 2 ^ 64" "length (slip_encode data) \<le> j" "2 \<le> j"
  obtains len encoded where "encode_packet_helper data (replicate j 0) (of_nat j) = (len, encoded)"
    "holds_frame data encoded len"
proof -
  have "length (slip_encode data) \<le> unat (of_nat j :: size_t)" "(2 :: size_t) \<le> of_nat j"
    using assms by (simp_all add: unat_of_nat_size word_le_nat_alt)
  from encode_packet_helper_eq [OF assms(1) this(2,1)] assms that show thesis
    by (simp add: holds_frame_def unat_of_nat_size del: length_slip_encode)
qed

section \<open>The loop bodies\<close>

text \<open>The decoder in front of an iteration: nothing is received and it waits for a frame.\<close>

definition awaits :: "nat \<Rightarrow> mem \<Rightarrow> Decoder \<Rightarrow> bool" where
  "awaits r m d \<longleftrightarrow> dec_inv (of_nat r) m d \<and> dec_idle d \<and> calls d = []"

definition receivable :: "nat \<Rightarrow> byte list \<Rightarrow> byte list \<Rightarrow> size_t \<Rightarrow> bool" where
  "receivable r xs encoded len \<longleftrightarrow> holds_frame xs encoded len \<and> length xs + 2 \<le> r \<and> r < 2 ^ 64"

lemma consume_power: "((\<lambda>d. consume d ys) ^^ i) d = consume d (concat (replicate i ys))"
proof (induction i arbitrary: d)
  case (Suc i)
  have "((\<lambda>d. consume d ys) ^^ Suc i) d = ((\<lambda>d. consume d ys) ^^ i) (consume d ys)"
    by (simp only: funpow_Suc_right comp_def)
  with Suc.IH show ?case by (simp add: consume_append del: funpow.simps)
qed (simp add: consume_def)

lemma clear_frames:
  assumes "awaits r m d" "receivable r xs encoded len"
  shows "fst (clear_messages (consume d (concat (replicate i (slip_encode xs))))) = replicate i xs"
    and "awaits r m (snd (clear_messages (consume d (concat (replicate i (slip_encode xs))))))"
    and "awaits r m (reset (snd (clear_messages (consume d (concat (replicate i (slip_encode xs)))))))"
proof -
  let ?d = "consume d (concat (replicate i (slip_encode xs)))"
  have r: "length xs + 2 \<le> unat (of_nat r :: size_t)"
    using assms(2) by (simp add: receivable_def unat_of_nat_size)
  have "messages (calls ?d) = messages (calls d) @ replicate i xs" "dec_idle ?d"
    using consume_frames [of "of_nat r" m d "replicate i xs"] assms(1) r
    by (auto simp: awaits_def map_replicate_const)
  moreover have "dec_inv (of_nat r) m ?d"
    using assms(1) by (simp add: awaits_def consume_inv)
  ultimately show "fst (clear_messages ?d) = replicate i xs" "awaits r m (snd (clear_messages ?d))"
    "awaits r m (reset (snd (clear_messages ?d)))"
    using assms(1) by (simp_all add: clear_messages_def awaits_def dec_idle_def dec_inv_def reset_def)
qed

lemmas clear_frame = clear_frames [where i = 1, simplified]

lemma single_bytes:
  assumes "holds_frame xs encoded len"
  shows "foldl (\<lambda>d i. consume_byte d (encoded ! i)) d [0..<unat len] = consume d (slip_encode xs)"
proof -
  have "unat len \<le> length encoded"
    using assms by (simp add: holds_frame_def)
  then have "take (unat len) encoded = map ((!) encoded) [0..<unat len]"
    by (intro nth_equalityI) simp_all
  with assms have "consume d (slip_encode xs) = consume d (map ((!) encoded) [0..<unat len])"
    by (simp add: holds_frame_def)
  then show ?thesis
    by (simp add: consume_def foldl_map)
qed

interpretation consume_loop: steady "\<lambda>d. awaits r m d \<and> receivable r xs encoded len" "awaits r m"
  "consume_body i encoded len" "replicate i xs" for r m xs encoded len i
  by unfold_locales
    (auto simp: consume_body_def consume_power clear_frames receivable_def holds_frame_def)

interpretation single_loop: steady "\<lambda>d. awaits r m d \<and> receivable r xs encoded len" "awaits r m"
  "single_byte_body encoded len" "[xs]" for r m xs encoded len
  using clear_frame
  by unfold_locales (fastforce simp: single_byte_body_def single_bytes receivable_def split: prod.splits)+

interpretation all_loop: steady "\<lambda>d. awaits r m d \<and> receivable r xs encoded len" "awaits r m"
  "all_at_once_body encoded len" "[xs]" for r m xs encoded len
  using clear_frame
  by unfold_locales (fastforce simp: all_at_once_body_def receivable_def holds_frame_def split: prod.splits)+

lemma chunk_body_eq:
  assumes "length encoded < 2 ^ 64"
  shows "chunk_body encoded len d = Some (all_at_once_body encoded len d)"
proof -
  have "consume_chunk d (take (unat len) encoded) 4 =
      Some (consume d (take (unat len) encoded), of_nat (length (take (unat len) encoded)))"
    using consume_chunk_loop_eq [of 0 "take (unat len) encoded" 4 d] assms by (simp add: consume_chunk_def)
  then show ?thesis
    by (simp add: chunk_body_def all_at_once_body_def split: prod.splits)
qed

text \<open>
  The decoder of the reset benchmark is a new one in every iteration; only the receive
  buffer is kept.
\<close>

interpretation reset_loop: steady
  "\<lambda>rx. (\<forall>a \<ge> r. rx a = m a) \<and> receivable r xs encoded len" "\<lambda>_. True"
  "reset_body (of_nat r) encoded len" "[xs]" for r m xs encoded len
proof
  fix rx :: mem
  assume *: "(\<forall>a \<ge> r. rx a = m a) \<and> receivable r xs encoded len"
  let ?d = "Decoder_log rx (of_nat r) False"
  have "unat (of_nat r :: size_t) = r" "0 < r"
    using * by (auto simp: receivable_def unat_of_nat_size)
  then have "awaits r m ?d"
    using * by (simp add: awaits_def dec_inv_def dec_idle_def Decoder_log_def word_less_nat_alt)
  then have "fst (clear_messages (reset (consume ?d (slip_encode xs)))) = [xs]"
      "dec_inv (of_nat r) m (consume ?d (slip_encode xs))"
    using clear_frame(1) [of r m ?d xs encoded len] * consume_inv [of "of_nat r" m ?d]
    by (simp_all add: awaits_def clear_messages_def reset_def)
  then show "fst (reset_body (of_nat r) encoded len rx) = [xs]"
    "(\<forall>a \<ge> r. snd (reset_body (of_nat r) encoded len rx) a = m a) \<and> receivable r xs encoded len"
    using * \<open>unat (of_nat r :: size_t) = r\<close>
    by (simp_all add: reset_body_def clear_messages_def receivable_def holds_frame_def reset_def dec_inv_def)
qed simp

section \<open>Whole benchmarks\<close>

lemma awaits_make:
  assumes "0 < r" "r < 2 ^ 64"
  shows "awaits r m (Decoder_log (rx_vector m r) (of_nat r) False)"
  using assms mem_write_outside [of _ 0 "replicate r 0" m]
  by (auto simp: awaits_def dec_inv_def dec_idle_def Decoder_log_def rx_vector_def unat_of_nat_size word_less_nat_alt)

lemma bench_consume_results:
  assumes "k + 2 \<le> r" "r < 2 ^ 64" "j < 2 ^ 64" "length (slip_encode (test_data fill k)) \<le> j" "0 < k"
  shows "\<exists>b. bench_consume r i fill k j m n = Some b \<and> results b = replicate n (replicate i (test_data fill k)) \<and>
    (\<forall>a \<ge> r. final b a = m a)"
proof -
  have k: "k < 2 ^ 64" "2 \<le> j"
    using assms length_slip_body_ge [of "test_data fill k"] by auto
  obtain len encoded where h: "encode_packet_helper (test_data fill k) (replicate j 0) (of_nat j) = (len, encoded)"
      "holds_frame (test_data fill k) encoded len"
    using helper_holds_frame [of "test_data fill k" j] assms k by auto
  then have "awaits r m (Decoder_log (rx_vector m r) (of_nat r) False) \<and> receivable r (test_data fill k) encoded len"
    using assms k awaits_make [of r m] by (simp add: receivable_def)
  from consume_loop.measure_loop_steady(1,3) [OF this] h(1) assms(2) show ?thesis
    by (simp add: bench_consume_def awaits_def dec_inv_def unat_of_nat_size)
qed

lemma bench_256_setup:
  obtains len encoded where "encode_packet_helper (test_data None 256) (replicate 512 0) 512 = (len, encoded)"
    "awaits 2048 m (Decoder_log (rx_vector m 2048) 2048 False) \<and> receivable 2048 (test_data None 256) encoded len"
    "length encoded < 2 ^ 64"
proof -
  have len: "length (slip_encode (test_data None 256)) = 257"
    using length_encode_test_data(1) [of 256] by simp
  have "holds_frame (test_data None 256) (slip_encode (test_data None 256) @ drop 257 (replicate 512 0)) 257"
    using len by (simp add: holds_frame_def)
  then show thesis
    using encode_packet_helper_eq [of "test_data None 256" 512 "replicate 512 0"] awaits_make [of 2048 m] len
    by (intro that [of 257 "slip_encode (test_data None 256) @ drop 257 (replicate 512 0)"])
      (simp_all add: receivable_def word_le_nat_alt)
qed

lemma bench_whole_results:
  "\<exists>b. BM_Decoder_Consume_SingleByte m n = Some b \<and> results b = replicate n [test_data None 256]"
  "\<exists>b. BM_Decoder_Consume_AllAtOnce m n = Some b \<and> results b = replicate n [test_data None 256]"
  "\<exists>b. BM_Decoder_Consume_4ByteChunk m n = Some b \<and> results b = replicate n [test_data None 256]"
proof -
  obtain len encoded where h: "encode_packet_helper (test_data None 256) (replicate 512 0) 512 = (len, encoded)"
    "awaits 2048 m (Decoder_log (rx_vector m 2048) 2048 False) \<and> receivable 2048 (test_data None 256) encoded len"
    "length encoded < 2 ^ 64"
    by (rule bench_256_setup)
  show "\<exists>b. BM_Decoder_Consume_SingleByte m n = Some b \<and> results b = replicate n [test_data None 256]"
    using single_loop.measure_loop_steady(1) [OF h(2)] h(1) by (simp add: BM_Decoder_Consume_SingleByte_def)
  show "\<exists>b. BM_Decoder_Consume_AllAtOnce m n = Some b \<and> results b = replicate n [test_data None 256]"
    using all_loop.measure_loop_steady(1) [OF h(2)] h(1) by (simp add: BM_Decoder_Consume_AllAtOnce_def)
  show "\<exists>b. BM_Decoder_Consume_4ByteChunk m n = Some b \<and> results b = replicate n [test_data None 256]"
    using all_loop.measure_loop_steady(1) [OF h(2)] h(1)
      measure_loop_option_total [OF chunk_body_eq [OF h(3)]]
    by (simp add: BM_Decoder_Consume_4ByteChunk_def)
qed

lemma bench_reset_results:
  "\<exists>b. BM_Decoder_Reset m n = Some b \<and> results b = replicate n [test_data None 16]"
proof -
  have len: "length (slip_encode (test_data None 16)) = 17"
    using length_encode_test_data(1) [of 16] by simp
  let ?encoded = "slip_encode (test_data None 16) @ drop 17 (replicate 32 0)"
  have h: "encode_packet_helper (test_data None 16) (replicate 32 0) 32 = (17, ?encoded)"
    using encode_packet_helper_eq [of "test_data None 16" 32 "replicate 32 0"] len by (simp add: word_le_nat_alt)
  have "(\<forall>a \<ge> 512. rx_vector m 512 a = m a) \<and> receivable 512 (test_data None 16) ?encoded 17"
    using len mem_write_outside [of _ 0 "replicate 512 0" m]
    by (simp add: receivable_def holds_frame_def rx_vector_def)
  from reset_loop.measure_loop_steady(1) [OF this] h show ?thesis
    by (simp add: BM_Decoder_Reset_def)
qed

section \<open>Properties\<close>

text \<open>
  C36: Every benchmark of the decoder returns, and in each of its iterations the decoder delivers
  exactly the test data: one message, or ten for the benchmark of multiple packets,
  whether the frame is fed as a whole, in chunks of four bytes or byte by byte.
\<close>
theorem bench_decoder_correct:
  "\<forall>(bm, r) \<in> set
      [(BM_Decoder_Consume_Small, [test_data None 16]),
       (BM_Decoder_Consume_Medium, [test_data None 256]),
       (BM_Decoder_Consume_Large, [test_data None 1024]),
       (BM_Decoder_Consume_WithSpecialBytes, [test_data (Some special_byte) 256]),
       (BM_Decoder_Consume_MultiplePackets, replicate 10 (test_data None 32)),
       (BM_Decoder_Reset, [test_data None 16]),
       (BM_Decoder_Consume_SingleByte, [test_data None 256]),
       (BM_Decoder_Consume_4ByteChunk, [test_data None 256]),
       (BM_Decoder_Consume_AllAtOnce, [test_data None 256])].
      \<exists>b. bm m n = Some b \<and> results b = replicate n r"
proof -
  have "\<exists>b. bench_consume r i fill k j m n = Some b \<and> results b = replicate n (replicate i (test_data fill k))"
    if "k + 2 \<le> r" "r < 2 ^ 64" "j < 2 ^ 64" "length (slip_encode (test_data fill k)) \<le> j" "0 < k" for r i fill k j
    using bench_consume_results [OF that, of i m n] by blast
  note c = this [of 16 512 32 None 1] this [of 256 1024 512 None 1] this [of 1024 2048 2048 None 1]
    this [of 256 2048 1024 "Some special_byte" 1] this [of 32 4096 64 None 10]
  show ?thesis
    using c bench_whole_results [of m n] bench_reset_results [of m n]
    by (simp add: length_encode_test_data BM_Decoder_Consume_Small_def BM_Decoder_Consume_Medium_def
      BM_Decoder_Consume_Large_def BM_Decoder_Consume_WithSpecialBytes_def BM_Decoder_Consume_MultiplePackets_def
      del: length_slip_encode)
qed

theorem bench_decoder_correct_witness:
  "\<exists>b. BM_Decoder_Consume_4ByteChunk (\<lambda>_. 7) 2 = Some b \<and> results b = [[test_data None 256], [test_data None 256]]"
  using bench_decoder_correct [of "\<lambda>_. 7" 2] by (simp add: numeral_2_eq_2)

end
