(* ===== verification/Spec2Isabelle.thy ===== *)
theory Spec2Isabelle
  imports Slip_Buffer Slip_CRC32 Slip_Decoder Slip_Encoder Slip_Sink Slip_Results
    Slip_Bench_Buffer Slip_Bench_CRC32 Slip_Bench_Encoder Slip_Bench_Decoder
begin

text \<open>
  Verification of libSLIPStream, a C++ library for SLIP framing (RFC 1055) with optional
  CRC32 checksums, for memory buffers and for byte streams.

  \<^bold>\<open>The program.\<close> The library has five implementation files under \<open>src/src\<close> and their headers under
  \<open>src/include/SLIPStream\<close>. \<open>SLIP.hpp\<close> fixes the special bytes. \<open>Error\<close> holds the error codes and
  result types that all other parts return. \<open>Buffer\<close> encodes and decodes one packet between
  two memory buffers, each operation in a plain variant (an error is the value SIZE_MAX) and
  an extended one (a result with code, position and message). \<open>Decoder\<close> is an object fed with
  bytes one at a time or in buffers; it collects a frame in a buffer of the caller and
  hands each complete message to a callback. \<open>Encoder\<close> is an object with a ring buffer of encoded bytes
  between the client, who pushes packets, and an output callback that takes single bytes and
  may ask to be called again later. \<open>CRC32\<close> computes a checksum and appends it to, extracts it from
  and verifies it in a buffer. Buffer, Decoder and Encoder share only the special bytes and the
  error types; the client connects them, as the theorems of this theory do. The repository
  has such clients in the benchmarks under \<open>src/bench\<close>, which call the library in loops on prepared data
  and vectors.

  \<^bold>\<open>The theories.\<close>
  \<^item> \<open>Slip_Prelude\<close>: the types of the model (\<open>byte\<close>, \<open>uint32\<close>, \<open>size_t\<close> as words of 8, 32 and 64 bits,
    memory as a function from addresses to bytes), lemmas on words and memory ranges, the
    chunk arithmetic of the loops that cut a buffer into chunks with an induction rule for them,
    and the locales \<open>preserving\<close> and \<open>simulating\<close> for components that consume inputs one at a time.
  \<^item> \<open>Slip_Error\<close>: \<open>Error.hpp\<close> and \<open>Error.cpp\<close>. The conversions to text work on the underlying byte.
  \<^item> \<open>Slip_Spec\<close>: the special bytes, and the reference semantics the components are compared with.
    \<open>slip_encode\<close> is the frame of a payload, \<open>slip_decode\<close> decodes up to the first END; the locale
    \<open>codec\<close> states what makes them a self-delimiting code and is interpreted on them. \<open>rx_step\<close> is the
    automaton that cuts a stream into messages; \<open>rx_step_cap\<close> and \<open>rx_step_drop\<close> are its versions
    with a bounded buffer, and \<open>rx_cap_run_frame\<close> gives what a frame of any length leads to.
  \<^item> \<open>Slip_Buffer\<close>: \<open>Buffer.cpp\<close>, one definition per function and per loop, over one memory that holds
    input and output, so that overlap is visible. Loops recurse on the distance of the
    pointers. The lemmas show that the loops read and write the reference encoding and decoding.
  \<^item> \<open>Slip_CRC32\<close>: \<open>CRC32.cpp\<close> with its table. The table-driven loop is proved equal to a bit-serial
    CRC; the locale \<open>xor_linear\<close> carries the linearity from which the results on the detection
    of corrupted bytes follow.
  \<^item> \<open>Slip_Decoder\<close>: \<open>Decoder.cpp\<close>. The object is the record \<open>Decoder\<close>; \<open>rxbuf\<close> is the memory behind the
    pointer, addressed from 0, and \<open>calls\<close> the trace of callback calls. \<open>dec_abs\<close> maps a decoder
    to the automaton; both byte operations are interpretations of \<open>simulating\<close> for it. \<open>dec_reach\<close>
    is the set of decoders a client can get to.
  \<^item> \<open>Slip_Encoder\<close>: \<open>Encoder.cpp\<close>. The output callback is the argument \<open>out\<close> of the operations, a function
    from the state it captures (\<open>sink\<close>) and a byte to a status and a new state, with nothing assumed
    about it; only the theorems on progress ask for an output that accepts all bytes.
    \<open>accepted\<close> records the bytes it took. The locale \<open>bounded_queue\<close> is the interface of the ring buffer.
    \<open>stream\<close> (accepted and queued bytes) and \<open>intended\<close> (with a pending END) state what every operation
    conserves or extends; \<open>push_session\<close> is the protocol of a client that calls again until \<open>Ok\<close>, against an
    output that may block or fail anywhere.
  \<^item> \<open>Slip_Sink\<close>: the encoder against outputs of which something is known. The locale \<open>credit\<close> is an
    output that accepts a known number of bytes, under which a packet passes through in one call; the
    locale \<open>patient\<close> is an output that blocks a bounded number of times, under which the clients
    \<open>push_remaining\<close> and \<open>flush_all\<close> (call again until done) come to an end.
  \<^item> \<open>Slip_Results\<close>: what a well-formed value of each result type is, and that all functions
    with error information return such values.
  \<^item> \<open>Slip_Heap\<close>: the objects of a client program in memory. The allocator is a parameter of which
    \<open>allocates\<close> states that it returns blocks that do not overlap those in use; \<open>bump\<close> is one.
  \<^item> \<open>Slip_Bench\<close>: the shape common to all benchmarks: the test data, the loop over the
    iterations, and the locale \<open>steady\<close> of a loop body that returns the same in every iteration.
    \<open>Slip_Bench_Buffer\<close>, \<open>Slip_Bench_CRC32\<close>, \<open>Slip_Bench_Encoder\<close> and \<open>Slip_Bench_Decoder\<close>: the 57 functions of
    \<open>bench_buffer.cpp\<close>, \<open>bench_crc32.cpp\<close>, \<open>bench_encoder.cpp\<close> and \<open>bench_decoder.cpp\<close>, under their names.
  \<^item> This theory: the properties that span components.

  \<^bold>\<open>What is proved.\<close> For the buffer functions: they write exactly the frame or the payload, fail exactly when
  they should with the right code, position and bytes written so far, write nothing outside the output buffer, the plain
  and extended variants agree, decoding inverts encoding also in place. For the checksum: equality with the
  bit-serial CRC of the generator the table really has, agreement of append, extract and verify,
  and exactly which short corruptions are detected. For the decoder: refinement of the bounded
  automaton, memory safety, delivery of frames, the exact outcome and log calls for frames that are too long,
  recovery at the next END, the relation of the error-reporting and chunked variants to the plain one. For the
  encoder: the ring buffer is a bounded queue, a flush sends a prefix of it, and every call extends the
  committed stream by exactly the escaped bytes it reports; progress with an accepting output, and completion
  within a bounded number of calls with one that blocks a bounded number of times; agreement
  of the variants. For all functions with error information: the fields of their results agree. For the
  error codes: the exact texts. Together: packets pushed into an encoder over any output come out of a decoder
  unchanged and in order, with a bounded number of empty messages between them when the output blocks behind
  the last byte of a packet. For the benchmarks: no call fails, blocks or loses data, for any number of
  iterations. Theorems also state where the code departs from its documentation (the CRC polynomial, the lost error records, frames split by an overflow, the ambiguous result of a
  blocked \<open>pushPacket\<close>, chunk size 0).

  \<^bold>\<open>Bounds.\<close> \<open>size_t\<close> is a word of 64 bits and its arithmetic wraps as in C++; lists that stand for a
  buffer and its size are assumed shorter than \<open>2 ^ 64\<close> where the size is converted. The loops of the
  chunked operations may not end and are partial functions into \<open>option\<close>, where \<open>None\<close> is a call that
  never returns; all other functions of the program are total, with termination proved. Only the clients
  \<open>push_remaining\<close> and \<open>flush_all\<close> of \<open>Slip_Sink\<close> have a bound on their number of calls; numbers that suffice are
  part of the theorem about them. The number of iterations of a benchmark is a parameter, as the framework chooses it.

  \<^bold>\<open>What is not modelled.\<close> Callbacks that re-enter the object, throw, or are empty where the code calls them
  unconditionally; the undefined behaviour of pointer arithmetic beyond an object; input that
  overlaps the decoder's own buffer (the bytes of a call are read before it starts); failure to
  allocate the ring buffer. Of the benchmarks, their registration, the entry point \<open>bench_main.cpp\<close> (macros of the
  external framework), the measured times, and the release of memory when a vector goes out of scope. The
  unit tests are left out: their cases are single inputs to assertions of the test framework. The example program
  is left out since it does not compile: line 62 of \<open>example_01_basic_encoding.cpp\<close> uses \<open>escaped_len\<close>, which is
  declared nowhere.

  \<^bold>\<open>Extensions planned.\<close> Encoding with overlapping buffers; the exact trace of the extended log callback;
  callbacks that call back into the object.
\<close>

section \<open>From encoder to decoder\<close>

text \<open>
  A sequence of packets, each sent by the client protocol of a session, with calls of \<open>flush\<close>
  in between. The number adds up those of the sessions.
\<close>

inductive push_sessions :: "'s OutputFn \<Rightarrow> 's Encoder \<Rightarrow> byte list list \<Rightarrow> nat \<Rightarrow> 's Encoder \<Rightarrow> bool" for out where
  no_packet: "push_sessions out e [] 0 e"
| packet: "push_session out e p j e1 \<Longrightarrow> push_sessions out e1 ps k e' \<Longrightarrow> push_sessions out e (p # ps) (j + k) e'"
| flushing: "flush out e = (st, e1) \<Longrightarrow> push_sessions out e1 ps k e' \<Longrightarrow> push_sessions out e ps k e'"

text \<open>Packets with a number of empty packets behind each.\<close>

definition padded :: "byte list list \<Rightarrow> nat list \<Rightarrow> byte list list" where
  "padded ps js = concat (map2 (\<lambda>p j. p # replicate j []) ps js)"

lemma padded_simps [simp]:
  "padded [] [] = []" "padded (p # ps) (j # js) = p # replicate j [] @ padded ps js"
  by (simp_all add: padded_def)

lemma set_padded: "length js = length ps \<Longrightarrow> set (padded ps js) \<subseteq> insert [] (set ps)"
  by (induction js ps rule: list_induct2) auto

lemma padded_nonempty:
  "length js = length ps \<Longrightarrow> filter (\<lambda>p. p \<noteq> []) (padded ps js) = filter (\<lambda>p. p \<noteq> []) ps"
  by (induction js ps rule: list_induct2) auto

lemma padded_zero: "length js = length ps \<Longrightarrow> sum_list js = 0 \<Longrightarrow> padded ps js = ps"
  by (induction js ps rule: list_induct2) auto

lemma encode_empty_packets [simp]: "concat (replicate j (slip_encode [])) = replicate j END"
  by (induction j) (simp_all add: slip_encode_def)

lemma push_sessions_stream:
  assumes "push_sessions out e ps k e'" "enc_inv e" "\<not> endPending e" "\<forall>p \<in> set ps. length p < 2 ^ 64"
  shows "enc_inv e' \<and> \<not> endPending e' \<and> (\<exists>js. length js = length ps \<and> sum_list js \<le> k \<and>
    stream e' = stream e @ concat (map slip_encode (padded ps js)))"
  using assms
proof (induction rule: push_sessions.induct)
  case (no_packet e)
  then show ?case by simp
next
  case (packet e p j e1 ps k e')
  obtain i where i: "enc_inv e1" "\<not> endPending e1" "i \<le> j" "stream e1 = stream e @ slip_encode p @ replicate i END"
    using push_session_stream [OF packet.hyps(1)] packet.prems by (auto simp: intended_def)
  with packet obtain js where js: "enc_inv e'" "\<not> endPending e'" "length js = length ps" "sum_list js \<le> k"
      "stream e' = stream e1 @ concat (map slip_encode (padded ps js))"
    by auto
  with i show ?case by (intro conjI exI [of _ "i # js"]) simp_all
next
  case (flushing e st e1 ps k e')
  with flush_intended [OF flushing.prems(1) flushing.hyps(1)] show ?case by simp
qed

text \<open>What was delivered stays delivered: consuming more bytes only adds messages.\<close>

lemma rx_out_step: "\<exists>new. rx_out (rx_step_cap cap r c) = rx_out r @ new"
  by (simp add: rx_step_cap_def rx_step_def rx_clear_def)

lemma rx_out_run: "\<exists>new. rx_out (foldl (rx_step_cap cap) r cs) = rx_out r @ new"
proof (induction cs arbitrary: r)
  case Nil
  then show ?case by simp
next
  case (Cons c cs)
  then show ?case using rx_out_step [of cap r c] by (metis append.assoc foldl_Cons)
qed

lemma consume_messages_mono:
  assumes "dec_inv n m d"
  shows "\<exists>new. messages (calls (consume d data)) = messages (calls d) @ new"
  using rx_out_run by (simp add: rx_out_abs consume_sim [OF assms])

text \<open>
  C1: End to end over any output. Packets are sent from a new encoder by a client that calls
  \<open>pushPacket\<close> again with the bytes left over until it returns \<open>Ok\<close>, against an output that may block or
  fail at any byte, also behind the last byte or the END of a packet. The bytes the output has
  accepted are fed to a new decoder whose buffer has two bytes more than the longest packet. The
  messages delivered are the first of the packets, unchanged and in order, with at most \<open>k\<close>
  empty messages inserted behind them, where \<open>k\<close> counts the calls that consumed all bytes left
  without returning \<open>Ok\<close>; and all of the packets once the queue of the encoder is empty. So
  the non-empty messages are the non-empty packets, and without a call of that kind the messages
  are exactly the packets.
\<close>
theorem encoder_to_decoder:
  assumes "push_sessions out (mk_Encoder s txsize c) ps k e'" "\<forall>p \<in> set ps. length p + 2 \<le> unat n" "0 < n"
    and "msgs = messages (calls (consume (Decoder_log m n h) (accepted e')))"
  shows "\<exists>js rest. length js = length ps \<and> sum_list js \<le> k \<and> padded ps js = msgs @ rest \<and>
    filter (\<lambda>p. p \<noteq> []) ps = filter (\<lambda>p. p \<noteq> []) msgs @ filter (\<lambda>p. p \<noteq> []) rest \<and>
    (k = 0 \<longrightarrow> ps = msgs @ rest) \<and> (queue e' = [] \<longrightarrow> rest = [])"
proof -
  define d where "d = Decoder_log m n h"
  have d: "dec_inv n m d" "dec_idle d" "messages (calls d) = []"
    using dec_reach_inv [OF dec_reach.make_log assms(3)] by (simp_all add: d_def) (simp add: Decoder_log_def)
  have "\<forall>p \<in> set ps. length p < 2 ^ 64"
    using assms(2) unat_size_less [of n] by fastforce
  with push_sessions_stream [OF assms(1) enc_inv_make(1)]
  obtain js where js: "length js = length ps" "sum_list js \<le> k" "stream e' = concat (map slip_encode (padded ps js))"
    by (auto simp: mk_Encoder_def stream_def queue_def)
  then have all: "accepted e' @ queue e' = concat (map slip_encode (padded ps js))"
    by (simp add: stream_def)
  have "length p + 2 \<le> unat n" if "p \<in> set (padded ps js)" for p
  proof -
    have "ps \<noteq> []" using that js(1) by auto
    then show ?thesis
      using set_padded [OF js(1)] assms(2) that by (cases ps) auto
  qed
  then have "messages (calls (consume d (accepted e' @ queue e'))) = padded ps js"
    using consume_frames(1) [OF d(1,2), of "padded ps js"] d(3) by (simp add: all)
  then obtain rest where rest: "padded ps js = msgs @ rest" "queue e' = [] \<longrightarrow> rest = []"
    using consume_messages_mono [OF consume_inv [OF d(1)], of "accepted e'" "queue e'"] assms(4)
    by (cases "queue e' = []") (auto simp: consume_append simp flip: d_def)
  moreover have "filter (\<lambda>p. p \<noteq> []) ps = filter (\<lambda>p. p \<noteq> []) (msgs @ rest)"
    using padded_nonempty [OF js(1)] rest(1) by simp
  ultimately show ?thesis
    using js(1,2) padded_zero [OF js(1)] by (intro exI [of _ js] exI [of _ rest]) auto
qed

theorem encoder_to_decoder_witness:
  "\<exists>e' js rest. push_sessions stalling_sink (sample_encoder 0) [[1, 2]] 1 e' \<and> length js = 1 \<and> sum_list js \<le> 1 \<and>
     padded [[1, 2]] js = messages (calls (consume (Decoder_log (\<lambda>_. 0) 8 True) (accepted e'))) @ rest"
proof -
  let ?e' = "snd (pushPacket stalling_sink (snd (pushPacket stalling_sink (sample_encoder 0) [1, 2])) [])"
  have s: "push_sessions stalling_sink (sample_encoder 0) [[1, 2]] 1 ?e'"
    using push_sessions.packet [OF stalled_end_session push_sessions.no_packet] by simp
  from encoder_to_decoder [OF this [unfolded sample_encoder_def], of 8, OF _ _ refl, of "\<lambda>_. 0" True] s show ?thesis
    by (intro exI [of _ ?e']) (auto simp: sample_encoder_def)
qed

section \<open>The two encoders and the decoder\<close>

lemma consume_one_frame:
  assumes "dec_reach m n d" "dec_idle d" "length xs + 2 \<le> unat n"
  shows "messages (calls (consume d (slip_encode xs))) = messages (calls d) @ [xs]"
proof -
  have "0 < n" using assms(3) by (auto simp: word_less_nat_alt)
  from consume_frames(1) [OF dec_reach_inv [OF assms(1) this] assms(2), of "[xs]"] assms(3) show ?thesis
    by simp
qed

text \<open>
  C2: The buffer function, the buffering encoder and the decoder agree on the frame of a payload.
  What a successful \<open>pushPacket\<close> adds to the stream is byte for byte what
  \<open>encode_packet\<close> writes for the same payload, and an idle decoder with room for it
  delivers that payload from the bytes written.
\<close>
theorem encoders_agree:
  assumes "disjoint_ranges inp (unat inlen) out (unat outlen)"
    and "length (slip_encode (mem_range m inp (unat inlen))) \<le> unat outlen"
    and "encode_packet m inp inlen out outlen = (m1, n)"
    and "enc_inv e" "pushPacket f e (mem_range m inp (unat inlen)) = ((Ok, k), e')"
    and "dec_reach mr rn d" "dec_idle d" "unat inlen + 2 \<le> unat rn"
  shows "k = inlen \<and> stream e' = intended e @ mem_range m1 out (unat n) \<and>
    messages (calls (consume d (mem_range m1 out (unat n)))) =
      messages (calls d) @ [mem_range m inp (unat inlen)]"
proof -
  let ?d = "mem_range m inp (unat inlen)"
  have frame: "mem_range m1 out (unat n) = slip_encode ?d"
    by (rule encode_packet_bytes [OF assms(1-3)])
  have "length ?d < 2 ^ 64" by (simp only: length_mem_range unat_size_less)
  from pushPacket_spec [OF assms(4) this assms(5)]
  have "k = inlen" "stream e' = intended e @ slip_encode ?d"
    by (auto simp: word_unat_eq_iff intended_def [of e'])
  with consume_one_frame [OF assms(6,7), of ?d] assms(8) show ?thesis by (simp add: frame)
qed

theorem encoders_agree_witness:
  "\<exists>m1 e'. encode_packet sample_mem 100 3 200 6 = (m1, 6) \<and>
     pushPacket open_sink (sample_encoder ()) [0x01, 0xC0, 0xDB] = ((Ok, 3), e') \<and>
     stream e' = mem_range m1 200 6"
proof -
  obtain m1 where m1: "encode_packet sample_mem 100 3 200 6 = (m1, 6)"
    using encode_packet_fits [of 100 3 200 6 sample_mem]
    by (simp add: disjoint_ranges_def sample_facts encoded_length_eq)
  obtain e' where e': "pushPacket open_sink (sample_encoder ()) [0x01, 0xC0, 0xDB] = ((Ok, 3), e')"
    using pushPacket_accepts_all [OF open_sink_accepts sample_encoder_inv(3), of "[0x01, 0xC0, 0xDB]" "()"] by auto
  show ?thesis
    using encoders_agree [of 100 3 200 6 sample_mem m1 6 "sample_encoder ()" open_sink 3 e' "\<lambda>_. 0" 8 sample_decoder]
      m1 e' sample_reach sample_idle
    by (auto simp: disjoint_ranges_def sample_facts sample_encoder_inv)
qed

section \<open>Frames with a checksum\<close>

text \<open>
  C3: Checksummed transmission. A non-empty payload gets its checksum appended, is encoded into a
  frame and the frame is consumed by an idle decoder with room for it. The decoder
  delivers one message, which starts with the payload, and \<open>verify_crc32\<close> accepts it
  wherever in memory the receiver holds it.
\<close>
theorem crc_frame_end_to_end:
  assumes "data \<noteq> nullptr" "len \<noteq> 0" "unat len + 4 < 2 ^ 64" "append_crc32 m data len = (m1, n1)"
    and "disjoint_ranges data (unat n1) out (unat outlen)"
    and "length (slip_encode (mem_range m1 data (unat n1))) \<le> unat outlen"
    and "encode_packet m1 data n1 out outlen = (m2, n2)"
    and "dec_reach mr rn d" "dec_idle d" "unat n1 + 2 \<le> unat rn"
  shows "\<exists>msg. messages (calls (consume d (mem_range m2 out (unat n2)))) = messages (calls d) @ [msg] \<and>
    take (unat len) msg = mem_range m data (unat len) \<and>
    (\<forall>m3 p. p \<noteq> nullptr \<and> mem_range m3 p (unat n1) = msg \<longrightarrow> verify_crc32 m3 p n1)"
proof -
  let ?x = "mem_range m data (unat len)"
  let ?d = "mem_range m1 data (unat n1)"
  have m1: "m1 = mem_write m (data + unat len) (le_bytes (crc_of ?x))" and n1: "n1 = len + 4"
    using append_crc32_eq [OF assms(1,3)] assms(4) by simp_all
  have un: "unat n1 = unat len + 4"
    using assms(3) by (simp add: n1 unat_word_ariths)
  have d: "?d = ?x @ le_bytes (crc_of ?x)"
    using mem_range_mem_write [of m "data + unat len" "le_bytes (crc_of ?x)"]
    by (simp add: un mem_range_add m1 mem_range_write_outside)
  have "messages (calls (consume d (mem_range m2 out (unat n2)))) = messages (calls d) @ [?d]"
    using consume_one_frame [OF assms(8,9), of ?d] assms(10)
    by (simp add: encode_packet_bytes [OF assms(5-7)])
  moreover have "verify_crc32 m3 p n1" if "p \<noteq> nullptr" "mem_range m3 p (unat n1) = ?d" for m3 p
    using verify_crc32_list [OF that(1), of m3 n1 ?x "le_bytes (crc_of ?x)"] that(2) d assms(2)
    by (simp add: unat_eq_zero flip: length_0_conv)
  ultimately show ?thesis
    by (intro exI [of _ ?d]) (simp add: d)
qed

theorem crc_frame_end_to_end_witness:
  "\<exists>m1 m2 n2 msg. append_crc32 sample_mem 100 3 = (m1, 7) \<and> encode_packet m1 100 7 200 20 = (m2, n2) \<and>
     messages (calls (consume (Decoder_log (\<lambda>_. 0) 16 True) (mem_range m2 200 (unat n2)))) = [msg] \<and>
     take 3 msg = [0x01, 0xC0, 0xDB]"
proof -
  obtain m1 where 1: "append_crc32 sample_mem 100 3 = (m1, 7)"
    using append_crc32_eq [of 100 3 sample_mem] by (simp add: nullptr_def)
  obtain m2 n2 where 2: "encode_packet m1 100 7 200 20 = (m2, n2)" by fastforce
  let ?d = "Decoder_log (\<lambda>_. 0) 16 True"
  have "length (slip_encode (mem_range m1 100 7)) \<le> 20"
    using length_slip_body_le [of "mem_range m1 100 7"] by simp
  with crc_frame_end_to_end [OF _ _ _ 1 _ _ 2 dec_reach.make_log [of "\<lambda>_. 0" 16 True] dec_idle_make(1)]
  obtain msg where "messages (calls (consume ?d (mem_range m2 200 (unat n2)))) = messages (calls ?d) @ [msg]"
    "take 3 msg = [0x01, 0xC0, 0xDB]"
    by (auto simp: nullptr_def disjoint_ranges_def sample_payload)
  moreover have "messages (calls ?d) = []" by (simp add: Decoder_log_def)
  ultimately show ?thesis using 1 2 by (intro exI) auto
qed

end
